(* ===== verification/Prelude.thy ===== *)
theory Prelude
  imports Main "HOL-Library.Word"
begin

unbundle bit_operations_syntax

text \<open>
  Shared vocabulary of the development: machine integers and byte strings, the result type
  of Go functions that may fail or panic, the parts of Go's standard library that Keystone
  calls (\<open>encoding/binary\<close>, \<open>bytes\<close>, \<open>hash/crc32\<close>, \<open>sort.Search\<close>) and the generic lemmas
  on lists the components share.
\<close>

section \<open>Types\<close>

type_synonym u8 = "8 word"
type_synonym u32 = "32 word"
type_synonym u64 = "64 word"
type_synonym bytes = "u8 list"

text \<open>
  A Go function returning \<open>(T, error)\<close> either returns a value, returns an error, or panics
  (an index or slice bound out of range, or an explicit \<open>panic\<close>).
\<close>

datatype ('e, 'a) outcome = Ok 'a | Err 'e | Panic

fun bind_outcome :: "('e, 'a) outcome \<Rightarrow> ('a \<Rightarrow> ('e, 'b) outcome) \<Rightarrow> ('e, 'b) outcome" where
  "bind_outcome (Ok a) f = f a"
| "bind_outcome (Err e) f = Err e"
| "bind_outcome Panic f = Panic"

named_theorems codec \<open>decoding what was encoded\<close>

section \<open>Fixed-width integers (encoding/binary)\<close>

text \<open>
  \<open>le_bytes n v\<close> is the \<open>n\<close>-byte little-endian representation of \<open>v\<close>, byte by byte as
  \<open>AppendUint32\<close> and \<open>AppendUint64\<close> write it; \<open>le_nat\<close> reads a byte string back.
\<close>

fun le_bytes :: "nat \<Rightarrow> nat \<Rightarrow> bytes" where
  "le_bytes 0 v = []"
| "le_bytes (Suc n) v = word_of_nat v # le_bytes n (v div 256)"

fun le_nat :: "bytes \<Rightarrow> nat" where
  "le_nat [] = 0"
| "le_nat (b # bs) = unat b + 256 * le_nat bs"

definition put_le32 :: "u32 \<Rightarrow> bytes" where
  "put_le32 w = le_bytes 4 (unat w)"

definition get_le32 :: "bytes \<Rightarrow> u32" where
  "get_le32 b = word_of_nat (le_nat (take 4 b))"

definition put_le64 :: "u64 \<Rightarrow> bytes" where
  "put_le64 w = le_bytes 8 (unat w)"

definition get_le64 :: "bytes \<Rightarrow> u64" where
  "get_le64 b = word_of_nat (le_nat (take 8 b))"

definition put_be64 :: "u64 \<Rightarrow> bytes" where
  "put_be64 w = rev (le_bytes 8 (unat w))"

definition get_be64 :: "bytes \<Rightarrow> u64" where
  "get_be64 b = word_of_nat (le_nat (rev (take 8 b)))"

lemma length_le_bytes [simp]: "length (le_bytes n v) = n"
  by (induction n arbitrary: v) auto

lemma unat_word_of_nat_8 [simp]: "unat (word_of_nat v :: u8) = v mod 256"
  by (simp add: unat_of_nat)

lemma le_nat_le_bytes: "le_nat (le_bytes n v) = v mod 256 ^ n"
proof (induction n arbitrary: v)
  case 0
  then show ?case by simp
next
  case (Suc n)
  have "v mod (256 * 256 ^ n) = v mod 256 + 256 * (v div 256 mod 256 ^ n)"
    by (simp add: mod_mult2_eq)
  with Suc show ?case by simp
qed

lemma le_nat_bound: "le_nat b < 256 ^ length b"
proof (induction b)
  case Nil
  then show ?case by simp
next
  case (Cons x b)
  have "unat x < 256" using unsigned_less [of x] by simp
  moreover have "le_nat b + 1 \<le> 256 ^ length b" using Cons by simp
  ultimately show ?case
    using mult_le_mono2 [of "le_nat b + 1" "256 ^ length b" 256] by simp
qed

lemma le_bytes_le_nat: "le_bytes (length b) (le_nat b) = b"
proof (induction b)
  case Nil
  then show ?case by simp
next
  case (Cons x b)
  have x: "unat x < 256" using unsigned_less [of x] by simp
  have "(word_of_nat (unat x + 256 * le_nat b) :: u8) = x"
    using x by (simp add: word_unat_eq_iff del: of_nat_add)
  moreover have "(unat x + 256 * le_nat b) div 256 = le_nat b" using x by simp
  ultimately show ?case using Cons by simp
qed

lemma le_nat_inject: "length a = length b \<Longrightarrow> le_nat a = le_nat b \<Longrightarrow> a = b"
  by (metis le_bytes_le_nat)

lemma length_put_le32 [simp]: "length (put_le32 w) = 4"
  by (simp add: put_le32_def)

lemma length_put_le64 [simp]: "length (put_le64 w) = 8"
  by (simp add: put_le64_def)

lemma length_put_be64 [simp]: "length (put_be64 w) = 8"
  by (simp add: put_be64_def)

lemma word_of_nat_le_nat_le_bytes:
  fixes w :: "'a::len word"
  assumes "2 ^ LENGTH('a) \<le> (256 :: nat) ^ n"
  shows "word_of_nat (le_nat (le_bytes n (unat w))) = w"
proof -
  have "unat w < 256 ^ n" using assms unsigned_less [of w] by (rule less_le_trans [rotated])
  then show ?thesis by (simp add: le_nat_le_bytes)
qed

lemma get_le32_put [simp, codec]: "get_le32 (put_le32 w @ r) = w"
  by (simp add: get_le32_def put_le32_def word_of_nat_le_nat_le_bytes)

lemma get_le64_put [simp, codec]: "get_le64 (put_le64 w @ r) = w"
  by (simp add: get_le64_def put_le64_def word_of_nat_le_nat_le_bytes)

lemma get_be64_put [simp, codec]: "get_be64 (put_be64 w @ r) = w"
  by (simp add: get_be64_def put_be64_def word_of_nat_le_nat_le_bytes)

lemma put_be64_get: "length b = 8 \<Longrightarrow> put_be64 (get_be64 b) = b"
proof -
  assume b: "length b = 8"
  have "le_nat (rev b) < 256 ^ 8" using le_nat_bound [of "rev b"] b by simp
  then have "unat (word_of_nat (le_nat (rev b)) :: u64) = le_nat (rev b)"
    by (simp add: unat_of_nat)
  moreover have "le_bytes 8 (le_nat (rev b)) = rev b"
    using le_bytes_le_nat [of "rev b"] b by simp
  ultimately show ?thesis using b by (simp add: put_be64_def get_be64_def)
qed

section \<open>Variable-length integers (encoding/binary)\<close>

text \<open>
  \<open>AppendUvarint\<close> writes seven bits per byte, least significant group first, with the top
  bit of every byte but the last set. \<open>Uvarint\<close> returns the value and the number of bytes
  read; 0 bytes when the buffer is too short and a negative count when the value does not
  fit 64 bits. The accumulated value stays below \<open>2 ^ 64\<close> on every path that returns it,
  so natural numbers compute exactly what the 64-bit shifts do.
\<close>

fun put_uvarint :: "nat \<Rightarrow> bytes" where
  "put_uvarint x =
     (if x \<ge> 128 then word_of_nat (x mod 128 + 128) # put_uvarint (x div 128)
      else [word_of_nat x])"

declare put_uvarint.simps [simp del]

fun uvarint_from :: "nat \<Rightarrow> nat \<Rightarrow> bytes \<Rightarrow> nat \<times> int" where
  "uvarint_from i x [] = (0, 0)"
| "uvarint_from i x (b # bs) =
     (if i = 10 then (0, - (int i + 1))
      else if unat b < 128 then
        (if i = 9 \<and> unat b > 1 then (0, - (int i + 1))
         else (x + unat b * 128 ^ i, int i + 1))
      else uvarint_from (i + 1) (x + (unat b mod 128) * 128 ^ i) bs)"

definition uvarint :: "bytes \<Rightarrow> nat \<times> int" where
  "uvarint b = uvarint_from 0 0 b"

lemma put_uvarint_nonempty [simp]: "put_uvarint x \<noteq> []"
  by (subst put_uvarint.simps) simp

lemma uvarint_from_put:
  "i \<le> 9 \<Longrightarrow> x * 128 ^ i < 2 ^ 64 \<Longrightarrow>
   uvarint_from i a (put_uvarint x @ r) = (a + x * 128 ^ i, int (i + length (put_uvarint x)))"
proof (induction x arbitrary: i a rule: put_uvarint.induct)
  case (1 x)
  show ?case
  proof (cases "x \<ge> 128")
    case True
    have "128 * 128 ^ i \<le> x * (128 :: nat) ^ i" using True by simp
    then have "128 * 128 ^ i < (2 :: nat) ^ 64" using "1.prems"(2) by (rule le_less_trans)
    then have i8: "(128 :: nat) ^ (Suc i) < 128 ^ 10" by simp
    have "Suc i \<le> 9"
    proof (rule ccontr)
      assume "\<not> Suc i \<le> 9"
      then have "(128 :: nat) ^ 10 \<le> 128 ^ Suc i" by (intro power_increasing) auto
      with i8 show False by simp
    qed
    moreover have "x div 128 * 128 ^ Suc i < 2 ^ 64"
    proof -
      have "x div 128 * 128 \<le> x" by simp
      then have "x div 128 * 128 * 128 ^ i \<le> x * 128 ^ i" by (rule mult_le_mono1)
      then have "x div 128 * 128 * 128 ^ i < 2 ^ 64" using "1.prems"(2) by (rule le_less_trans)
      then show ?thesis by (simp only: power_Suc mult.assoc)
    qed
    ultimately have IH: "uvarint_from (Suc i) (a + x mod 128 * 128 ^ i) (put_uvarint (x div 128) @ r)
        = (a + x mod 128 * 128 ^ i + x div 128 * 128 ^ Suc i, int (Suc i + length (put_uvarint (x div 128))))"
      using "1.IH" [OF True] by blast
    have split: "x mod 128 * 128 ^ i + x div 128 * 128 ^ Suc i = x * 128 ^ i"
    proof -
      have "x mod 128 * 128 ^ i + x div 128 * 128 ^ Suc i = (x mod 128 + x div 128 * 128) * 128 ^ i"
        by (simp only: power_Suc distrib_right mult.assoc)
      then show ?thesis by (simp only: mod_div_mult_eq)
    qed
    have "(x mod 128 + 128) mod 256 = x mod 128 + 128"
      by (rule mod_less) (use mod_less_divisor [of 128 x] in linarith)
    with True IH split \<open>Suc i \<le> 9\<close> show ?thesis
      by (subst (1 2) put_uvarint.simps) (simp add: add.assoc del: of_nat_add)
  next
    case False
    have "i = 9 \<Longrightarrow> x \<le> 1"
      using "1.prems"(2) by simp
    with False "1.prems"(1) show ?thesis
      by (subst (1 2) put_uvarint.simps) auto
  qed
qed

lemma uvarint_put [simp, codec]:
  "x < 2 ^ 64 \<Longrightarrow> uvarint (put_uvarint x @ r) = (x, int (length (put_uvarint x)))"
  using uvarint_from_put [of 0 x 0 r] by (simp add: uvarint_def)

section \<open>Byte strings (bytes)\<close>

text \<open>\<open>bytes.Compare\<close>: lexicographic order on unsigned bytes, a proper prefix first.\<close>

fun bytes_compare :: "bytes \<Rightarrow> bytes \<Rightarrow> int" where
  "bytes_compare [] [] = 0"
| "bytes_compare [] (b # bs) = - 1"
| "bytes_compare (a # as) [] = 1"
| "bytes_compare (a # as) (b # bs) =
     (if a < b then - 1 else if b < a then 1 else bytes_compare as bs)"

lemma bytes_compare_range: "bytes_compare a b \<in> {- 1, 0, 1}"
  by (induction a b rule: bytes_compare.induct) auto

lemma bytes_compare_eq [simp]: "bytes_compare a b = 0 \<longleftrightarrow> a = b"
  by (induction a b rule: bytes_compare.induct) auto

lemma bytes_compare_refl [simp]: "bytes_compare a a = 0"
  by simp

lemma bytes_compare_sym: "bytes_compare b a = - bytes_compare a b"
  by (induction a b rule: bytes_compare.induct) auto

lemma bytes_compare_trans:
  "bytes_compare a b < 0 \<Longrightarrow> bytes_compare b c < 0 \<Longrightarrow> bytes_compare a c < 0"
proof (induction a b arbitrary: c rule: bytes_compare.induct)
  case (2 b bs)
  then show ?case by (cases c) auto
next
  case (4 a as b bs)
  then show ?case by (cases c) (auto split: if_splits)
qed auto

lemma bytes_compare_total: "a \<noteq> b \<Longrightarrow> bytes_compare a b < 0 \<or> bytes_compare b a < 0"
  using bytes_compare_range [of a b] by (auto simp: bytes_compare_sym [of b a])

section \<open>Checksums (hash/crc32)\<close>

text \<open>
  \<open>crc32.Checksum(b, castagnoli)\<close>: the reflected CRC-32 with the Castagnoli polynomial,
  bit by bit; the table-driven and the SSE 4.2 versions of the library compute the same.
\<close>

definition crc32c_bit :: "u32 \<Rightarrow> u32" where
  "crc32c_bit c = (if bit c 0 then drop_bit 1 c XOR 0x82F63B78 else drop_bit 1 c)"

definition crc32c_byte :: "u32 \<Rightarrow> u8 \<Rightarrow> u32" where
  "crc32c_byte c x =
     (let s = crc32c_bit in s (s (s (s (s (s (s (s (c XOR ucast x)))))))))"

definition crc32c :: "bytes \<Rightarrow> u32" where
  "crc32c b = foldl crc32c_byte 0xFFFFFFFF b XOR 0xFFFFFFFF"

text \<open>The published check value of CRC-32C, for the nine bytes ``123456789''.\<close>

lemma crc32c_check_value:
  "crc32c [0x31, 0x32, 0x33, 0x34, 0x35, 0x36, 0x37, 0x38, 0x39] = 0xE3069283"
  by (simp add: crc32c_def crc32c_byte_def crc32c_bit_def)

section \<open>Binary search (sort.Search)\<close>

function search_from :: "(nat \<Rightarrow> bool) \<Rightarrow> nat \<Rightarrow> nat \<Rightarrow> nat" where
  "search_from f i j =
     (if i < j then (let h = (i + j) div 2 in if \<not> f h then search_from f (h + 1) j else search_from f i h)
      else i)"
  by pat_completeness auto
termination
  by (relation "measure (\<lambda>(f, i, j). j - i)") auto

declare search_from.simps [simp del]

definition sort_search :: "nat \<Rightarrow> (nat \<Rightarrow> bool) \<Rightarrow> nat" where
  "sort_search n f = search_from f 0 n"

lemma search_from_spec:
  assumes "i \<le> j" and "\<And>k l. k \<le> l \<Longrightarrow> l < j \<Longrightarrow> f k \<Longrightarrow> f l"
  shows "i \<le> search_from f i j \<and> search_from f i j \<le> j
    \<and> (\<forall>k. i \<le> k \<and> k < search_from f i j \<longrightarrow> \<not> f k)
    \<and> (\<forall>k. search_from f i j \<le> k \<and> k < j \<longrightarrow> f k)"
  using assms
proof (induction f i j rule: search_from.induct)
  case (1 f i j)
  let ?h = "(i + j) div 2"
  show ?case
  proof (cases "i < j")
    case False
    then have "search_from f i j = i" by (subst search_from.simps) simp
    with False "1.prems"(1) show ?thesis by auto
  next
    case True
    then have h: "i \<le> ?h" "?h < j" by auto
    show ?thesis
    proof (cases "f ?h")
      case True
      have "\<not> (k \<le> l \<and> l < ?h \<and> f k \<and> \<not> f l)" for k l
        using "1.prems"(2) [of k l] h by force
      with "1.IH"(2) [OF \<open>i < j\<close> refl] True h
      have ih: "i \<le> search_from f i ?h \<and> search_from f i ?h \<le> ?h
        \<and> (\<forall>k. i \<le> k \<and> k < search_from f i ?h \<longrightarrow> \<not> f k)
        \<and> (\<forall>k. search_from f i ?h \<le> k \<and> k < ?h \<longrightarrow> f k)" by blast
      have "f k" if "?h \<le> k" "k < j" for k using "1.prems"(2) [OF that] True by blast
      with ih True \<open>i < j\<close> h show ?thesis
        by (simp add: search_from.simps [of f i j] Let_def) (meson le_less_trans linorder_le_less_linear less_imp_le)
    next
      case False
      with "1.IH"(1) [OF \<open>i < j\<close> refl] "1.prems"(2) h
      have ih: "?h + 1 \<le> search_from f (?h + 1) j \<and> search_from f (?h + 1) j \<le> j
        \<and> (\<forall>k. ?h + 1 \<le> k \<and> k < search_from f (?h + 1) j \<longrightarrow> \<not> f k)
        \<and> (\<forall>k. search_from f (?h + 1) j \<le> k \<and> k < j \<longrightarrow> f k)" by simp
      have "\<not> f k" if "k \<le> ?h" for k using "1.prems"(2) [OF that] False h by blast
      with ih False \<open>i < j\<close> h show ?thesis
        by (simp add: search_from.simps [of f i j] Let_def) (metis Suc_leI linorder_le_less_linear order_trans)
    qed
  qed
qed

end
