(* ===== verification/Keyhash.thy ===== *)
theory Keyhash
  imports Prelude
begin

text \<open>
  The hash that assigns a key to its shard (\<open>src/internal/keyhash/keyhash.go\<close>) and the initial shard map
  (\<open>src/shard/shard.go\<close>). FNV-1a is \<open>hash/fnv\<close> of the Go library.
\<close>

section \<open>Model\<close>

unbundle bit_operations_syntax

definition Shards :: nat where "Shards = 16"

definition fnv64a :: "bytes \<Rightarrow> u64" where
  "fnv64a key = foldl (\<lambda>h b. (h XOR ucast b) * 1099511628211) 14695981039346656037 key"

definition avalanche :: "u64 \<Rightarrow> u64" where
  "avalanche h0 =
     (let h1 = h0 XOR drop_bit 33 h0; h2 = h1 * 0xff51afd7ed558ccd; h3 = h2 XOR drop_bit 33 h2;
          h4 = h3 * 0xc4ceb9fe1a85ec53
      in h4 XOR drop_bit 33 h4)"

definition ShardOf :: "bytes \<Rightarrow> nat" where
  "ShardOf key = unat (avalanche (fnv64a key) div (- 1 div word_of_nat Shards + 1))"

record ShardMap =
  shm_groups :: "u64 list"
  shm_moving :: "u64 list"

text \<open>None is the division by zero of an empty list of groups.\<close>

definition DefaultMap :: "u64 list \<Rightarrow> ShardMap option" where
  "DefaultMap groups =
     (if groups = [] then None
      else Some \<lparr>shm_groups = map (\<lambda>i. groups ! (i mod length groups)) [0..<Shards], shm_moving = replicate Shards 0\<rparr>)"

section \<open>Properties\<close>

lemma shard_width: "(- 1 :: u64) div word_of_nat Shards + 1 = 2 ^ 60"
proof -
  have "(- 1 :: u64) = 0xFFFFFFFFFFFFFFFF" by simp
  then show ?thesis by (simp add: Shards_def)
qed

text \<open>
  C34: the hash space is cut into exactly sixteen shards: \<open>ShardOf\<close> always returns a number below \<open>Shards\<close>, it is the
  top four bits of the mixed hash, and the map a cluster starts with names a serving group for the shard
  of every key.
\<close>

theorem shard_of_bound:
  assumes "DefaultMap groups = Some m"
  shows "ShardOf key < Shards \<and> ShardOf key = unat (avalanche (fnv64a key)) div 2 ^ 60
    \<and> ShardOf key < length (shm_groups m) \<and> shm_groups m ! ShardOf key \<in> set groups"
proof -
  have e: "ShardOf key = unat (avalanche (fnv64a key)) div 2 ^ 60"
    unfolding ShardOf_def shard_width by (simp add: unat_div)
  have "unat (avalanche (fnv64a key)) < 2 ^ 64" using unsigned_less [of "avalanche (fnv64a key)"] by simp
  then have l: "ShardOf key < Shards" unfolding e Shards_def by (simp add: less_mult_imp_div_less)
  have m: "groups \<noteq> []" "shm_groups m = map (\<lambda>i. groups ! (i mod length groups)) [0..<Shards]"
    using assms by (auto simp: DefaultMap_def split: if_splits)
  show ?thesis using e l m by simp
qed

theorem shard_of_bound_witness: "ShardOf [1, 2] < Shards"
proof -
  have "DefaultMap [2, 3] = Some \<lparr>shm_groups = map (\<lambda>i. [2, 3] ! (i mod length [2, 3 :: u64])) [0..<Shards], shm_moving = replicate Shards 0\<rparr>"
    by (simp add: DefaultMap_def)
  from shard_of_bound [OF this, of "[1, 2]"] show ?thesis by blast
qed

end
