(* ===== verification/Raft_Log.thy ===== *)
theory Raft_Log
  imports Prelude "HOL-Library.Monad_Syntax"
begin

text \<open>
  The data of the Raft package (\<open>src/raft/types.go\<close>) and its durable log: the interface
  \<open>LogStore\<close> (\<open>src/raft/logstore.go\<close>) as a locale, and \<open>MemStore\<close> (\<open>src/raft/memstore.go\<close>), which
  is also the specification the other stores are compared with. Terms, indexes and node ids are
  \<open>nat\<close>: they start at zero and only ever grow by one per entry or election, so they stay far
  below the 64 bits of the source.
\<close>

section \<open>Entries and messages\<close>

type_synonym NodeID = nat

definition NoNode :: NodeID where "NoNode = 0"

text \<open>The type of an entry is a byte in the source: the two constants, and any other value.\<close>

datatype EntryType = EntryNormal | EntryNoop | EntryOther u8

record Entry =
  en_index :: nat
  en_term :: nat
  en_type :: EntryType
  en_data :: bytes

datatype MsgType = MsgVote | MsgVoteResp | MsgApp | MsgAppResp | MsgSnap | MsgSnapResp

record Message =
  msg_type :: MsgType
  msg_from :: NodeID
  msg_to :: NodeID
  msg_term :: nat
  msg_index :: nat
  msg_logTerm :: nat
  msg_entries :: "Entry list"
  msg_commit :: nat
  msg_reject :: bool
  msg_conflictTerm :: nat
  msg_conflictIndex :: nat
  msg_readID :: nat
  msg_data :: bytes
  msg_offset :: nat
  msg_done :: bool

text \<open>A message literal \<open>Message{Type: t, To: p}\<close>: the fields not named are zero.\<close>

definition mkMsg :: "MsgType \<Rightarrow> NodeID \<Rightarrow> Message" where
  "mkMsg t to' =
     \<lparr>msg_type = t, msg_from = 0, msg_to = to', msg_term = 0, msg_index = 0, msg_logTerm = 0,
      msg_entries = [], msg_commit = 0, msg_reject = False, msg_conflictTerm = 0, msg_conflictIndex = 0,
      msg_readID = 0, msg_data = [], msg_offset = 0, msg_done = False\<rparr>"

section \<open>The in-memory store\<close>

datatype store_error = ErrCompacted | ErrAppendAt nat | ErrBeyondLast nat | ErrStoreIO | StorePanic

record MemStore =
  ms_term :: nat
  ms_vote :: NodeID
  ms_entries :: "Entry list"
  ms_snapIdx :: nat
  ms_snapTerm :: nat
  ms_snap :: bytes

definition NewMemStore :: MemStore where
  "NewMemStore = \<lparr>ms_term = 0, ms_vote = 0, ms_entries = [], ms_snapIdx = 0, ms_snapTerm = 0, ms_snap = []\<rparr>"

definition lastLocked :: "MemStore \<Rightarrow> nat" where
  "lastLocked s = ms_snapIdx s + length (ms_entries s)"

definition MemStore_Append :: "MemStore \<Rightarrow> Entry list \<Rightarrow> store_error + MemStore" where
  "MemStore_Append s es =
     (case es of
        [] \<Rightarrow> Inr s
      | e # _ \<Rightarrow>
          let first = en_index e; lst = lastLocked s
          in if first > lst + 1 \<or> first \<le> ms_snapIdx s then Inl (ErrAppendAt first)
             else Inr (s\<lparr>ms_entries := take (first - ms_snapIdx s - 1) (ms_entries s) @ es\<rparr>))"

text \<open>\<open>Entries(lo, hi)\<close>; with \<open>hi < lo\<close> the source panics in \<open>make\<close>, which is the error \<open>StorePanic\<close>.\<close>

definition MemStore_Entries :: "MemStore \<Rightarrow> nat \<Rightarrow> nat \<Rightarrow> store_error + Entry list" where
  "MemStore_Entries s lo hi =
     (if lo \<le> ms_snapIdx s then Inl ErrCompacted
      else if hi > lastLocked s + 1 then Inl (ErrBeyondLast hi)
      else if hi < lo then Inl StorePanic
      else Inr (take (hi - lo) (drop (lo - ms_snapIdx s - 1) (ms_entries s))))"

definition MemStore_Term :: "MemStore \<Rightarrow> nat \<Rightarrow> store_error + nat" where
  "MemStore_Term s i =
     (if i = ms_snapIdx s then Inr (ms_snapTerm s)
      else if i < ms_snapIdx s then Inl ErrCompacted
      else if i > lastLocked s then Inl (ErrBeyondLast i)
      else Inr (en_term (ms_entries s ! (i - ms_snapIdx s - 1))))"

definition MemStore_FirstIndex :: "MemStore \<Rightarrow> nat" where
  "MemStore_FirstIndex s = ms_snapIdx s + 1"

definition MemStore_LastIndex :: "MemStore \<Rightarrow> nat" where
  "MemStore_LastIndex s = lastLocked s"

definition MemStore_SetState :: "MemStore \<Rightarrow> nat \<Rightarrow> NodeID \<Rightarrow> MemStore" where
  "MemStore_SetState s term vote = s\<lparr>ms_term := term, ms_vote := vote\<rparr>"

definition MemStore_State :: "MemStore \<Rightarrow> nat \<times> NodeID" where
  "MemStore_State s = (ms_term s, ms_vote s)"

definition MemStore_Compact :: "MemStore \<Rightarrow> nat \<Rightarrow> nat \<Rightarrow> bytes \<Rightarrow> MemStore" where
  "MemStore_Compact s i term snap =
     (if i \<le> ms_snapIdx s then s
      else s\<lparr>ms_entries := (if i \<le> lastLocked s then drop (i - ms_snapIdx s) (ms_entries s) else []),
             ms_snapIdx := i, ms_snapTerm := term, ms_snap := snap\<rparr>)"

definition MemStore_Snapshot :: "MemStore \<Rightarrow> nat \<times> nat \<times> bytes" where
  "MemStore_Snapshot s = (ms_snapIdx s, ms_snapTerm s, ms_snap s)"

section \<open>Well-formed logs\<close>

text \<open>The indexes of the entries run on from the snapshot.\<close>

definition ms_wf :: "MemStore \<Rightarrow> bool" where
  "ms_wf s \<longleftrightarrow> (\<forall>i < length (ms_entries s). en_index (ms_entries s ! i) = ms_snapIdx s + 1 + i)"

definition contiguous :: "nat \<Rightarrow> Entry list \<Rightarrow> bool" where
  "contiguous first es \<longleftrightarrow> (\<forall>i < length es. en_index (es ! i) = first + i)"

named_theorems store "definitions of the store operations"

lemmas MemStore_defs [store] =
  MemStore_Append_def MemStore_Entries_def MemStore_Term_def MemStore_FirstIndex_def MemStore_LastIndex_def
  MemStore_SetState_def MemStore_State_def MemStore_Compact_def MemStore_Snapshot_def lastLocked_def

lemma ms_wf_new [simp]: "ms_wf NewMemStore"
  by (simp add: ms_wf_def NewMemStore_def)

lemma contiguous_hd: "contiguous first es \<Longrightarrow> es \<noteq> [] \<Longrightarrow> en_index (hd es) = first"
  by (auto simp: contiguous_def hd_conv_nth)

lemma contiguous_drop: "contiguous first es \<Longrightarrow> contiguous (first + n) (drop n es)"
  by (auto simp: contiguous_def)

lemma contiguous_take: "contiguous first es \<Longrightarrow> contiguous first (take n es)"
  by (auto simp: contiguous_def)

lemma contiguous_append: "contiguous first es \<Longrightarrow> contiguous (first + length es) fs \<Longrightarrow> contiguous first (es @ fs)"
  by (auto simp: contiguous_def nth_append)

lemma ms_wf_contiguous: "ms_wf s \<longleftrightarrow> contiguous (ms_snapIdx s + 1) (ms_entries s)"
  by (simp add: ms_wf_def contiguous_def)

lemma MemStore_Append_ok:
  assumes "ms_wf s" and "contiguous first es" and "ms_snapIdx s < first" and "first \<le> lastLocked s + 1"
  shows "\<exists>s'. MemStore_Append s es = Inr s' \<and> ms_wf s' \<and> ms_snapIdx s' = ms_snapIdx s
    \<and> ms_snapTerm s' = ms_snapTerm s \<and> ms_snap s' = ms_snap s \<and> ms_term s' = ms_term s \<and> ms_vote s' = ms_vote s
    \<and> (if es = [] then s' = s
       else ms_entries s' = take (first - ms_snapIdx s - 1) (ms_entries s) @ es \<and> lastLocked s' = first + length es - 1)"
proof (cases es)
  case Nil
  then show ?thesis using assms by (simp add: MemStore_Append_def)
next
  case (Cons e fs)
  have e: "en_index e = first" using contiguous_hd [OF assms(2)] Cons by simp
  let ?t = "take (first - ms_snapIdx s - 1) (ms_entries s)"
  have len: "length ?t = first - ms_snapIdx s - 1" using assms(3,4) by (simp add: lastLocked_def)
  have "contiguous (ms_snapIdx s + 1) (?t @ es)"
    using assms(1,2,3) len by (intro contiguous_append contiguous_take) (simp_all add: ms_wf_contiguous)
  then show ?thesis
    using assms(3,4) e len Cons by (simp add: MemStore_Append_def lastLocked_def ms_wf_contiguous)
qed

lemma MemStore_Compact_wf: "ms_wf s \<Longrightarrow> ms_wf (MemStore_Compact s i t d)"
  using contiguous_drop [of "ms_snapIdx s + 1" "ms_entries s" "i - ms_snapIdx s"]
  by (auto simp: MemStore_Compact_def ms_wf_contiguous contiguous_def split: if_splits)

lemma MemStore_Term_total:
  "ms_snapIdx s \<le> i \<Longrightarrow> i \<le> lastLocked s \<Longrightarrow> \<exists>t. MemStore_Term s i = Inr t"
  by (auto simp: MemStore_Term_def)

section \<open>The store interface\<close>

text \<open>
  \<open>LogStore\<close>: every operation of an implementation answers like \<open>MemStore\<close> on the state it
  represents. An implementation may refuse a write with an I/O error, after which it promises
  nothing; the laws are about the writes that succeed.
\<close>

locale log_store =
  fixes app :: "'s \<Rightarrow> Entry list \<Rightarrow> store_error + 's"
    and ents :: "'s \<Rightarrow> nat \<Rightarrow> nat \<Rightarrow> store_error + Entry list"
    and term_at :: "'s \<Rightarrow> nat \<Rightarrow> store_error + nat"
    and first_ix last_ix :: "'s \<Rightarrow> nat"
    and set_state :: "'s \<Rightarrow> nat \<Rightarrow> NodeID \<Rightarrow> store_error + 's"
    and get_state :: "'s \<Rightarrow> nat \<times> NodeID"
    and compact :: "'s \<Rightarrow> nat \<Rightarrow> nat \<Rightarrow> bytes \<Rightarrow> store_error + 's"
    and get_snap :: "'s \<Rightarrow> nat \<times> nat \<times> bytes"
    and abs :: "'s \<Rightarrow> MemStore" and ok :: "'s \<Rightarrow> bool"
  assumes app: "ok s \<Longrightarrow> app s es = Inr s' \<Longrightarrow> ok s' \<and> MemStore_Append (abs s) es = Inr (abs s')"
    and ents: "ok s \<Longrightarrow> ents s lo hi = MemStore_Entries (abs s) lo hi"
    and term_at: "ok s \<Longrightarrow> term_at s i = MemStore_Term (abs s) i"
    and first_ix: "ok s \<Longrightarrow> first_ix s = MemStore_FirstIndex (abs s)"
    and last_ix: "ok s \<Longrightarrow> last_ix s = MemStore_LastIndex (abs s)"
    and set_state: "ok s \<Longrightarrow> set_state s t v = Inr s' \<Longrightarrow> ok s' \<and> abs s' = MemStore_SetState (abs s) t v"
    and get_state: "ok s \<Longrightarrow> get_state s = MemStore_State (abs s)"
    and compact: "ok s \<Longrightarrow> compact s i t d = Inr s' \<Longrightarrow> ok s' \<and> abs s' = MemStore_Compact (abs s) i t d"
    and get_snap: "ok s \<Longrightarrow> get_snap s = MemStore_Snapshot (abs s)"
begin

text \<open>What the comment on \<open>Compact\<close> promises of any store.\<close>

lemma compact_boundary:
  assumes "ok s" and "compact s i t d = Inr s'" and "first_ix s \<le> i"
  shows "first_ix s' = i + 1 \<and> term_at s' i = Inr t \<and> get_snap s' = (i, t, d)"
  using compact [OF assms(1,2)] assms(1,3)
  by (simp add: first_ix term_at get_snap MemStore_FirstIndex_def MemStore_Compact_def MemStore_Term_def MemStore_Snapshot_def)

text \<open>What is appended is read back.\<close>

lemma append_read_back:
  assumes s: "ok s" and a: "app s es = Inr s'" and es: "es = e # fs"
  shows "ents s' (en_index e) (en_index e + length es) = Inr es"
proof -
  have ok': "ok s'" and m: "MemStore_Append (abs s) es = Inr (abs s')" using app [OF s a] by simp_all
  have b: "\<not> en_index e > lastLocked (abs s) + 1" "\<not> en_index e \<le> ms_snapIdx (abs s)"
    and e: "abs s' = (abs s)\<lparr>ms_entries := take (en_index e - ms_snapIdx (abs s) - 1) (ms_entries (abs s)) @ es\<rparr>"
    using m es by (auto simp: MemStore_Append_def Let_def split: if_splits)
  have "length (take (en_index e - ms_snapIdx (abs s) - 1) (ms_entries (abs s))) = en_index e - ms_snapIdx (abs s) - 1"
    using b by (simp add: lastLocked_def)
  then show ?thesis
    using b unfolding ents [OF ok'] e by (simp add: MemStore_Entries_def lastLocked_def)
qed

end

interpretation mem: log_store MemStore_Append MemStore_Entries MemStore_Term MemStore_FirstIndex MemStore_LastIndex
  "\<lambda>s t v. Inr (MemStore_SetState s t v)" MemStore_State "\<lambda>s i t d. Inr (MemStore_Compact s i t d)" MemStore_Snapshot
  "\<lambda>s. s" "\<lambda>_. True"
  by unfold_locales auto

section \<open>Properties\<close>

text \<open>
  C28: compaction at an index of the log keeps what the interface promises: the log starts after
  the index, the term at the index still answers, the snapshot is the one given, and every entry
  after the index stays where it was.
\<close>

theorem memstore_compact_keeps_suffix:
  assumes "MemStore_FirstIndex s \<le> i" and "i < j" and "j \<le> lastLocked s"
  shows "MemStore_FirstIndex (MemStore_Compact s i t d) = i + 1
    \<and> MemStore_Term (MemStore_Compact s i t d) i = Inr t
    \<and> MemStore_Snapshot (MemStore_Compact s i t d) = (i, t, d)
    \<and> MemStore_LastIndex (MemStore_Compact s i t d) = MemStore_LastIndex s
    \<and> MemStore_Entries (MemStore_Compact s i t d) j (j + 1) = MemStore_Entries s j (j + 1)"
proof -
  have c: "MemStore_Compact s i t d
      = s\<lparr>ms_entries := drop (i - ms_snapIdx s) (ms_entries s), ms_snapIdx := i, ms_snapTerm := t, ms_snap := d\<rparr>"
    using assms by (simp add: MemStore_Compact_def MemStore_FirstIndex_def)
  have "j - i - 1 + (i - ms_snapIdx s) = j - ms_snapIdx s - 1"
    using assms by (simp add: MemStore_FirstIndex_def)
  then show ?thesis
    using assms unfolding c
    by (simp add: MemStore_FirstIndex_def MemStore_Term_def MemStore_LastIndex_def MemStore_Entries_def MemStore_Snapshot_def lastLocked_def add.commute)
qed

theorem memstore_compact_keeps_suffix_witness:
  "let s = NewMemStore\<lparr>ms_entries := [\<lparr>en_index = 1, en_term = 1, en_type = EntryNoop, en_data = []\<rparr>,
             \<lparr>en_index = 2, en_term = 1, en_type = EntryNormal, en_data = [7]\<rparr>]\<rparr>
   in MemStore_FirstIndex (MemStore_Compact s 1 1 [9]) = 1 + 1
    \<and> MemStore_Term (MemStore_Compact s 1 1 [9]) 1 = Inr 1
    \<and> MemStore_Snapshot (MemStore_Compact s 1 1 [9]) = (1, 1, [9])
    \<and> MemStore_LastIndex (MemStore_Compact s 1 1 [9]) = MemStore_LastIndex s
    \<and> MemStore_Entries (MemStore_Compact s 1 1 [9]) 2 (2 + 1) = MemStore_Entries s 2 (2 + 1)"
  unfolding Let_def
  by (rule memstore_compact_keeps_suffix) (simp_all add: NewMemStore_def MemStore_FirstIndex_def lastLocked_def)

end
