(* ===== verification/Internal_Key.thy ===== *)
theory Internal_Key
  imports Prelude
begin

unbundle bit_operations_syntax

text \<open>
  Internal keys (\<open>src/storage/key.go\<close>): the user key followed by an 8-byte big-endian trailer
  \<open>sequence << 8 | kind\<close>, ordered by user key ascending and trailer descending, so that the
  newest version of a key sorts first. The locale \<open>comparator\<close> is the interface the ordered
  containers of the engine rely on; it is interpreted on the internal-key comparator and on
  \<open>bytes.Compare\<close>.
\<close>

section \<open>Model\<close>

type_synonym keyKind = u8

definition kindDelete :: keyKind where "kindDelete = 0"
definition kindPut :: keyKind where "kindPut = 1"

definition trailerSize :: nat where "trailerSize = 8"

definition trailer_word :: "u64 \<Rightarrow> keyKind \<Rightarrow> u64" where
  "trailer_word seq kind = push_bit 8 seq OR ucast kind"

definition makeInternalKey :: "bytes \<Rightarrow> u64 \<Rightarrow> keyKind \<Rightarrow> bytes" where
  "makeInternalKey user seq kind = user @ put_be64 (trailer_word seq kind)"

definition userKey :: "bytes \<Rightarrow> bytes" where
  "userKey ik = take (length ik - trailerSize) ik"

definition key_trailer :: "bytes \<Rightarrow> u64" where
  "key_trailer ik = get_be64 (drop (length ik - trailerSize) ik)"

definition splitInternalKey :: "bytes \<Rightarrow> bytes \<times> u64 \<times> keyKind" where
  "splitInternalKey ik =
     (let t = key_trailer ik
      in (take (length ik - trailerSize) ik, drop_bit 8 t, ucast (t AND 0xff)))"

definition compareInternalKey :: "bytes \<Rightarrow> bytes \<Rightarrow> int" where
  "compareInternalKey a b =
     (let c = bytes_compare (userKey a) (userKey b)
      in if c \<noteq> 0 then c
         else let ta = key_trailer a; tb = key_trailer b
              in if ta > tb then - 1 else if ta < tb then 1 else 0)"

text \<open>
  The source slices \<open>ik[:len(ik)-8]\<close> and panics on a shorter key. Every key the engine holds
  is built by \<open>makeInternalKey\<close>; \<open>wf_ikey\<close> names the keys on which no panic is possible.
\<close>

definition wf_ikey :: "bytes \<Rightarrow> bool" where
  "wf_ikey ik \<longleftrightarrow> trailerSize \<le> length ik"

definition key_seq :: "bytes \<Rightarrow> u64" where
  "key_seq ik = fst (snd (splitInternalKey ik))"

definition key_kind :: "bytes \<Rightarrow> keyKind" where
  "key_kind ik = snd (snd (splitInternalKey ik))"

section \<open>Round trip\<close>

lemma wf_makeInternalKey [simp]: "wf_ikey (makeInternalKey u s k)"
  by (simp add: wf_ikey_def makeInternalKey_def trailerSize_def)

lemma userKey_make [simp, codec]: "userKey (makeInternalKey u s k) = u"
  by (simp add: userKey_def makeInternalKey_def trailerSize_def)

lemma key_trailer_make [simp, codec]: "key_trailer (makeInternalKey u s k) = trailer_word s k"
  using get_be64_put [of "trailer_word s k" "[]"]
  by (simp add: key_trailer_def makeInternalKey_def trailerSize_def)

lemma unat_trailer_word:
  assumes "unat s < 2 ^ 56"
  shows "unat (trailer_word s k) = 256 * unat s + unat k"
proof -
  have sh: "push_bit 8 s = s * 256" by (simp add: push_bit_eq_mult)
  have disj: "\<not> bit (push_bit 8 s) n \<or> \<not> bit (ucast k :: u64) n" for n
    by (auto simp: bit_push_bit_iff bit_ucast_iff dest: bit_imp_le_length)
  have "trailer_word s k = push_bit 8 s + ucast k"
    unfolding trailer_word_def by (rule disjunctive_add_eq_or [symmetric]) (use disj in \<open>auto simp: bit_eq_iff bit_and_iff\<close>)
  moreover have "unat (s * 256) = unat s * 256"
    using assms by (simp add: unat_word_ariths)
  moreover have k: "unat k < 256" using unsigned_less [of k] by simp
  moreover have "unat (ucast k :: u64) = unat k"
    using k by (simp add: unsigned_ucast_eq take_bit_nat_eq_self_iff)
  ultimately show ?thesis
    using assms sh by (simp add: unat_word_ariths)
qed

lemma drop_trailer_word:
  assumes "unat s < 2 ^ 56"
  shows "drop_bit 8 (trailer_word s k) = s"
proof -
  have "unat k < 256" using unsigned_less [of k] by simp
  then show ?thesis
    using assms by (simp add: word_unat_eq_iff unat_drop_bit_eq unat_trailer_word drop_bit_eq_div unat_div_distrib)
qed

lemma kind_trailer_word:
  assumes "unat s < 2 ^ 56"
  shows "ucast (trailer_word s k AND 0xff) = k"
proof -
  have "(0xff :: u64) = mask 8" by (simp add: mask_eq_exp_minus_1)
  then have "trailer_word s k AND 0xff = take_bit 8 (trailer_word s k)"
    by (simp add: take_bit_eq_mask)
  moreover have "unat k < 256" using unsigned_less [of k] by simp
  ultimately show ?thesis
    using assms by (simp add: word_unat_eq_iff unsigned_ucast_eq unsigned_take_bit_eq
        unat_trailer_word take_bit_eq_mod unat_mod_distrib)
qed

lemma splitInternalKey_make [simp, codec]:
  assumes "unat s < 2 ^ 56"
  shows "splitInternalKey (makeInternalKey u s k) = (u, s, k)"
  using assms userKey_make [of u s k]
  by (simp add: splitInternalKey_def drop_trailer_word kind_trailer_word userKey_def Let_def)

lemma fst_splitInternalKey [simp]: "fst (splitInternalKey ik) = userKey ik"
  by (simp add: splitInternalKey_def userKey_def Let_def)

lemma splitInternalKey_conv: "splitInternalKey ik = (userKey ik, key_seq ik, key_kind ik)"
  by (simp add: key_seq_def key_kind_def flip: fst_splitInternalKey)

lemma userKey_trailer_append: "wf_ikey a \<Longrightarrow> a = userKey a @ put_be64 (key_trailer a)"
proof -
  assume a: "wf_ikey a"
  then have "length (drop (length a - trailerSize) a) = 8"
    by (simp add: wf_ikey_def trailerSize_def)
  then have "put_be64 (key_trailer a) = drop (length a - trailerSize) a"
    by (simp add: key_trailer_def put_be64_get)
  then show ?thesis by (simp add: userKey_def)
qed

lemma ikey_eqI: "wf_ikey a \<Longrightarrow> wf_ikey b \<Longrightarrow> userKey a = userKey b \<Longrightarrow> key_trailer a = key_trailer b \<Longrightarrow> a = b"
  by (metis userKey_trailer_append)

section \<open>The comparator interface\<close>

text \<open>
  What the skip list, the merge heap, blocks and tables rely on: a three-way comparison that
  is a total order on the well-formed keys.
\<close>

locale comparator =
  fixes cmp :: "'k \<Rightarrow> 'k \<Rightarrow> int" and wf :: "'k \<Rightarrow> bool"
  assumes cmp_eq: "wf a \<Longrightarrow> wf b \<Longrightarrow> cmp a b = 0 \<longleftrightarrow> a = b"
    and cmp_sym: "cmp b a = - cmp a b"
    and cmp_trans: "cmp a b < 0 \<Longrightarrow> cmp b c < 0 \<Longrightarrow> cmp a c < 0"
begin

lemma cmp_refl: "cmp a a = 0"
  using cmp_sym [of a a] by simp

lemma cmp_less_irrefl: "\<not> cmp a a < 0"
  by (simp add: cmp_refl)

lemma cmp_asym: "cmp a b < 0 \<Longrightarrow> \<not> cmp b a < 0"
  by (simp add: cmp_sym [of b a])

lemma cmp_total: "wf a \<Longrightarrow> wf b \<Longrightarrow> cmp a b < 0 \<or> a = b \<or> cmp b a < 0"
  using cmp_eq [of a b] by (auto simp: cmp_sym [of b a])

lemma cmp_ge_trans: "wf b \<Longrightarrow> wf c \<Longrightarrow> cmp a b < 0 \<Longrightarrow> cmp c b \<ge> 0 \<Longrightarrow> cmp a c < 0"
  by (metis cmp_total cmp_trans not_less)

end

lemma compareInternalKey_sym: "compareInternalKey b a = - compareInternalKey a b"
  by (auto simp: compareInternalKey_def Let_def bytes_compare_sym [of "userKey b"])

lemma compareInternalKey_less:
  "compareInternalKey a b < 0 \<longleftrightarrow>
     bytes_compare (userKey a) (userKey b) < 0
     \<or> userKey a = userKey b \<and> key_trailer a > key_trailer b"
  by (auto simp: compareInternalKey_def Let_def)

interpretation ik: comparator compareInternalKey wf_ikey
proof
  fix a b c :: bytes
  show "wf_ikey a \<Longrightarrow> wf_ikey b \<Longrightarrow> compareInternalKey a b = 0 \<longleftrightarrow> a = b"
    by (auto simp: compareInternalKey_def Let_def intro: ikey_eqI split: if_splits)
  show "compareInternalKey b a = - compareInternalKey a b"
    by (rule compareInternalKey_sym)
  show "compareInternalKey a b < 0 \<Longrightarrow> compareInternalKey b c < 0 \<Longrightarrow> compareInternalKey a c < 0"
    by (auto simp: compareInternalKey_less dest: bytes_compare_trans)
qed

interpretation bc: comparator bytes_compare "\<lambda>_. True"
  by unfold_locales (auto intro: bytes_compare_sym bytes_compare_trans)

section \<open>Properties\<close>

text \<open>
  C16: splitting an internal key gives back the user key, the sequence number and the kind it
  was made from, for every sequence number the 56 bits of the trailer can hold.
\<close>

theorem split_make_roundtrip:
  assumes "unat seq < 2 ^ 56"
  shows "splitInternalKey (makeInternalKey user seq kind) = (user, seq, kind)"
  using assms by (rule splitInternalKey_make)

theorem split_make_roundtrip_witness:
  "unat (7 :: u64) < 2 ^ 56 \<and>
   splitInternalKey (makeInternalKey [0x6b, 0x31] 7 kindPut) = ([0x6b, 0x31], 7, kindPut)"
  using split_make_roundtrip [of 7 "[0x6b, 0x31]" kindPut] by simp

text \<open>
  C17: the comparator orders versions of different user keys by \<open>bytes.Compare\<close> and versions
  of one user key newest first.
\<close>

theorem compare_orders_newest_first:
  assumes "unat s < 2 ^ 56" and "unat t < 2 ^ 56"
  shows "compareInternalKey (makeInternalKey u s k) (makeInternalKey v t l) < 0 \<longleftrightarrow>
    bytes_compare u v < 0 \<or> u = v \<and> (s > t \<or> s = t \<and> k > l)"
proof -
  have kl: "unat k < 256" "unat l < 256" using unsigned_less [of k] unsigned_less [of l] by simp_all
  have "trailer_word t l < trailer_word s k \<longleftrightarrow> 256 * unat t + unat l < 256 * unat s + unat k"
    using assms by (simp add: word_less_nat_alt unat_trailer_word)
  also have "\<dots> \<longleftrightarrow> unat t < unat s \<or> unat t = unat s \<and> unat l < unat k"
    using kl by linarith
  also have "\<dots> \<longleftrightarrow> s > t \<or> s = t \<and> k > l"
    by (auto simp: word_less_nat_alt word_unat_eq_iff)
  finally show ?thesis by (simp add: compareInternalKey_less)
qed

theorem compare_orders_newest_first_witness:
  "unat (9 :: u64) < 2 ^ 56 \<and> unat (4 :: u64) < 2 ^ 56 \<and>
   compareInternalKey (makeInternalKey [0x61] 9 kindPut) (makeInternalKey [0x61] 4 kindPut) < 0"
  using compare_orders_newest_first [of 9 4 "[0x61]" kindPut "[0x61]" kindPut] by simp

end
