(* ===== verification/Iter.thy ===== *)
theory Iter
  imports Internal_Key
begin

text \<open>
  The iterator interface of the engine (\<open>src/storage/iter.go\<close>). A Go interface value is a
  table of methods: the record \<open>internalIter\<close> holds the methods over a state type, and the
  locale \<open>internal_iter\<close> states what its comment promises. The abstraction of an iterator is
  the list of entries it ranges over and the list of entries from its position on. The theory
  also holds the list functions the specifications of the ordered containers use: insertion,
  seeking, stable sorting and the newest visible version of a key.
\<close>

section \<open>Entries in internal-key order\<close>

type_synonym entry = "bytes \<times> bytes"

definition entry_before :: "entry \<Rightarrow> bytes \<Rightarrow> bool" where
  "entry_before e k \<longleftrightarrow> compareInternalKey (fst e) k < 0"

definition wf_entry :: "entry \<Rightarrow> bool" where
  "wf_entry e \<longleftrightarrow> wf_ikey (fst e)"

definition sorted_entries :: "entry list \<Rightarrow> bool" where
  "sorted_entries es \<longleftrightarrow> sorted_wrt (\<lambda>a b. \<not> entry_before b (fst a)) es"

definition seek_entries :: "bytes \<Rightarrow> entry list \<Rightarrow> entry list" where
  "seek_entries k es = dropWhile (\<lambda>e. entry_before e k) es"

fun insert_entry :: "entry \<Rightarrow> entry list \<Rightarrow> entry list" where
  "insert_entry e [] = [e]"
| "insert_entry e (x # xs) = (if entry_before x (fst e) then x # insert_entry e xs else e # x # xs)"

definition sort_entries :: "entry list \<Rightarrow> entry list" where
  "sort_entries es = foldr insert_entry es []"

text \<open>The newest version of a user key that a reader at sequence number \<open>seq\<close> may see.\<close>

definition is_version :: "bytes \<Rightarrow> u64 \<Rightarrow> entry \<Rightarrow> bool" where
  "is_version user seq e \<longleftrightarrow> userKey (fst e) = user \<and> key_seq (fst e) \<le> seq"

definition newest_version :: "bytes \<Rightarrow> u64 \<Rightarrow> entry list \<Rightarrow> entry option" where
  "newest_version user seq es = find (is_version user seq) es"

text \<open>What a lookup answers with that version: its value, whether a version was found, whether it is a tombstone.\<close>

definition version_result :: "entry option \<Rightarrow> bytes \<times> bool \<times> bool" where
  "version_result v =
     (case v of None \<Rightarrow> ([], False, False)
      | Some e \<Rightarrow> if key_kind (fst e) = kindDelete then ([], True, True) else (snd e, True, False))"

text \<open>Keys the engine writes: a sequence number of at most 56 bits and one of the two kinds.\<close>

definition engine_key :: "bytes \<Rightarrow> bool" where
  "engine_key ik \<longleftrightarrow> wf_ikey ik \<and> (key_kind ik = kindDelete \<or> key_kind ik = kindPut)"

section \<open>Facts on entry lists\<close>

lemma entry_before_trans:
  "wf_entry a \<Longrightarrow> wf_entry b \<Longrightarrow> wf_ikey k \<Longrightarrow> entry_before b k \<Longrightarrow> \<not> entry_before b (fst a) \<Longrightarrow> entry_before a k"
  unfolding entry_before_def wf_entry_def
  by (metis ik.cmp_total ik.cmp_trans)

lemma insert_entry_split:
  "insert_entry e es = takeWhile (\<lambda>x. entry_before x (fst e)) es @ e # seek_entries (fst e) es"
  by (induction es) (auto simp: seek_entries_def)

lemma set_insert_entry [simp]: "set (insert_entry e es) = insert e (set es)"
  by (induction es) auto

lemma length_insert_entry [simp]: "length (insert_entry e es) = Suc (length es)"
  by (induction es) auto

lemma sorted_insert_entry:
  assumes "sorted_entries es" and "\<forall>x \<in> set (e # es). wf_entry x"
  shows "sorted_entries (insert_entry e es)"
  using assms
proof (induction es)
  case (Cons x xs)
  show ?case
  proof (cases "entry_before x (fst e)")
    case True
    then have "\<not> entry_before e (fst x)" using ik.cmp_asym by (simp add: entry_before_def)
    then show ?thesis using Cons True by (auto simp: sorted_entries_def)
  next
    case False
    have "\<not> entry_before y (fst e)" if "y \<in> set xs" for y
    proof
      assume "entry_before y (fst e)"
      moreover have "\<not> entry_before y (fst x)" using that Cons.prems by (auto simp: sorted_entries_def)
      ultimately show False
        using entry_before_trans [of x y "fst e"] False that Cons.prems by (auto simp: wf_entry_def)
    qed
    then show ?thesis using Cons.prems False by (auto simp: sorted_entries_def)
  qed
qed (simp add: sorted_entries_def)

lemma sort_entries_simps [simp]:
  "sort_entries [] = []" "sort_entries (e # es) = insert_entry e (sort_entries es)"
  by (simp_all add: sort_entries_def)

lemma set_sort_entries [simp]: "set (sort_entries es) = set es"
  by (induction es) auto

lemma length_sort_entries [simp]: "length (sort_entries es) = length es"
  by (induction es) auto

lemma sorted_sort_entries: "\<forall>x \<in> set es. wf_entry x \<Longrightarrow> sorted_entries (sort_entries es)"
proof (induction es)
  case (Cons e es)
  then have "\<forall>x \<in> set (e # sort_entries es). wf_entry x" by simp
  with Cons show ?case using sorted_insert_entry [of "sort_entries es" e] by simp
qed (simp add: sorted_entries_def)

lemma sorted_seek_entries: "sorted_entries es \<Longrightarrow> sorted_entries (seek_entries k es)"
  unfolding sorted_entries_def seek_entries_def
  by (metis sorted_wrt_append takeWhile_dropWhile_id)

text \<open>On a sorted list, seeking drops exactly the entries before the target.\<close>

lemma seek_entries_all_ge:
  assumes "sorted_entries es" and "\<forall>x \<in> set es. wf_entry x" and "wf_ikey k" and "e \<in> set (seek_entries k es)"
  shows "\<not> entry_before e k"
  using assms
proof (induction es)
  case (Cons x xs)
  show ?case
  proof (cases "entry_before x k")
    case True
    then show ?thesis using Cons by (auto simp: seek_entries_def sorted_entries_def)
  next
    case False
    then have "e = x \<or> e \<in> set xs" using Cons.prems by (auto simp: seek_entries_def)
    then show ?thesis
      using False Cons.prems entry_before_trans [of x e k] by (auto simp: sorted_entries_def)
  qed
qed (simp add: seek_entries_def)

lemma seek_entries_filter:
  assumes "sorted_entries es" and "\<forall>x \<in> set es. wf_entry x" and "wf_ikey k"
  shows "seek_entries k es = filter (\<lambda>e. \<not> entry_before e k) es"
proof -
  have "es = takeWhile (\<lambda>e. entry_before e k) es @ seek_entries k es"
    by (simp add: seek_entries_def)
  moreover have "filter (\<lambda>e. \<not> entry_before e k) (takeWhile (\<lambda>e. entry_before e k) es) = []"
    by (auto simp: filter_empty_conv dest: set_takeWhileD)
  moreover have "filter (\<lambda>e. \<not> entry_before e k) (seek_entries k es) = seek_entries k es"
    using seek_entries_all_ge [OF assms] by (simp add: filter_id_conv)
  ultimately show ?thesis by (metis append_Nil filter_append)
qed

text \<open>Stable sorting: an element no later element precedes and every earlier one follows comes first.\<close>

lemma insert_entry_min: "(\<And>y. y \<in> set ys \<Longrightarrow> \<not> entry_before y (fst e)) \<Longrightarrow> insert_entry e ys = e # ys"
  by (cases ys) auto

lemma sort_entries_min:
  assumes "\<And>x. x \<in> set xs \<Longrightarrow> entry_before e (fst x)"
    and "\<And>y. y \<in> set ys \<Longrightarrow> \<not> entry_before y (fst e)"
  shows "sort_entries (xs @ e # ys) = e # sort_entries (xs @ ys)"
  using assms
proof (induction xs)
  case Nil
  then show ?case using insert_entry_min [of "sort_entries ys" e] by simp
qed simp

lemma sort_entries_sorted: "sorted_entries es \<Longrightarrow> sort_entries es = es"
proof (induction es)
  case (Cons e es)
  have "insert_entry e es = e # es" using Cons.prems by (intro insert_entry_min) (auto simp: sorted_entries_def)
  then show ?case using Cons by (simp add: sorted_entries_def)
qed simp

lemma filter_insert_entry:
  assumes "\<forall>x \<in> set (e # es). wf_entry x" and "wf_ikey k" and "sorted_entries es"
  shows "filter (\<lambda>x. \<not> entry_before x k) (insert_entry e es)
    = (if entry_before e k then filter (\<lambda>x. \<not> entry_before x k) es
       else insert_entry e (filter (\<lambda>x. \<not> entry_before x k) es))"
  using assms
proof (induction es)
  case (Cons x xs)
  have s: "sorted_entries xs" using Cons.prems by (simp add: sorted_entries_def)
  have step: "entry_before x (fst e) \<Longrightarrow> entry_before e k \<Longrightarrow> entry_before x k"
    using Cons.prems ik.cmp_trans unfolding entry_before_def by blast
  have keep: "\<not> entry_before e k \<Longrightarrow> \<not> entry_before x (fst e) \<Longrightarrow> \<not> entry_before x k"
    using entry_before_trans [of e x k] Cons.prems by auto
  have rest: "insert_entry e ys = e # ys" if "\<not> entry_before x (fst e)" "set ys \<subseteq> set xs" for ys
  proof (rule insert_entry_min)
    fix y assume "y \<in> set ys"
    then have "y \<in> set xs" using that by auto
    then show "\<not> entry_before y (fst e)"
      using that(1) entry_before_trans [of x y "fst e"] Cons.prems by (auto simp: sorted_entries_def wf_entry_def)
  qed
  show ?case
    using Cons.IH Cons.prems s step keep rest [of "filter (\<lambda>x. \<not> entry_before x k) xs"] by auto
qed simp

lemma filter_sort_entries:
  assumes "\<forall>x \<in> set es. wf_entry x" and "wf_ikey k"
  shows "filter (\<lambda>x. \<not> entry_before x k) (sort_entries es) = sort_entries (filter (\<lambda>x. \<not> entry_before x k) es)"
  using assms
proof (induction es)
  case (Cons e es)
  have "sorted_entries (sort_entries es)" using Cons.prems by (auto intro: sorted_sort_entries)
  then show ?case
    using Cons filter_insert_entry [of e "sort_entries es" k] by simp
qed simp

section \<open>The newest visible version\<close>

lemma unat_key_trailer: "unat (key_trailer ik) = 256 * unat (key_seq ik) + unat (key_kind ik)"
proof -
  have "(0xff :: u64) = mask 8" by (simp add: mask_eq_exp_minus_1)
  then have m: "key_trailer ik AND 0xff = take_bit 8 (key_trailer ik)" by (simp add: take_bit_eq_mask)
  have "unat (key_kind ik) = unat (key_trailer ik) mod 256"
    by (simp add: key_kind_def splitInternalKey_def Let_def m unsigned_ucast_eq unsigned_take_bit_eq take_bit_eq_mod unat_mod_distrib)
  moreover have "unat (key_seq ik) = unat (key_trailer ik) div 256"
    by (simp add: key_seq_def splitInternalKey_def Let_def unat_drop_bit_eq drop_bit_eq_div unat_div_distrib)
  ultimately show ?thesis by simp
qed

lemma not_before_version:
  assumes "engine_key (fst e)" and "unat seq < 2 ^ 56"
  shows "\<not> entry_before e (makeInternalKey user seq kindPut) \<longleftrightarrow>
    bytes_compare user (userKey (fst e)) < 0 \<or> is_version user seq e"
proof -
  have k: "unat (key_kind (fst e)) \<le> 1" using assms by (auto simp: engine_key_def kindPut_def kindDelete_def)
  have "key_trailer (fst e) \<le> trailer_word seq kindPut \<longleftrightarrow>
      256 * unat (key_seq (fst e)) + unat (key_kind (fst e)) \<le> 256 * unat seq + 1"
    using assms by (simp add: word_le_nat_alt unat_key_trailer unat_trailer_word kindPut_def)
  also have "\<dots> \<longleftrightarrow> key_seq (fst e) \<le> seq"
    using k by (simp add: word_le_nat_alt) linarith
  finally have t: "trailer_word seq kindPut < key_trailer (fst e) \<longleftrightarrow> \<not> key_seq (fst e) \<le> seq"
    by (simp add: not_le [symmetric])
  show ?thesis
    using bc.cmp_total [of user "userKey (fst e)"] bc.cmp_asym [of user "userKey (fst e)"]
      bc.cmp_refl [of user]
    by (auto simp: entry_before_def compareInternalKey_less t is_version_def)
qed

lemma find_filter: "(\<And>x. x \<in> set xs \<Longrightarrow> P x \<Longrightarrow> Q x) \<Longrightarrow> find P xs = find P (filter Q xs)"
  by (induction xs) auto

lemma find_split: "find P xs = Some x \<Longrightarrow> \<exists>ys zs. xs = ys @ x # zs \<and> P x \<and> (\<forall>y \<in> set ys. \<not> P y)"
proof (induction xs)
  case (Cons a xs)
  show ?case
  proof (cases "P a")
    case True
    then show ?thesis using Cons.prems by (intro exI [of _ "[]"] exI [of _ xs]) simp
  next
    case False
    then obtain ys zs where "xs = ys @ x # zs \<and> P x \<and> (\<forall>y \<in> set ys. \<not> P y)" using Cons by auto
    then show ?thesis using False by (intro exI [of _ "a # ys"] exI [of _ zs]) auto
  qed
qed simp

text \<open>
  A seek to \<open>(key, seq, kindPut)\<close> lands on the newest version of the key at or below \<open>seq\<close>, or
  past every version of the key: the step that \<open>memtable.get\<close> and \<open>table.get\<close> share.
\<close>

lemma seek_newest_version:
  assumes s: "sorted_entries es" and e: "\<forall>x \<in> set es. engine_key (fst x)" and q: "unat seq < 2 ^ 56"
  shows "newest_version user seq es =
    (case seek_entries (makeInternalKey user seq kindPut) es of [] \<Rightarrow> None
     | x # _ \<Rightarrow> if userKey (fst x) = user then Some x else None)"
proof -
  let ?k = "makeInternalKey user seq kindPut"
  have wf: "\<forall>x \<in> set es. wf_entry x" using e by (auto simp: engine_key_def wf_entry_def)
  have sk: "seek_entries ?k es = filter (\<lambda>x. \<not> entry_before x ?k) es"
    using s wf by (rule seek_entries_filter) simp
  have "find (is_version user seq) es = find (is_version user seq) (seek_entries ?k es)"
    unfolding sk using e q by (intro find_filter) (simp add: not_before_version)
  then have f: "newest_version user seq es = find (is_version user seq) (seek_entries ?k es)"
    by (simp add: newest_version_def)
  show ?thesis
  proof (cases "seek_entries ?k es")
    case Nil
    then show ?thesis by (simp add: f)
  next
    case (Cons x xs)
    have sub: "y \<in> set es \<and> \<not> entry_before y ?k" if "y \<in> set (x # xs)" for y
    proof -
      have "y \<in> set (filter (\<lambda>x. \<not> entry_before x ?k) es)" using that Cons unfolding sk by simp
      then show ?thesis by simp
    qed
    have ge: "bytes_compare user (userKey (fst y)) < 0 \<or> is_version user seq y" if "y \<in> set (x # xs)" for y
      using not_before_version [of y seq user] sub [OF that] e q by auto
    show ?thesis
    proof (cases "userKey (fst x) = user")
      case True
      then have "is_version user seq x" using ge [of x] by (auto simp: bc.cmp_refl)
      then show ?thesis using True by (simp add: f Cons)
    next
      case False
      then have lt: "bytes_compare user (userKey (fst x)) < 0" using ge [of x] by (auto simp: is_version_def)
      have "\<not> is_version user seq y" if "y \<in> set (x # xs)" for y
      proof
        assume v: "is_version user seq y"
        have "sorted_entries (x # xs)" using sorted_seek_entries [OF s, of ?k] Cons by simp
        moreover have "y \<in> set xs" using v False that by (auto simp: is_version_def)
        ultimately have "\<not> entry_before y (fst x)" by (auto simp: sorted_entries_def)
        moreover have "entry_before y (fst x)" using v lt by (simp add: entry_before_def compareInternalKey_less is_version_def)
        ultimately show False by simp
      qed
      then show ?thesis using False by (simp add: f Cons find_None_iff)
    qed
  qed
qed

text \<open>It is the newest: no other version the reader may see has a larger sequence number.\<close>

lemma newest_version_max:
  assumes "sorted_entries es" and "newest_version user seq es = Some e"
    and "x \<in> set es" and "is_version user seq x"
  shows "is_version user seq e \<and> key_seq (fst x) \<le> key_seq (fst e)"
proof -
  obtain ys zs where es: "es = ys @ e # zs" "is_version user seq e" "\<forall>y \<in> set ys. \<not> is_version user seq y"
    using assms(2) unfolding newest_version_def by (blast dest: find_split)
  then have "x = e \<or> x \<in> set zs" using assms by auto
  then have "\<not> entry_before x (fst e)"
    using assms(1) es by (auto simp: sorted_entries_def sorted_wrt_append entry_before_def ik.cmp_refl)
  then have "key_trailer (fst x) \<le> key_trailer (fst e)"
    using assms(4) es(2) by (auto simp: entry_before_def compareInternalKey_less is_version_def)
  then have "256 * unat (key_seq (fst x)) + unat (key_kind (fst x)) \<le> 256 * unat (key_seq (fst e)) + unat (key_kind (fst e))"
    by (simp add: word_le_nat_alt unat_key_trailer)
  moreover have "unat (key_kind (fst e)) < 256" using unsigned_less [of "key_kind (fst e)"] by simp
  ultimately have "unat (key_seq (fst x)) \<le> unat (key_seq (fst e))" by linarith
  then show ?thesis using es by (simp add: word_le_nat_alt)
qed

section \<open>The iterator interface\<close>

datatype storage_error =
    ErrNotFound | ErrClosed | ErrEmptyKey
  | errBadBlock | errBadTable | ErrTableVersion u32 | ErrBlockCorrupt
  | ErrIO

record 'it internalIter =
  it_seekToFirst :: "'it \<Rightarrow> 'it"
  it_seek :: "bytes \<Rightarrow> 'it \<Rightarrow> 'it"
  it_valid :: "'it \<Rightarrow> bool"
  it_next :: "'it \<Rightarrow> 'it"
  it_key :: "'it \<Rightarrow> bytes"
  it_value :: "'it \<Rightarrow> bytes"
  it_close :: "'it \<Rightarrow> storage_error option"

text \<open>
  The laws: \<open>entries\<close> are the entries the iterator ranges over and \<open>rest\<close> those from its
  position on. The invariant describes an iterator over intact data, on which no operation
  meets an error. \<open>next\<close>, \<open>key\<close> and \<open>value\<close> are promised on valid iterators only; on others the
  source dereferences nil.
\<close>

locale internal_iter =
  fixes ops :: "'it internalIter" and entries rest :: "'it \<Rightarrow> entry list" and inv :: "'it \<Rightarrow> bool"
  assumes entries_sorted: "inv it \<Longrightarrow> sorted_entries (entries it)"
    and entries_wf: "inv it \<Longrightarrow> e \<in> set (entries it) \<Longrightarrow> wf_entry e"
    and rest_sub: "inv it \<Longrightarrow> \<exists>n. rest it = drop n (entries it)"
    and first: "inv it \<Longrightarrow> inv (it_seekToFirst ops it) \<and> entries (it_seekToFirst ops it) = entries it
        \<and> rest (it_seekToFirst ops it) = entries it"
    and seek: "inv it \<Longrightarrow> wf_ikey k \<Longrightarrow> inv (it_seek ops k it) \<and> entries (it_seek ops k it) = entries it
        \<and> rest (it_seek ops k it) = seek_entries k (entries it)"
    and valid: "inv it \<Longrightarrow> it_valid ops it \<longleftrightarrow> rest it \<noteq> []"
    and step: "inv it \<Longrightarrow> rest it \<noteq> [] \<Longrightarrow> inv (it_next ops it) \<and> entries (it_next ops it) = entries it
        \<and> rest (it_next ops it) = tl (rest it)"
    and current: "inv it \<Longrightarrow> rest it \<noteq> [] \<Longrightarrow> (it_key ops it, it_value ops it) = hd (rest it)"
    and close: "inv it \<Longrightarrow> it_close ops it = None"
begin

lemma rest_sorted: "inv it \<Longrightarrow> sorted_entries (rest it)"
proof -
  assume i: "inv it"
  then obtain n where n: "rest it = drop n (entries it)" using rest_sub by blast
  have "sorted_entries (take n (entries it) @ drop n (entries it))" using entries_sorted [OF i] by simp
  then show ?thesis unfolding n sorted_entries_def sorted_wrt_append by blast
qed

lemma rest_wf: "inv it \<Longrightarrow> e \<in> set (rest it) \<Longrightarrow> wf_entry e"
  using rest_sub entries_wf by (metis in_set_dropD)

lemma key_hd: "inv it \<Longrightarrow> rest it \<noteq> [] \<Longrightarrow> it_key ops it = fst (hd (rest it))"
  by (metis current fst_conv)

lemma value_hd: "inv it \<Longrightarrow> rest it \<noteq> [] \<Longrightarrow> it_value ops it = snd (hd (rest it))"
  by (metis current snd_conv)

end

text \<open>
  The loop \<open>for it.seekToFirst(); it.valid(); it.next()\<close> with a body that folds over a state,
  as in \<open>writeTableFiltered\<close>, \<open>exportIter\<close> and the two \<open>Restore\<close>s. The number of steps is
  bounded by a fuel argument; \<open>iter_loop_all\<close> shows how much is enough.
\<close>

fun iter_loop :: "'it internalIter \<Rightarrow> (bytes \<Rightarrow> bytes \<Rightarrow> 's \<Rightarrow> 's) \<Rightarrow> nat \<Rightarrow> 'it \<Rightarrow> 's \<Rightarrow> 'it \<times> 's" where
  "iter_loop ops f 0 it s = (it, s)"
| "iter_loop ops f (Suc n) it s =
     (if it_valid ops it
      then iter_loop ops f n (it_next ops it) (f (it_key ops it) (it_value ops it) s)
      else (it, s))"

context internal_iter
begin

lemma iter_loop_rest:
  "inv it \<Longrightarrow> length (rest it) \<le> n \<Longrightarrow>
   snd (iter_loop ops f n it s) = fold (\<lambda>e. f (fst e) (snd e)) (rest it) s
   \<and> inv (fst (iter_loop ops f n it s)) \<and> rest (fst (iter_loop ops f n it s)) = []
   \<and> entries (fst (iter_loop ops f n it s)) = entries it"
proof (induction n arbitrary: it s)
  case (Suc n)
  show ?case
  proof (cases "rest it")
    case Nil
    then show ?thesis using Suc.prems valid by simp
  next
    case (Cons e es)
    have st: "inv (it_next ops it)" "entries (it_next ops it) = entries it" "rest (it_next ops it) = es"
      using step [of it] Suc.prems Cons by auto
    have "length (rest (it_next ops it)) \<le> n" using Suc.prems Cons st by simp
    from Suc.IH [OF st(1) this, of "f (it_key ops it) (it_value ops it) s"]
    show ?thesis using Suc.prems Cons st valid [of it] key_hd [of it] value_hd [of it] by simp
  qed
qed simp

lemma iter_loop_all:
  assumes "inv it" and "length (entries it) \<le> n"
  shows "snd (iter_loop ops f n (it_seekToFirst ops it) s) = fold (\<lambda>e. f (fst e) (snd e)) (entries it) s"
    and "inv (fst (iter_loop ops f n (it_seekToFirst ops it) s))"
  using iter_loop_rest [of "it_seekToFirst ops it" n f s] first [OF assms(1)] assms(2) by auto

end

end
