(* ===== verification/Skiplist.thy ===== *)
theory Skiplist
  imports Iter
begin

unbundle bit_operations_syntax

text \<open>
  The skip list (\<open>src/storage/skiplist.go\<close>) as an explicit heap of nodes: a pointer is an
  index into the list of allocated nodes, the head is node 0 and \<open>nil\<close> is \<open>None\<close>. A node's
  \<open>next\<close> array has one pointer per level of the node. The refinement shows that \<open>insert\<close> and
  \<open>seek\<close> are insertion into and search in a sorted list of entries, also while the pointers
  of a new node are being published level by level.
\<close>

section \<open>Model\<close>

definition maxHeight :: nat where "maxHeight = 12"
definition branching :: u64 where "branching = 4"

record node =
  n_key :: bytes
  n_value :: bytes
  n_next :: "nat option list"

record skiplist =
  s_nodes :: "node list"
  s_height :: nat
  s_seed :: u64

definition newSkiplist :: "u64 \<Rightarrow> skiplist" where
  "newSkiplist seed =
     \<lparr>s_nodes = [\<lparr>n_key = [], n_value = [], n_next = replicate maxHeight None\<rparr>],
      s_height = 1, s_seed = (if seed = 0 then 1 else seed)\<rparr>"

definition xorshift :: "u64 \<Rightarrow> u64" where
  "xorshift s0 =
     (let s1 = s0 XOR push_bit 13 s0;
          s2 = s1 XOR drop_bit 7 s1
      in s2 XOR push_bit 17 s2)"

function randomHeight :: "nat \<Rightarrow> u64 \<Rightarrow> nat \<times> u64" where
  "randomHeight h seed =
     (if h < maxHeight
      then let seed' = xorshift seed
           in if seed' mod branching \<noteq> 0 then (h, seed') else randomHeight (h + 1) seed'
      else (h, seed))"
  by pat_completeness auto
termination
  by (relation "measure (\<lambda>(h, _). maxHeight - h)") auto

declare randomHeight.simps [simp del]

text \<open>
  The inner loop of \<open>insert\<close> and \<open>seek\<close>: follow one level while the next node's key is smaller
  than the target. A level of a well-formed list visits every node at most once, so the number
  of allocated nodes is enough fuel; \<open>seek_refines\<close> relies on it.
\<close>

fun walk :: "node list \<Rightarrow> nat \<Rightarrow> bytes \<Rightarrow> nat \<Rightarrow> nat \<Rightarrow> nat" where
  "walk ns level key 0 x = x"
| "walk ns level key (Suc fuel) x =
     (case n_next (ns ! x) ! level of
        None \<Rightarrow> x
      | Some y \<Rightarrow> if compareInternalKey (n_key (ns ! y)) key \<ge> 0 then x
                  else walk ns level key fuel y)"

text \<open>The outer loop, from \<open>height - 1\<close> down to 0, recording the predecessor of each level.\<close>

fun descend :: "node list \<Rightarrow> bytes \<Rightarrow> nat \<Rightarrow> nat \<Rightarrow> nat list \<Rightarrow> nat \<times> nat list" where
  "descend ns key 0 x prev = (x, prev)"
| "descend ns key (Suc level) x prev =
     (let x' = walk ns level key (length ns) x
      in descend ns key level x' (prev[level := x']))"

text \<open>Up to the allocation of the new node: everything before the stores that publish it.\<close>

definition insert_prepare :: "skiplist \<Rightarrow> bytes \<Rightarrow> bytes \<Rightarrow> skiplist \<times> nat list \<times> nat" where
  "insert_prepare s key value =
     (let prev = snd (descend (s_nodes s) key (s_height s) 0 (replicate maxHeight 0));
          (h, seed) = randomHeight 1 (s_seed s);
          cur = s_height s;
          prev = fold (\<lambda>level p. p[level := 0]) [cur..<h] prev;
          n = \<lparr>n_key = key, n_value = value,
               n_next = map (\<lambda>level. n_next (s_nodes s ! (prev ! level)) ! level) [0..<h]\<rparr>
      in (\<lparr>s_nodes = s_nodes s @ [n], s_height = max cur h, s_seed = seed\<rparr>, prev, h))"

definition store_next :: "nat \<Rightarrow> nat list \<Rightarrow> nat \<Rightarrow> node list \<Rightarrow> node list" where
  "store_next n prev level ns =
     (let p = prev ! level
      in ns[p := (ns ! p)\<lparr>n_next := (n_next (ns ! p))[level := Some n]\<rparr>])"

text \<open>The first \<open>k\<close> of the stores; a concurrent reader may run after any number of them.\<close>

definition insert_publish :: "nat \<Rightarrow> skiplist \<Rightarrow> bytes \<Rightarrow> bytes \<Rightarrow> skiplist" where
  "insert_publish k s key value =
     (let (s', prev, h) = insert_prepare s key value
      in s'\<lparr>s_nodes := fold (store_next (length (s_nodes s)) prev) [0..<min k h] (s_nodes s')\<rparr>)"

definition skiplist_insert :: "skiplist \<Rightarrow> bytes \<Rightarrow> bytes \<Rightarrow> skiplist" where
  "skiplist_insert s key value =
     (let (s', prev, h) = insert_prepare s key value
      in s'\<lparr>s_nodes := fold (store_next (length (s_nodes s)) prev) [0..<h] (s_nodes s')\<rparr>)"

definition skiplist_seek :: "skiplist \<Rightarrow> bytes \<Rightarrow> nat option" where
  "skiplist_seek s target =
     n_next (s_nodes s ! fst (descend (s_nodes s) target (s_height s) 0 (replicate maxHeight 0))) ! 0"

definition skiplist_first :: "skiplist \<Rightarrow> nat option" where
  "skiplist_first s = n_next (s_nodes s ! 0) ! 0"

record skiplistIter =
  si_list :: skiplist
  si_cur :: "nat option"

text \<open>\<open>next\<close>, \<open>key\<close> and \<open>value\<close> dereference \<open>cur\<close>, which their callers have checked with \<open>valid\<close>.\<close>

definition skiplist_ops :: "skiplistIter internalIter" where
  "skiplist_ops =
     \<lparr>it_seekToFirst = (\<lambda>it. it\<lparr>si_cur := skiplist_first (si_list it)\<rparr>),
      it_seek = (\<lambda>k it. it\<lparr>si_cur := skiplist_seek (si_list it) k\<rparr>),
      it_valid = (\<lambda>it. si_cur it \<noteq> None),
      it_next = (\<lambda>it. it\<lparr>si_cur := n_next (s_nodes (si_list it) ! the (si_cur it)) ! 0\<rparr>),
      it_key = (\<lambda>it. n_key (s_nodes (si_list it) ! the (si_cur it))),
      it_value = (\<lambda>it. n_value (s_nodes (si_list it) ! the (si_cur it))),
      it_close = (\<lambda>it. None)\<rparr>"

section \<open>The random height\<close>

lemma randomHeight_bounds: "1 \<le> h \<Longrightarrow> h \<le> maxHeight \<Longrightarrow> h \<le> fst (randomHeight h s) \<and> fst (randomHeight h s) \<le> maxHeight"
proof (induction h s rule: randomHeight.induct)
  case (1 h s)
  show ?case
  proof (cases "h < maxHeight \<and> xorshift s mod branching = 0")
    case True
    then have "Suc h \<le> fst (randomHeight (h + 1) (xorshift s)) \<and> fst (randomHeight (h + 1) (xorshift s)) \<le> maxHeight"
      using 1 by simp
    then show ?thesis using True by (subst (1 2) randomHeight.simps) (simp add: Let_def)
  next
    case False
    then show ?thesis
      using 1(2,3) by (cases "h < maxHeight") (subst (1 2) randomHeight.simps, simp add: Let_def)+
  qed
qed

section \<open>Chains of pointers\<close>

text \<open>\<open>chain nxt x as\<close>: following \<open>nxt\<close> from \<open>x\<close> visits exactly \<open>as\<close> and then ends.\<close>

fun chain :: "(nat \<Rightarrow> nat option) \<Rightarrow> nat \<Rightarrow> nat list \<Rightarrow> bool" where
  "chain nxt x [] \<longleftrightarrow> nxt x = None"
| "chain nxt x (y # ys) \<longleftrightarrow> nxt x = Some y \<and> chain nxt y ys"

definition next_at :: "node list \<Rightarrow> nat \<Rightarrow> nat \<Rightarrow> nat option" where
  "next_at ns level x = n_next (ns ! x) ! level"

lemma chain_append: "chain nxt x (as @ bs) \<Longrightarrow> chain nxt (last (x # as)) bs"
  by (induction as arbitrary: x) auto

lemma chain_cong: "chain nxt x as \<Longrightarrow> (\<And>y. y \<in> set (x # as) \<Longrightarrow> nxt' y = nxt y) \<Longrightarrow> chain nxt' x as"
  by (induction as arbitrary: x) auto

lemma chain_insert:
  assumes "chain nxt x (as @ bs)" and "distinct (x # as @ bs)" and "n \<notin> set (x # as @ bs)"
    and "nxt' (last (x # as)) = Some n" and "nxt' n = nxt (last (x # as))"
    and "\<And>y. y \<in> set (x # as @ bs) \<Longrightarrow> y \<noteq> last (x # as) \<Longrightarrow> nxt' y = nxt y"
  shows "chain nxt' x (as @ n # bs)"
  using assms
proof (induction as arbitrary: x)
  case Nil
  have "chain nxt' n bs"
  proof (cases bs)
    case Nil
    then show ?thesis using \<open>chain nxt x ([] @ bs)\<close> \<open>nxt' n = nxt (last [x])\<close> by simp
  next
    case (Cons b cs)
    have "chain nxt b cs" using \<open>chain nxt x ([] @ bs)\<close> Cons by simp
    then have "chain nxt' b cs" by (rule chain_cong) (use Nil.prems Cons in auto)
    then show ?thesis using Nil.prems Cons by simp
  qed
  then show ?case using Nil.prems by simp
next
  case (Cons a as)
  have "last (a # as) \<in> set (a # as)" by (rule last_in_set) simp
  then have ne: "x \<noteq> last (a # as)" using Cons.prems(2) by auto
  have "chain nxt' a (as @ n # bs)"
    using Cons.prems by (intro Cons.IH) auto
  then show ?case using Cons.prems ne by auto
qed

lemma walk_chain:
  assumes "chain (next_at ns level) x (as @ bs)" and "length as \<le> fuel"
    and "\<And>a. a \<in> set as \<Longrightarrow> compareInternalKey (n_key (ns ! a)) key < 0"
    and "bs = [] \<or> compareInternalKey (n_key (ns ! hd bs)) key \<ge> 0"
  shows "walk ns level key fuel x = last (x # as)"
  using assms
proof (induction fuel arbitrary: x as)
  case (Suc fuel)
  show ?case
  proof (cases as)
    case Nil
    then show ?thesis using Suc.prems by (cases bs) (auto simp: next_at_def)
  next
    case (Cons a as')
    have "walk ns level key fuel a = last (a # as')" using Suc.prems Cons by (intro Suc.IH) auto
    moreover have "compareInternalKey (n_key (ns ! a)) key < 0" using Suc.prems(3) Cons by simp
    ultimately show ?thesis using Suc.prems(1) Cons by (simp add: next_at_def)
  qed
qed simp

section \<open>The invariant\<close>

definition entry_of :: "node list \<Rightarrow> nat \<Rightarrow> entry" where
  "entry_of ns a = (n_key (ns ! a), n_value (ns ! a))"

text \<open>
  \<open>lv a\<close> is the number of levels at which node \<open>a\<close> is linked: all of the node's levels, except
  while it is being published.
\<close>

definition linked :: "(nat \<Rightarrow> nat) \<Rightarrow> nat \<Rightarrow> nat list \<Rightarrow> nat list" where
  "linked lv level as = filter (\<lambda>a. level < lv a) as"

definition sl_rep :: "node list \<Rightarrow> nat \<Rightarrow> (nat \<Rightarrow> nat) \<Rightarrow> nat list \<Rightarrow> bool" where
  "sl_rep ns height lv as \<longleftrightarrow>
     length (n_next (ns ! 0)) = maxHeight \<and> 1 \<le> height \<and> height \<le> maxHeight \<and> 0 < length ns
     \<and> distinct as \<and> set as \<subseteq> {1..<length ns}
     \<and> (\<forall>a \<in> set as. 1 \<le> lv a \<and> lv a \<le> length (n_next (ns ! a)) \<and> lv a \<le> height \<and> wf_ikey (n_key (ns ! a)))
     \<and> sorted_entries (map (entry_of ns) as)
     \<and> (\<forall>level < maxHeight. chain (next_at ns level) 0 (linked lv level as))"

fun follow :: "node list \<Rightarrow> nat \<Rightarrow> nat option \<Rightarrow> nat list" where
  "follow ns 0 p = []"
| "follow ns (Suc fuel) None = []"
| "follow ns (Suc fuel) (Some a) = a # follow ns fuel (n_next (ns ! a) ! 0)"

definition addresses_from :: "skiplist \<Rightarrow> nat option \<Rightarrow> nat list" where
  "addresses_from s p = follow (s_nodes s) (length (s_nodes s)) p"

definition entries_from :: "skiplist \<Rightarrow> nat option \<Rightarrow> entry list" where
  "entries_from s p = map (entry_of (s_nodes s)) (addresses_from s p)"

definition sl_entries :: "skiplist \<Rightarrow> entry list" where
  "sl_entries s = entries_from s (skiplist_first s)"

definition sl_inv :: "skiplist \<Rightarrow> bool" where
  "sl_inv s \<longleftrightarrow> (\<exists>lv. sl_rep (s_nodes s) (s_height s) lv (addresses_from s (skiplist_first s)))"

lemma follow_chain: "chain (next_at ns 0) x as \<Longrightarrow> length as \<le> fuel \<Longrightarrow> follow ns fuel (next_at ns 0 x) = as"
proof (induction as arbitrary: x fuel)
  case Nil
  then show ?case by (cases fuel) (auto simp: next_at_def)
next
  case (Cons a as)
  then obtain fuel' where "fuel = Suc fuel'" by (cases fuel) auto
  then show ?case using Cons by (simp add: next_at_def)
qed

lemma linked_0: "sl_rep ns h lv as \<Longrightarrow> linked lv 0 as = as"
  by (force simp: sl_rep_def linked_def filter_id_conv)

lemma sl_rep_length: "sl_rep ns h lv as \<Longrightarrow> length as \<le> length ns"
proof -
  assume r: "sl_rep ns h lv as"
  then have "card (set as) \<le> card {1..<length ns}" by (intro card_mono) (auto simp: sl_rep_def)
  moreover have "card (set as) = length as" using r by (simp add: sl_rep_def distinct_card)
  ultimately show ?thesis by simp
qed

lemma sl_rep_chain0: "sl_rep ns h lv as \<Longrightarrow> chain (next_at ns 0) 0 as"
proof -
  assume r: "sl_rep ns h lv as"
  then have "chain (next_at ns 0) 0 (linked lv 0 as)" by (simp add: sl_rep_def maxHeight_def)
  then show ?thesis using linked_0 [OF r] by simp
qed

lemma addresses_rep:
  "sl_rep (s_nodes s) (s_height s) lv as \<Longrightarrow> addresses_from s (skiplist_first s) = as"
  using follow_chain [OF sl_rep_chain0 sl_rep_length]
  by (simp add: addresses_from_def skiplist_first_def next_at_def)

lemma sl_invI: "sl_rep (s_nodes s) (s_height s) lv as \<Longrightarrow> sl_inv s"
  using addresses_rep by (auto simp: sl_inv_def)

lemma sl_invE:
  assumes "sl_inv s"
  obtains lv as where "sl_rep (s_nodes s) (s_height s) lv as" "addresses_from s (skiplist_first s) = as"
    "sl_entries s = map (entry_of (s_nodes s)) as"
  using assms by (auto simp: sl_inv_def sl_entries_def entries_from_def)

section \<open>Searching\<close>

definition below :: "node list \<Rightarrow> bytes \<Rightarrow> nat \<Rightarrow> bool" where
  "below ns key a \<longleftrightarrow> compareInternalKey (n_key (ns ! a)) key < 0"

lemma entry_before_entry_of: "entry_before (entry_of ns a) key \<longleftrightarrow> below ns key a"
  by (simp add: entry_before_def entry_of_def below_def)

text \<open>The predecessor of the target at a level.\<close>

definition pred_at :: "node list \<Rightarrow> bytes \<Rightarrow> (nat \<Rightarrow> nat) \<Rightarrow> nat list \<Rightarrow> nat \<Rightarrow> nat" where
  "pred_at ns key lv as level = last (0 # linked lv level (takeWhile (below ns key) as))"

lemma below_split:
  assumes "sl_rep ns h lv as" and "wf_ikey key" and "a \<in> set (dropWhile (below ns key) as)"
  shows "\<not> below ns key a"
proof -
  let ?es = "map (entry_of ns) as"
  have "seek_entries key ?es = map (entry_of ns) (dropWhile (below ns key) as)"
    by (simp add: seek_entries_def dropWhile_map o_def entry_before_entry_of)
  moreover have "\<forall>x \<in> set ?es. wf_entry x" "sorted_entries ?es"
    using assms by (auto simp: sl_rep_def wf_entry_def entry_of_def)
  ultimately show ?thesis
    using seek_entries_all_ge [of ?es key "entry_of ns a"] assms by (simp add: entry_before_entry_of)
qed

lemma linked_append: "linked lv l (as @ bs) = linked lv l as @ linked lv l bs"
  by (simp add: linked_def)

lemma linked_split: "linked lv l as = linked lv l (takeWhile P as) @ linked lv l (dropWhile P as)"
  by (simp flip: linked_append)

lemma set_linked [simp]: "a \<in> set (linked lv l as) \<longleftrightarrow> a \<in> set as \<and> l < lv a"
  by (simp add: linked_def)

lemma walk_level:
  assumes r: "sl_rep ns h lv as" and k: "wf_ikey key" and l: "level < maxHeight"
    and x: "x \<in> set (0 # linked lv level (takeWhile (below ns key) as))"
  shows "walk ns level key (length ns) x = pred_at ns key lv as level"
proof -
  let ?F = "linked lv level (takeWhile (below ns key) as)" and ?G = "linked lv level (dropWhile (below ns key) as)"
  have c: "chain (next_at ns level) 0 (?F @ ?G)"
    using r l by (simp add: sl_rep_def flip: linked_split)
  obtain A B where AB: "0 # ?F = A @ x # B" using x by (meson split_list)
  have cx: "chain (next_at ns level) x (B @ ?G)"
  proof (cases A)
    case Nil
    then show ?thesis using AB c by simp
  next
    case (Cons a A')
    then have "?F = A' @ x # B" using AB by simp
    then have "chain (next_at ns level) 0 ((A' @ [x]) @ (B @ ?G))" using c by simp
    then show ?thesis by (metis chain_append last_ConsR last_snoc snoc_eq_iff_butlast)
  qed
  have B: "b \<in> set ?F" if "b \<in> set B" for b
    using AB that by (cases A) auto
  have "length ?F \<le> length as"
    unfolding linked_def by (rule order_trans [OF length_filter_le length_takeWhile_le])
  moreover have "length (0 # ?F) = length A + 1 + length B" unfolding AB by simp
  ultimately have "length B \<le> length ns" using sl_rep_length [OF r] by simp
  moreover have "compareInternalKey (n_key (ns ! b)) key < 0" if "b \<in> set B" for b
    using B [OF that] by (auto simp: below_def dest: set_takeWhileD)
  moreover have "?G = [] \<or> compareInternalKey (n_key (ns ! hd ?G)) key \<ge> 0"
  proof (cases ?G)
    case (Cons g gs)
    then have "g \<in> set ?G" by simp
    then have "g \<in> set (dropWhile (below ns key) as)" by (simp only: set_linked)
    then show ?thesis using below_split [OF r k, of g] Cons by (auto simp: below_def)
  qed simp
  ultimately have "walk ns level key (length ns) x = last (x # B)"
    by (intro walk_chain [OF cx])
  also have "\<dots> = last (0 # ?F)" unfolding AB by simp
  finally show ?thesis by (simp add: pred_at_def)
qed

lemma descend_spec:
  assumes r: "sl_rep ns h lv as" and k: "wf_ikey key" and n: "n \<le> maxHeight"
    and x: "n = 0 \<or> x \<in> set (0 # linked lv (n - 1) (takeWhile (below ns key) as))" and p: "length prev = maxHeight"
  shows "fst (descend ns key n x prev) = (if n = 0 then x else pred_at ns key lv as 0)
    \<and> length (snd (descend ns key n x prev)) = maxHeight
    \<and> (\<forall>l < maxHeight. snd (descend ns key n x prev) ! l = (if l < n then pred_at ns key lv as l else prev ! l))"
  using n x p
proof (induction n arbitrary: x prev)
  case (Suc n)
  let ?x = "pred_at ns key lv as n"
  have w: "walk ns n key (length ns) x = ?x" using walk_level [OF r k] Suc.prems by simp
  have in': "n = 0 \<or> ?x \<in> set (0 # linked lv (n - 1) (takeWhile (below ns key) as))"
  proof -
    have "?x \<in> set (0 # linked lv n (takeWhile (below ns key) as))"
      unfolding pred_at_def by (rule last_in_set) simp
    then show ?thesis by auto
  qed
  have "length (prev[n := ?x]) = maxHeight" using Suc.prems by simp
  from Suc.IH [OF _ in' this] Suc.prems(1,3)
  show ?case by (auto simp: w Let_def nth_list_update less_Suc_eq)
qed simp

lemma seek_addresses:
  assumes r: "sl_rep (s_nodes s) (s_height s) lv as" and k: "wf_ikey key"
  shows "addresses_from s (skiplist_seek s key) = dropWhile (below (s_nodes s) key) as"
proof -
  let ?ns = "s_nodes s" and ?L = "takeWhile (below (s_nodes s) key) as"
  have h: "s_height s \<noteq> 0" "s_height s \<le> maxHeight" using r by (auto simp: sl_rep_def)
  have d: "fst (descend ?ns key (s_height s) 0 (replicate maxHeight 0)) = pred_at ?ns key lv as 0"
    using descend_spec [OF r k h(2), of 0 "replicate maxHeight 0"] h(1) by simp
  have 0: "linked lv 0 ?L = ?L"
    using r by (force simp: sl_rep_def linked_def filter_id_conv dest: set_takeWhileD)
  have "chain (next_at ?ns 0) 0 (?L @ dropWhile (below ?ns key) as)"
    using sl_rep_chain0 [OF r] by simp
  then have "chain (next_at ?ns 0) (pred_at ?ns key lv as 0) (dropWhile (below ?ns key) as)"
    unfolding pred_at_def 0 by (rule chain_append)
  moreover have "length (dropWhile (below ?ns key) as) \<le> length ?ns"
    using sl_rep_length [OF r] length_dropWhile_le order_trans by blast
  ultimately show ?thesis
    using follow_chain by (simp add: addresses_from_def skiplist_seek_def d next_at_def)
qed

lemma seek_refines:
  "sl_inv s \<Longrightarrow> wf_ikey key \<Longrightarrow> entries_from s (skiplist_seek s key) = seek_entries key (sl_entries s)"
  by (erule sl_invE)
    (simp add: entries_from_def seek_addresses seek_entries_def dropWhile_map o_def entry_before_entry_of)

section \<open>Inserting\<close>

lemma fold_store_next:
  fixes n j :: nat and prev :: "nat list" and ns :: "node list"
  defines "ns' \<equiv> fold (store_next n prev) [0..<j] ns"
  shows "length ns' = length ns \<and> (\<forall>x. n_key (ns' ! x) = n_key (ns ! x) \<and> n_value (ns' ! x) = n_value (ns ! x)
      \<and> length (n_next (ns' ! x)) = length (n_next (ns ! x))
      \<and> (\<forall>l. next_at ns' l x =
           (if l < j \<and> x = prev ! l \<and> x < length ns \<and> l < length (n_next (ns ! x)) then Some n else next_at ns l x)))"
  unfolding ns'_def
proof (induction j)
  case (Suc j)
  let ?m = "fold (store_next n prev) [0..<j] ns"
  have IH: "length ?m = length ns" "\<And>x. n_key (?m ! x) = n_key (ns ! x)" "\<And>x. n_value (?m ! x) = n_value (ns ! x)"
    "\<And>x. length (n_next (?m ! x)) = length (n_next (ns ! x))"
    "\<And>x l. next_at ?m l x = (if l < j \<and> x = prev ! l \<and> x < length ns \<and> l < length (n_next (ns ! x)) then Some n else next_at ns l x)"
    using Suc by auto
  have st: "fold (store_next n prev) [0..<Suc j] ns = store_next n prev j ?m" by simp
  have other: "store_next n prev j ?m ! x = ?m ! x" if "x \<noteq> prev ! j" for x
    using that by (simp add: store_next_def Let_def)
  have same: "store_next n prev j ?m ! x = (?m ! x)\<lparr>n_next := (n_next (?m ! x))[j := Some n]\<rparr>"
    if "x = prev ! j" "x < length ns" for x
    using that by (simp add: store_next_def Let_def IH(1))
  have out: "store_next n prev j ?m = ?m" if "\<not> prev ! j < length ns"
    using that by (simp add: store_next_def Let_def IH(1) list_update_beyond)
  show ?case unfolding st
  proof (intro conjI allI)
    show "length (store_next n prev j ?m) = length ns" by (simp add: store_next_def Let_def IH(1))
    fix x l
    consider "x \<noteq> prev ! j" | "x = prev ! j" "x < length ns" | "x = prev ! j" "\<not> x < length ns" by blast
    note cases3 = this
    show "n_key (store_next n prev j ?m ! x) = n_key (ns ! x)"
      using cases3 by cases (simp_all add: other same out IH)
    show "n_value (store_next n prev j ?m ! x) = n_value (ns ! x)"
      using cases3 by cases (simp_all add: other same out IH)
    show "length (n_next (store_next n prev j ?m ! x)) = length (n_next (ns ! x))"
      using cases3 by cases (simp_all add: other same out IH)
    show "next_at (store_next n prev j ?m) l x =
        (if l < Suc j \<and> x = prev ! l \<and> x < length ns \<and> l < length (n_next (ns ! x)) then Some n else next_at ns l x)"
      using cases3
    proof cases
      case 1
      then have "next_at (store_next n prev j ?m) l x = next_at ?m l x" by (simp add: next_at_def other)
      then show ?thesis using 1 by (simp add: IH(5) less_Suc_eq) auto
    next
      case 2
      have "next_at (store_next n prev j ?m) l x = (if l = j \<and> j < length (n_next (ns ! x)) then Some n else next_at ?m l x)"
        using 2 by (auto simp: next_at_def same nth_list_update IH(4) list_update_beyond)
      then show ?thesis using 2 by (simp add: IH(5) less_Suc_eq) auto
    next
      case 3
      then have "next_at (store_next n prev j ?m) l x = next_at ?m l x" by (simp add: out)
      then show ?thesis using 3 by (simp add: IH(5))
    qed
  qed
qed simp

lemma fold_zero: "length (fold (\<lambda>level p. p[level := 0 :: nat]) ls p) = length p
  \<and> (\<forall>l < length p. fold (\<lambda>level p. p[level := 0]) ls p ! l = (if l \<in> set ls then 0 else p ! l))"
  by (induction ls arbitrary: p) (auto simp: nth_list_update)

text \<open>What \<open>insert\<close> has computed when it starts to publish.\<close>

lemma insert_prepare_spec:
  assumes r: "sl_rep (s_nodes s) (s_height s) lv as" and k: "wf_ikey key"
  obtains prev h n seed where
    "insert_prepare s key value = (\<lparr>s_nodes = s_nodes s @ [n], s_height = max (s_height s) h, s_seed = seed\<rparr>, prev, h)"
    "1 \<le> h" "h \<le> maxHeight" "length (n_next n) = h" "n_key n = key" "n_value n = value"
    "\<And>l. l < h \<Longrightarrow> prev ! l = pred_at (s_nodes s) key lv as l"
    "\<And>l. l < h \<Longrightarrow> n_next n ! l = next_at (s_nodes s) l (pred_at (s_nodes s) key lv as l)"
proof -
  let ?ns = "s_nodes s" and ?c = "s_height s"
  define h where "h = fst (randomHeight 1 (s_seed s))"
  define p0 where "p0 = snd (descend ?ns key ?c 0 (replicate maxHeight 0))"
  define prev where "prev = fold (\<lambda>level p. p[level := 0]) [?c..<h] p0"
  define n where "n = \<lparr>n_key = key, n_value = value, n_next = map (\<lambda>level. n_next (?ns ! (prev ! level)) ! level) [0..<h]\<rparr>"
  have h: "1 \<le> h" "h \<le> maxHeight" using randomHeight_bounds [of 1 "s_seed s"] by (auto simp: h_def maxHeight_def)
  have c: "?c \<le> maxHeight" using r by (simp add: sl_rep_def)
  have p0: "length p0 = maxHeight" "\<And>l. l < maxHeight \<Longrightarrow> l < ?c \<Longrightarrow> p0 ! l = pred_at ?ns key lv as l"
    using descend_spec [OF r k c, of 0 "replicate maxHeight 0"] by (auto simp: p0_def)
  have prev: "prev ! l = pred_at ?ns key lv as l" if "l < h" for l
  proof (cases "l < ?c")
    case True
    then show ?thesis using that h p0 fold_zero [of "[?c..<h]" p0] by (simp add: prev_def)
  next
    case False
    have "linked lv l (takeWhile (below ?ns key) as) = []"
      using r False by (fastforce simp: sl_rep_def linked_def filter_empty_conv dest: set_takeWhileD)
    then show ?thesis
      using that False h p0 fold_zero [of "[?c..<h]" p0] by (simp add: prev_def pred_at_def)
  qed
  have "insert_prepare s key value = (\<lparr>s_nodes = ?ns @ [n], s_height = max ?c h, s_seed = snd (randomHeight 1 (s_seed s))\<rparr>, prev, h)"
    by (simp add: insert_prepare_def Let_def split_beta h_def p0_def prev_def n_def)
  moreover have "n_next n ! l = next_at ?ns l (pred_at ?ns key lv as l)" if "l < h" for l
    using that prev by (simp add: n_def next_at_def)
  ultimately show ?thesis using that h prev by (simp add: n_def)
qed

lemma pred_at_props:
  assumes r: "sl_rep ns h lv as" and l: "l < maxHeight"
  shows "pred_at ns key lv as l < length ns \<and> l < length (n_next (ns ! pred_at ns key lv as l))"
proof -
  have "pred_at ns key lv as l \<in> set (0 # linked lv l (takeWhile (below ns key) as))"
    unfolding pred_at_def by (rule last_in_set) simp
  then show ?thesis using r l by (fastforce simp: sl_rep_def dest: set_takeWhileD)
qed

text \<open>One level after \<open>j\<close> stores: the new node is linked in below \<open>j\<close> and absent above.\<close>

lemma publish_chain:
  assumes r: "sl_rep ns ht lv as" and l: "l < maxHeight" and h: "h \<le> maxHeight" and j: "j \<le> h"
    and prev: "\<And>l. l < h \<Longrightarrow> prev ! l = pred_at ns key lv as l"
    and nn: "length (n_next n) = h" "\<And>l. l < h \<Longrightarrow> n_next n ! l = next_at ns l (pred_at ns key lv as l)"
  defines "N \<equiv> length ns"
  defines "ns' \<equiv> fold (store_next N prev) [0..<j] (ns @ [n])"
  shows "chain (next_at ns' l) 0
    (linked (lv(N := j)) l (takeWhile (below ns key) as @ N # dropWhile (below ns key) as))"
proof -
  let ?L = "takeWhile (below ns key) as" and ?R = "dropWhile (below ns key) as"
  have sub: "set as \<subseteq> {1..<N}" "distinct as" "0 < N" using r by (auto simp: sl_rep_def N_def)
  have new: "N \<notin> set as" using sub by auto
  have lk: "linked (lv(N := j)) l xs = linked lv l xs" if "set xs \<subseteq> set as" for xs
    unfolding linked_def using that new by (intro filter_cong) auto
  have LR: "linked (lv(N := j)) l ?L = linked lv l ?L" "linked (lv(N := j)) l ?R = linked lv l ?R"
    by (rule lk, auto dest: set_takeWhileD set_dropWhileD)+
  have c: "chain (next_at ns l) 0 (linked lv l ?L @ linked lv l ?R)"
    using r l by (simp add: sl_rep_def flip: linked_split)
  have st: "next_at ns' l x = (if l < j \<and> x = prev ! l \<and> x < length (ns @ [n]) \<and> l < length (n_next ((ns @ [n]) ! x))
      then Some N else next_at (ns @ [n]) l x)" for x
    using fold_store_next [of N prev j "ns @ [n]"] by (simp add: ns'_def)
  have old: "next_at (ns @ [n]) l x = next_at ns l x" if "x < N" for x
    using that by (simp add: next_at_def nth_append N_def)
  have inN: "x < N" if "x \<in> set (0 # linked lv l ?L @ linked lv l ?R)" for x
    using that sub by (auto dest!: set_takeWhileD set_dropWhileD)
  show ?thesis
  proof (cases "l < j")
    case False
    have "chain (next_at ns' l) 0 (linked lv l ?L @ linked lv l ?R)"
      by (rule chain_cong [OF c]) (use False inN old in \<open>simp add: st\<close>)
    then show ?thesis using False LR by (simp add: linked_append) (simp add: linked_def)
  next
    case True
    let ?p = "pred_at ns key lv as l"
    have p: "prev ! l = ?p" "?p < N" "l < length (n_next (ns ! ?p))" "?p = last (0 # linked lv l ?L)"
      using prev [of l] True j pred_at_props [OF r l, of key] by (auto simp: N_def pred_at_def)
    have "chain (next_at ns' l) 0 (linked lv l ?L @ N # linked lv l ?R)"
    proof (rule chain_insert [OF c])
      have "distinct (0 # linked lv l as)" using sub by (auto simp: linked_def)
      then show "distinct (0 # linked lv l ?L @ linked lv l ?R)" by (simp flip: linked_split)
      show "N \<notin> set (0 # linked lv l ?L @ linked lv l ?R)" using inN by blast
      show "next_at ns' l (last (0 # linked lv l ?L)) = Some N"
        using True p by (simp add: st nth_append N_def flip: p(4))
      show "next_at ns' l N = next_at ns l (last (0 # linked lv l ?L))"
      proof -
        have "next_at ns' l N = next_at (ns @ [n]) l N" using p by (simp add: st)
        also have "\<dots> = n_next n ! l" by (simp add: next_at_def N_def)
        also have "\<dots> = next_at ns l ?p" using True j by (intro nn) simp
        finally show ?thesis by (simp only: p(4))
      qed
      show "next_at ns' l y = next_at ns l y"
        if "y \<in> set (0 # linked lv l ?L @ linked lv l ?R)" "y \<noteq> last (0 # linked lv l ?L)" for y
        using that p inN [of y] old by (simp add: st)
    qed
    then show ?thesis using True LR by (simp add: linked_append) (simp add: linked_def)
  qed
qed

lemma publish_rep:
  assumes r: "sl_rep (s_nodes s) (s_height s) lv as" and k: "wf_ikey key"
  shows "\<exists>lv'. sl_rep (s_nodes (insert_publish j s key value)) (s_height (insert_publish j s key value)) lv'
      (if j = 0 then as else takeWhile (below (s_nodes s) key) as @ length (s_nodes s) # dropWhile (below (s_nodes s) key) as)
    \<and> (\<forall>a \<in> set as. entry_of (s_nodes (insert_publish j s key value)) a = entry_of (s_nodes s) a)
    \<and> entry_of (s_nodes (insert_publish j s key value)) (length (s_nodes s)) = (key, value)"
proof -
  let ?ns = "s_nodes s" and ?N = "length (s_nodes s)"
  let ?L = "takeWhile (below ?ns key) as" and ?R = "dropWhile (below ?ns key) as"
  obtain prev h n seed where ip:
    "insert_prepare s key value = (\<lparr>s_nodes = ?ns @ [n], s_height = max (s_height s) h, s_seed = seed\<rparr>, prev, h)"
    and h: "1 \<le> h" "h \<le> maxHeight" and n: "length (n_next n) = h" "n_key n = key" "n_value n = value"
    and prev: "\<And>l. l < h \<Longrightarrow> prev ! l = pred_at ?ns key lv as l"
    and nn: "\<And>l. l < h \<Longrightarrow> n_next n ! l = next_at ?ns l (pred_at ?ns key lv as l)"
    by (rule insert_prepare_spec [OF r k, of "value"]) (rule that; assumption)
  define i where "i = min j h"
  define ns' where "ns' = fold (store_next ?N prev) [0..<i] (?ns @ [n])"
  have P: "s_nodes (insert_publish j s key value) = ns'" "s_height (insert_publish j s key value) = max (s_height s) h"
    by (simp_all add: insert_publish_def ip ns'_def i_def)
  have f: "length ns' = Suc ?N" "n_key (ns' ! x) = n_key ((?ns @ [n]) ! x)" "n_value (ns' ! x) = n_value ((?ns @ [n]) ! x)"
    "length (n_next (ns' ! x)) = length (n_next ((?ns @ [n]) ! x))" for x
    using fold_store_next [of ?N prev i "?ns @ [n]"] by (auto simp: ns'_def)
  have sub: "set as \<subseteq> {1..<?N}" "0 < ?N" "distinct as" using r by (auto simp: sl_rep_def)
  have ht: "1 \<le> s_height s" "s_height s \<le> maxHeight" "Suc 0 \<le> ?N" using r by (auto simp: sl_rep_def Suc_le_eq)
  have nth: "(?ns @ [n]) ! a = ?ns ! a" if "a = 0 \<or> a \<in> set as" for a
    using that sub by (auto simp: nth_append)
  have eo: "entry_of ns' a = entry_of ?ns a" if "a \<in> set as" for a
    using that by (simp add: entry_of_def f nth)
  have eN: "entry_of ns' ?N = (key, value)" using n by (simp add: entry_of_def f)
  let ?as = "?L @ ?N # ?R" and ?lv = "lv(?N := i)"
  have lvas: "lv a \<le> max (s_height s) h" "1 \<le> lv a" "lv a \<le> length (n_next (?ns ! a))" "wf_ikey (n_key (?ns ! a))"
    if "a \<in> set as" for a using that r by (auto simp: sl_rep_def)
  have srt: "sorted_entries (map (entry_of ns') ?as)"
  proof -
    have "map (entry_of ns') ?as = insert_entry (key, value) (map (entry_of ?ns) as)"
      using eo eN by (simp add: insert_entry_split seek_entries_def takeWhile_map dropWhile_map o_def
          entry_before_entry_of cong: map_cong) (auto dest: set_takeWhileD set_dropWhileD)
    moreover have "\<forall>x \<in> set ((key, value) # map (entry_of ?ns) as). wf_entry x"
      using k lvas by (auto simp: wf_entry_def entry_of_def)
    ultimately show ?thesis using sorted_insert_entry r by (simp add: sl_rep_def)
  qed
  have ch: "chain (next_at ns' l) 0 (linked ?lv l ?as)" if "l < maxHeight" for l
    unfolding ns'_def by (rule publish_chain [OF r that h(2)]) (use prev nn n in \<open>auto simp: i_def\<close>)
  have hd0: "length (n_next (ns' ! 0)) = maxHeight" using r nth [of 0] by (simp add: f sl_rep_def)
  have "set ?L \<union> set ?R = set as" by (simp flip: set_append)
  then have set_as: "set ?as = insert ?N (set as)" by simp
  show ?thesis
  proof (cases "j = 0")
    case True
    have "linked ?lv l ?as = linked lv l as" for l
    proof -
      have "linked ?lv l ?as = linked ?lv l (?L @ ?R)" using True by (simp add: linked_def i_def del: takeWhile_dropWhile_id)
      also have "\<dots> = linked lv l as" unfolding takeWhile_dropWhile_id linked_def using sub by (intro filter_cong) auto
      finally show ?thesis .
    qed
    then have "\<forall>l < maxHeight. chain (next_at ns' l) 0 (linked lv l as)" using ch by simp
    moreover have "map (entry_of ns') as = map (entry_of ?ns) as" using eo by simp
    then have "sorted_entries (map (entry_of ns') as)" using r by (simp only: sl_rep_def)
    moreover have "set as \<subseteq> {1..<Suc ?N}" using sub(1) by (rule order_trans) auto
    ultimately have "sl_rep ns' (max (s_height s) h) lv as"
      unfolding sl_rep_def using ht sub(3) h hd0 lvas f(1) by (simp add: f(2,4) nth le_max_iff_disj)
    then have "sl_rep ns' (max (s_height s) h) lv (if j = 0 then as else ?as)" using True by simp
    then show ?thesis unfolding P using eo eN by (intro exI conjI ballI)
  next
    case False
    have "distinct (?L @ ?R)" "?N \<notin> set (?L @ ?R)" using sub by auto
    then have d: "distinct ?as" by (simp del: takeWhile_dropWhile_id)
    have i: "1 \<le> i" "i \<le> h" using False h by (auto simp: i_def)
    have nN: "(?ns @ [n]) ! ?N = n" by simp
    have a: "1 \<le> ?lv a \<and> ?lv a \<le> length (n_next (ns' ! a)) \<and> ?lv a \<le> max (s_height s) h \<and> wf_ikey (n_key (ns' ! a))"
      if "a \<in> set ?as" for a
    proof (cases "a = ?N")
      case True
      then show ?thesis using i n k by (simp add: f(2,4))
    next
      case False
      then have "a \<in> set as" using that unfolding set_as by simp
      then show ?thesis using False lvas by (simp add: f(2,4) nth)
    qed
    have "set ?as \<subseteq> {1..<Suc ?N}" unfolding set_as using sub ht by auto
    then have "sl_rep ns' (max (s_height s) h) ?lv ?as"
      unfolding sl_rep_def using ht h hd0 a d ch srt f(1) by (simp add: le_max_iff_disj del: takeWhile_dropWhile_id)
    then have "sl_rep ns' (max (s_height s) h) ?lv (if j = 0 then as else ?as)" using False by simp
    then show ?thesis unfolding P using eo eN by (intro exI conjI ballI)
  qed
qed

lemma publish_refines:
  assumes "sl_inv s" and "wf_ikey key"
  shows "sl_inv (insert_publish j s key value)
    \<and> sl_entries (insert_publish j s key value)
      = (if j = 0 then sl_entries s else insert_entry (key, value) (sl_entries s))"
proof -
  let ?s = "insert_publish j s key value" and ?ns = "s_nodes s"
  obtain lv as where r: "sl_rep ?ns (s_height s) lv as" and e: "sl_entries s = map (entry_of ?ns) as"
    using assms(1) by (rule sl_invE)
  let ?L = "takeWhile (below ?ns key) as" and ?R = "dropWhile (below ?ns key) as"
  let ?as = "if j = 0 then as else ?L @ length ?ns # ?R"
  obtain lv' where r': "sl_rep (s_nodes ?s) (s_height ?s) lv' ?as"
    and old: "\<And>a. a \<in> set as \<Longrightarrow> entry_of (s_nodes ?s) a = entry_of ?ns a"
    and new: "entry_of (s_nodes ?s) (length ?ns) = (key, value)"
    using publish_rep [OF r assms(2), of j "value"] by (elim exE conjE) (rule that, auto)
  have "sl_entries ?s = map (entry_of (s_nodes ?s)) ?as"
    using addresses_rep [OF r'] by (simp add: sl_entries_def entries_from_def)
  also have "\<dots> = (if j = 0 then sl_entries s else insert_entry (key, value) (sl_entries s))"
    unfolding e using old new
    by (auto simp: insert_entry_split seek_entries_def takeWhile_map dropWhile_map o_def entry_before_entry_of
        dest: set_takeWhileD set_dropWhileD)
  finally show ?thesis using sl_invI [OF r'] by simp
qed

lemma insert_publish_all: "skiplist_insert s key value = insert_publish maxHeight s key value"
proof -
  have "fst (randomHeight 1 (s_seed s)) \<le> maxHeight" using randomHeight_bounds [of 1 "s_seed s"] by (simp add: maxHeight_def)
  then show ?thesis
    by (simp add: skiplist_insert_def insert_publish_def insert_prepare_def Let_def split_beta min_absorb2)
qed

lemma insert_refines:
  assumes "sl_inv s" and "wf_ikey key"
  shows "sl_inv (skiplist_insert s key value)"
    and "sl_entries (skiplist_insert s key value) = insert_entry (key, value) (sl_entries s)"
  using publish_refines [OF assms, of maxHeight "value"] by (simp_all add: insert_publish_all maxHeight_def)

lemma sl_inv_new [simp]: "sl_inv (newSkiplist seed)"
  by (rule sl_invI [where lv = "\<lambda>_. 0" and as = "[]"])
    (simp add: newSkiplist_def sl_rep_def linked_def next_at_def maxHeight_def sorted_entries_def)

lemma sl_entries_new [simp]: "sl_entries (newSkiplist seed) = []"
  by (simp add: sl_entries_def entries_from_def addresses_from_def skiplist_first_def newSkiplist_def maxHeight_def)

lemma sl_entries_sorted: "sl_inv s \<Longrightarrow> sorted_entries (sl_entries s)"
  by (erule sl_invE) (simp add: sl_rep_def)

lemma sl_entries_wf: "sl_inv s \<Longrightarrow> e \<in> set (sl_entries s) \<Longrightarrow> wf_entry e"
  by (erule sl_invE) (auto simp: sl_rep_def wf_entry_def entry_of_def)

section \<open>The iterator\<close>

definition si_entries :: "skiplistIter \<Rightarrow> entry list" where
  "si_entries it = sl_entries (si_list it)"

definition si_rest :: "skiplistIter \<Rightarrow> entry list" where
  "si_rest it = entries_from (si_list it) (si_cur it)"

definition si_inv :: "skiplistIter \<Rightarrow> bool" where
  "si_inv it \<longleftrightarrow> sl_inv (si_list it)
     \<and> (\<exists>n. addresses_from (si_list it) (si_cur it)
          = drop n (addresses_from (si_list it) (skiplist_first (si_list it))))"

lemma sl_inv_nonempty: "sl_inv s \<Longrightarrow> \<exists>n ns. s_nodes s = n # ns"
  by (erule sl_invE) (auto simp: sl_rep_def neq_Nil_conv)

lemma addresses_from_None: "addresses_from s None = []"
  by (cases "length (s_nodes s)") (auto simp: addresses_from_def)

lemma addresses_from_Some: "sl_inv s \<Longrightarrow> \<exists>bs. addresses_from s (Some a) = a # bs"
  by (drule sl_inv_nonempty) (auto simp: addresses_from_def)

lemma addresses_next:
  assumes "sl_inv s" and "drop n (addresses_from s (skiplist_first s)) = a # bs"
  shows "addresses_from s (n_next (s_nodes s ! a) ! 0) = bs"
proof -
  obtain lv as where r: "sl_rep (s_nodes s) (s_height s) lv as" and as: "addresses_from s (skiplist_first s) = as"
    using assms(1) by (rule sl_invE)
  have d: "drop n as = a # bs" using assms(2) by (simp only: as)
  have sp: "as = (take n as @ [a]) @ bs" by (simp flip: d)
  then have "chain (next_at (s_nodes s) 0) 0 ((take n as @ [a]) @ bs)" using sl_rep_chain0 [OF r] by (simp flip: sp)
  from chain_append [OF this] have "chain (next_at (s_nodes s) 0) a bs" by simp
  moreover have "length bs \<le> length (s_nodes s)" using sl_rep_length [OF r] arg_cong [OF d, of length] by simp
  ultimately show ?thesis using follow_chain by (simp add: addresses_from_def next_at_def)
qed

lemma si_invI:
  "sl_inv s \<Longrightarrow> addresses_from s p = drop n (addresses_from s (skiplist_first s)) \<Longrightarrow> si_inv \<lparr>si_list = s, si_cur = p\<rparr>"
  by (auto simp: si_inv_def)

lemma si_invE:
  assumes "si_inv it"
  obtains s p n where "it = \<lparr>si_list = s, si_cur = p\<rparr>" "sl_inv s"
    "addresses_from s p = drop n (addresses_from s (skiplist_first s))"
  using assms by (cases it) (auto simp: si_inv_def)

lemma si_rest_drop: "si_inv it \<Longrightarrow> \<exists>n. si_rest it = drop n (si_entries it)"
proof (erule si_invE)
  fix s p n
  assume "it = \<lparr>si_list = s, si_cur = p\<rparr>" "addresses_from s p = drop n (addresses_from s (skiplist_first s))"
  then show ?thesis
    by (intro exI [of _ n]) (simp add: si_rest_def si_entries_def sl_entries_def entries_from_def drop_map)
qed

lemma si_first:
  "si_inv it \<Longrightarrow> si_inv (it_seekToFirst skiplist_ops it) \<and> si_entries (it_seekToFirst skiplist_ops it) = si_entries it
     \<and> si_rest (it_seekToFirst skiplist_ops it) = si_entries it"
  by (erule si_invE)
    (simp add: skiplist_ops_def si_entries_def si_rest_def sl_entries_def si_invI [of _ _ 0])

lemma si_seek:
  assumes "si_inv it" and k: "wf_ikey k"
  shows "si_inv (it_seek skiplist_ops k it) \<and> si_entries (it_seek skiplist_ops k it) = si_entries it
     \<and> si_rest (it_seek skiplist_ops k it) = seek_entries k (si_entries it)"
proof -
  obtain s p where it: "it = \<lparr>si_list = s, si_cur = p\<rparr>" "sl_inv s" using assms(1) by (rule si_invE)
  obtain lv as where r: "sl_rep (s_nodes s) (s_height s) lv as" "addresses_from s (skiplist_first s) = as"
    using it(2) by (rule sl_invE)
  have "addresses_from s (skiplist_seek s k)
      = drop (length (takeWhile (below (s_nodes s) k) as)) (addresses_from s (skiplist_first s))"
    using seek_addresses [OF r(1) k] r(2) by (simp add: dropWhile_eq_drop)
  from si_invI [OF it(2) this] show ?thesis
    using seek_refines [OF it(2) k] by (simp add: it(1) skiplist_ops_def si_entries_def si_rest_def)
qed

lemma si_valid: "si_inv it \<Longrightarrow> it_valid skiplist_ops it \<longleftrightarrow> si_rest it \<noteq> []"
proof (erule si_invE)
  fix s p n
  assume it: "it = \<lparr>si_list = s, si_cur = p\<rparr>" "sl_inv s"
  show ?thesis
  proof (cases p)
    case (Some a)
    then show ?thesis
      using addresses_from_Some [OF it(2), of a] by (auto simp: it(1) skiplist_ops_def si_rest_def entries_from_def)
  qed (simp add: it(1) skiplist_ops_def si_rest_def entries_from_def addresses_from_None)
qed

lemma si_cur_at:
  assumes "si_inv it" and "si_rest it \<noteq> []"
  obtains s a n bs where "it = \<lparr>si_list = s, si_cur = Some a\<rparr>" "sl_inv s" "addresses_from s (Some a) = a # bs"
    "drop n (addresses_from s (skiplist_first s)) = a # bs"
proof -
  obtain s p n where it: "it = \<lparr>si_list = s, si_cur = p\<rparr>" "sl_inv s"
    "addresses_from s p = drop n (addresses_from s (skiplist_first s))"
    using assms(1) by (rule si_invE)
  obtain a where a: "p = Some a"
    using assms(2) it(1) by (cases p) (auto simp: si_rest_def entries_from_def addresses_from_None)
  obtain bs where bs: "addresses_from s (Some a) = a # bs" using addresses_from_Some [OF it(2), of a] by blast
  show ?thesis by (rule that [of s a bs n]) (use it a bs in simp_all)
qed

lemma si_step:
  assumes "si_inv it" and "si_rest it \<noteq> []"
  shows "si_inv (it_next skiplist_ops it) \<and> si_entries (it_next skiplist_ops it) = si_entries it
     \<and> si_rest (it_next skiplist_ops it) = tl (si_rest it)"
proof -
  obtain s a n bs where it: "it = \<lparr>si_list = s, si_cur = Some a\<rparr>" "sl_inv s" "addresses_from s (Some a) = a # bs"
    "drop n (addresses_from s (skiplist_first s)) = a # bs"
    using assms by (rule si_cur_at)
  have nx: "addresses_from s (n_next (s_nodes s ! a) ! 0) = bs" using it(2,4) by (rule addresses_next)
  also have "bs = drop (Suc n) (addresses_from s (skiplist_first s))"
    using arg_cong [OF it(4), of tl] by (simp add: drop_Suc tl_drop)
  finally have "si_inv \<lparr>si_list = s, si_cur = n_next (s_nodes s ! a) ! 0\<rparr>" using it(2) by (intro si_invI)
  then show ?thesis
    using it(3) nx by (simp add: it(1) skiplist_ops_def si_entries_def si_rest_def entries_from_def)
qed

lemma si_current:
  assumes "si_inv it" and "si_rest it \<noteq> []"
  shows "(it_key skiplist_ops it, it_value skiplist_ops it) = hd (si_rest it)"
proof -
  obtain s a n bs where it: "it = \<lparr>si_list = s, si_cur = Some a\<rparr>" "addresses_from s (Some a) = a # bs"
    using assms by (rule si_cur_at)
  then show ?thesis by (simp add: skiplist_ops_def si_rest_def entries_from_def entry_of_def)
qed

interpretation sli: internal_iter skiplist_ops si_entries si_rest si_inv
proof (unfold_locales, goal_cases)
  case (1 it) then show ?case by (simp add: si_inv_def si_entries_def sl_entries_sorted)
next
  case (2 it e) then show ?case using sl_entries_wf [of "si_list it" e] by (simp add: si_inv_def si_entries_def)
next
  case (9 it) then show ?case by (simp add: skiplist_ops_def)
qed (fact si_rest_drop si_first si_seek si_valid si_step si_current)+

section \<open>Properties\<close>

text \<open>
  C24: inserting into the linked structure is inserting into the sorted list of its entries,
  whatever height the random generator gives the node, and keeps the structure well formed.
\<close>

theorem skiplist_insert_refines:
  assumes "sl_inv s" and "wf_ikey key"
  shows "sl_inv (skiplist_insert s key val)
    \<and> sl_entries (skiplist_insert s key val) = insert_entry (key, val) (sl_entries s)
    \<and> sorted_entries (sl_entries (skiplist_insert s key val))"
  using insert_refines [OF assms, of val] sl_entries_sorted [of "skiplist_insert s key val"] by simp

theorem skiplist_insert_refines_witness:
  "sl_inv (skiplist_insert (newSkiplist 7) (makeInternalKey [0x61] 3 kindPut) [1])
    \<and> sl_entries (skiplist_insert (newSkiplist 7) (makeInternalKey [0x61] 3 kindPut) [1])
      = insert_entry (makeInternalKey [0x61] 3 kindPut, [1]) (sl_entries (newSkiplist 7))
    \<and> sorted_entries (sl_entries (skiplist_insert (newSkiplist 7) (makeInternalKey [0x61] 3 kindPut) [1]))"
  by (rule skiplist_insert_refines) simp_all

text \<open>
  C25: a reader may search between any two of the stores that publish a new node. Before the
  first store it finds the position in the old list, from then on the position in the new
  list: the insertion takes effect at the store to level 0.
\<close>

theorem skiplist_seek_while_publishing:
  assumes "sl_inv s" and "wf_ikey key" and "wf_ikey target"
  shows "entries_from (insert_publish j s key val) (skiplist_seek (insert_publish j s key val) target)
    = seek_entries target (if j = 0 then sl_entries s else insert_entry (key, val) (sl_entries s))"
  using publish_refines [OF assms(1,2), of j val] seek_refines [OF _ assms(3)] by simp

theorem skiplist_seek_while_publishing_witness:
  "entries_from (insert_publish 1 (newSkiplist 7) (makeInternalKey [0x61] 3 kindPut) [1])
      (skiplist_seek (insert_publish 1 (newSkiplist 7) (makeInternalKey [0x61] 3 kindPut) [1])
        (makeInternalKey [0x61] 9 kindPut))
    = seek_entries (makeInternalKey [0x61] 9 kindPut)
        (if (1 :: nat) = 0 then sl_entries (newSkiplist 7)
         else insert_entry (makeInternalKey [0x61] 3 kindPut, [1]) (sl_entries (newSkiplist 7)))"
  by (rule skiplist_seek_while_publishing) simp_all

end
