(* ===== verification/Memtable.thy ===== *)
theory Memtable
  imports Skiplist
begin

text \<open>
  The memtable (\<open>src/storage/memtable.go\<close>): a skip list of versions with the WAL segment it
  mirrors, an approximate size and the largest sequence number. A lookup seeks to the newest
  version a reader may see.
\<close>

section \<open>Model\<close>

record memtable =
  mt_list :: skiplist
  mt_seg :: nat
  mt_size :: nat
  mt_maxSeq :: u64

definition newMemtable :: "u64 \<Rightarrow> nat \<Rightarrow> memtable" where
  "newMemtable seed seg = \<lparr>mt_list = newSkiplist seed, mt_seg = seg, mt_size = 0, mt_maxSeq = 0\<rparr>"

definition memtable_put :: "memtable \<Rightarrow> u64 \<Rightarrow> keyKind \<Rightarrow> bytes \<Rightarrow> bytes \<Rightarrow> memtable" where
  "memtable_put m seq kind key val =
     (let ik = makeInternalKey key seq kind;
          v = (if kind = kindPut then val else [])
      in m\<lparr>mt_list := skiplist_insert (mt_list m) ik v,
           mt_size := mt_size m + length ik + length v + 64,
           mt_maxSeq := (if mt_maxSeq m < seq then seq else mt_maxSeq m)\<rparr>)"

text \<open>The results \<open>(value, found, deleted)\<close> of a lookup.\<close>

definition memtable_get :: "memtable \<Rightarrow> bytes \<Rightarrow> u64 \<Rightarrow> bytes \<times> bool \<times> bool" where
  "memtable_get m key seq =
     (case skiplist_seek (mt_list m) (makeInternalKey key seq kindPut) of
        None \<Rightarrow> ([], False, False)
      | Some a \<Rightarrow>
          let n = s_nodes (mt_list m) ! a; (user, _, kind) = splitInternalKey (n_key n)
          in if user \<noteq> key then ([], False, False)
             else if kind = kindDelete then ([], True, True)
             else (n_value n, True, False))"

definition memtable_iter :: "memtable \<Rightarrow> skiplistIter" where
  "memtable_iter m = \<lparr>si_list = mt_list m, si_cur = None\<rparr>"

section \<open>The versions of a memtable\<close>

definition mt_entries :: "memtable \<Rightarrow> entry list" where
  "mt_entries m = sl_entries (mt_list m)"

definition mt_inv :: "memtable \<Rightarrow> bool" where
  "mt_inv m \<longleftrightarrow> sl_inv (mt_list m) \<and> (\<forall>e \<in> set (mt_entries m). engine_key (fst e))
     \<and> (\<forall>e \<in> set (mt_entries m). key_seq (fst e) \<le> mt_maxSeq m)"

definition op_entry :: "u64 \<Rightarrow> keyKind \<Rightarrow> bytes \<Rightarrow> bytes \<Rightarrow> entry" where
  "op_entry seq kind key val = (makeInternalKey key seq kind, if kind = kindPut then val else [])"

lemma key_seq_make [simp]: "unat s < 2 ^ 56 \<Longrightarrow> key_seq (makeInternalKey u s k) = s"
  by (simp add: key_seq_def)

lemma key_kind_make [simp]: "unat s < 2 ^ 56 \<Longrightarrow> key_kind (makeInternalKey u s k) = k"
  by (simp add: key_kind_def)

lemma engine_key_make [simp]:
  "unat s < 2 ^ 56 \<Longrightarrow> engine_key (makeInternalKey u s k) \<longleftrightarrow> k = kindDelete \<or> k = kindPut"
  by (simp add: engine_key_def)

lemma mt_inv_new [simp]: "mt_inv (newMemtable seed seg)"
  by (simp add: mt_inv_def mt_entries_def newMemtable_def)

lemma mt_entries_new [simp]: "mt_entries (newMemtable seed seg) = []"
  by (simp add: mt_entries_def newMemtable_def)

lemma mt_entries_put:
  "mt_inv m \<Longrightarrow> mt_entries (memtable_put m seq kind key val) = insert_entry (op_entry seq kind key val) (mt_entries m)"
  by (simp add: mt_inv_def mt_entries_def memtable_put_def op_entry_def Let_def insert_refines)

lemma mt_inv_put:
  assumes "mt_inv m" and "unat seq < 2 ^ 56" and "kind = kindDelete \<or> kind = kindPut"
  shows "mt_inv (memtable_put m seq kind key val)"
proof -
  have "sl_inv (mt_list (memtable_put m seq kind key val))"
    using assms by (simp add: mt_inv_def memtable_put_def Let_def insert_refines)
  moreover have "engine_key (fst e) \<and> key_seq (fst e) \<le> mt_maxSeq (memtable_put m seq kind key val)"
    if "e \<in> set (mt_entries (memtable_put m seq kind key val))" for e
  proof -
    have "e = op_entry seq kind key val \<or> e \<in> set (mt_entries m)"
      using that by (simp add: mt_entries_put [OF assms(1)])
    then show ?thesis
      using assms by (auto simp: op_entry_def mt_inv_def memtable_put_def Let_def intro: order_trans order_less_imp_le)
  qed
  ultimately show ?thesis by (auto simp: mt_inv_def)
qed

lemma mt_entries_sorted: "mt_inv m \<Longrightarrow> sorted_entries (mt_entries m)"
  by (simp add: mt_inv_def mt_entries_def sl_entries_sorted)

lemma memtable_iter_inv: "mt_inv m \<Longrightarrow> si_inv (memtable_iter m)"
proof -
  assume "mt_inv m"
  then have s: "sl_inv (mt_list m)" by (simp add: mt_inv_def)
  have "addresses_from (mt_list m) None
      = drop (length (addresses_from (mt_list m) (skiplist_first (mt_list m))))
          (addresses_from (mt_list m) (skiplist_first (mt_list m)))"
    by (simp add: addresses_from_None)
  from si_invI [OF s this] show ?thesis by (simp add: memtable_iter_def)
qed

lemma memtable_iter_entries [simp]: "si_entries (memtable_iter m) = mt_entries m"
  by (simp add: memtable_iter_def si_entries_def mt_entries_def)

lemma memtable_get_newest:
  assumes "mt_inv m" and "unat seq < 2 ^ 56"
  shows "memtable_get m key seq = version_result (newest_version key seq (mt_entries m))"
proof -
  let ?s = "mt_list m" and ?k = "makeInternalKey key seq kindPut"
  have s: "sl_inv ?s" using assms by (simp add: mt_inv_def)
  have nv: "newest_version key seq (mt_entries m) =
      (case entries_from ?s (skiplist_seek ?s ?k) of [] \<Rightarrow> None | x # _ \<Rightarrow> if userKey (fst x) = key then Some x else None)"
    using seek_newest_version [of "mt_entries m" seq key] assms seek_refines [OF s, of ?k]
    by (simp add: mt_inv_def mt_entries_def sl_entries_sorted)
  show ?thesis
  proof (cases "skiplist_seek ?s ?k")
    case None
    then show ?thesis by (simp add: nv memtable_get_def version_result_def entries_from_def addresses_from_None)
  next
    case (Some a)
    obtain bs where "addresses_from ?s (Some a) = a # bs" using addresses_from_Some [OF s, of a] by blast
    then show ?thesis
      by (simp add: nv Some memtable_get_def version_result_def entries_from_def entry_of_def splitInternalKey_conv)
  qed
qed

section \<open>Properties\<close>

text \<open>
  C26: a lookup in a memtable answers with the newest version of the key at or below the
  reader's sequence number: no version the reader may see is newer than the one returned, and
  when nothing is found no version qualifies.
\<close>

theorem memtable_get_returns_newest:
  assumes "mt_inv m" and "unat seq < 2 ^ 56" and "memtable_get m key seq = (v, found, deleted)"
  shows "if found
    then \<exists>e \<in> set (mt_entries m). is_version key seq e \<and> (deleted \<longleftrightarrow> key_kind (fst e) = kindDelete)
        \<and> (\<not> deleted \<longrightarrow> v = snd e)
        \<and> (\<forall>x \<in> set (mt_entries m). is_version key seq x \<longrightarrow> key_seq (fst x) \<le> key_seq (fst e))
    else \<forall>x \<in> set (mt_entries m). \<not> is_version key seq x"
proof (cases "newest_version key seq (mt_entries m)")
  case None
  then have "\<forall>x \<in> set (mt_entries m). \<not> is_version key seq x" by (auto simp: newest_version_def find_None_iff)
  then show ?thesis using None memtable_get_newest [OF assms(1,2), of key] assms(3) by (simp add: version_result_def)
next
  case (Some e)
  then have "e \<in> set (mt_entries m) \<and> is_version key seq e"
    by (auto simp: newest_version_def dest!: find_split)
  moreover have "\<forall>x \<in> set (mt_entries m). is_version key seq x \<longrightarrow> key_seq (fst x) \<le> key_seq (fst e)"
    using newest_version_max [OF mt_entries_sorted [OF assms(1)] Some] by blast
  ultimately show ?thesis
    using Some memtable_get_newest [OF assms(1,2), of key] assms(3)
    by (auto simp: version_result_def split: if_splits)
qed

theorem memtable_get_returns_newest_witness:
  "\<exists>v found deleted. memtable_get (memtable_put (newMemtable 1 1) 5 kindPut [0x61] [9]) [0x61] 7 = (v, found, deleted) \<and>
   (if found
    then \<exists>e \<in> set (mt_entries (memtable_put (newMemtable 1 1) 5 kindPut [0x61] [9])). is_version [0x61] 7 e
        \<and> (deleted \<longleftrightarrow> key_kind (fst e) = kindDelete) \<and> (\<not> deleted \<longrightarrow> v = snd e)
        \<and> (\<forall>x \<in> set (mt_entries (memtable_put (newMemtable 1 1) 5 kindPut [0x61] [9])).
             is_version [0x61] 7 x \<longrightarrow> key_seq (fst x) \<le> key_seq (fst e))
    else \<forall>x \<in> set (mt_entries (memtable_put (newMemtable 1 1) 5 kindPut [0x61] [9])). \<not> is_version [0x61] 7 x)"
proof -
  let ?m = "memtable_put (newMemtable 1 1) 5 kindPut [0x61] [9]"
  have m: "mt_inv ?m" by (rule mt_inv_put) simp_all
  obtain v f d where g: "memtable_get ?m [0x61] 7 = (v, f, d)" by (metis surj_pair)
  from memtable_get_returns_newest [OF m _ g] g show ?thesis by (intro exI conjI) simp_all
qed

text \<open>
  C27: writing an operation makes it the answer for its key to every reader at or above its
  sequence number, and changes no other key.
\<close>

theorem memtable_get_put:
  assumes "mt_inv m" and "mt_maxSeq m < seq" and "unat seq < 2 ^ 56" and "unat q < 2 ^ 56"
    and "kind = kindDelete \<or> kind = kindPut"
  shows "memtable_get (memtable_put m seq kind key val) k q =
    (if k = key \<and> seq \<le> q then (if kind = kindDelete then ([], True, True) else (val, True, False))
     else memtable_get m k q)"
proof -
  let ?e = "op_entry seq kind key val" and ?es = "mt_entries m"
  have e: "is_version k q ?e \<longleftrightarrow> k = key \<and> seq \<le> q" "key_kind (fst ?e) = kind" "snd ?e = (if kind = kindPut then val else [])"
    using assms(3) by (auto simp: op_entry_def is_version_def)
  have older: "\<not> is_version k q x" if "k = key" "entry_before x (fst ?e)" "x \<in> set ?es" for x
  proof
    assume v: "is_version k q x"
    then have "key_trailer (fst x) > trailer_word seq kind"
      using that bc.cmp_refl [of key] by (auto simp: entry_before_def op_entry_def compareInternalKey_less is_version_def)
    then have "256 * unat seq + unat kind < 256 * unat (key_seq (fst x)) + unat (key_kind (fst x))"
      using assms(3) by (simp add: word_less_nat_alt unat_key_trailer unat_trailer_word)
    moreover have "unat (key_seq (fst x)) < unat seq"
      using assms(1,2) that(3) by (auto simp: mt_inv_def word_less_nat_alt word_le_nat_alt)
    moreover have "unat (key_kind (fst x)) < 256" using unsigned_less [of "key_kind (fst x)"] by simp
    ultimately show False by linarith
  qed
  have "newest_version k q (insert_entry ?e es) = (if k = key \<and> seq \<le> q then Some ?e else newest_version k q es)"
    if "set es \<subseteq> set ?es" for es
    using that e(1) older by (induction es) (auto simp: newest_version_def)
  then have "newest_version k q (mt_entries (memtable_put m seq kind key val))
      = (if k = key \<and> seq \<le> q then Some ?e else newest_version k q ?es)"
    by (simp add: mt_entries_put [OF assms(1)])
  then show ?thesis
    using memtable_get_newest [OF mt_inv_put [OF assms(1,3,5)] assms(4), of key val k] memtable_get_newest [OF assms(1,4), of k]
      e(2,3) assms(5) by (auto simp: version_result_def kindPut_def kindDelete_def)
qed

theorem memtable_get_put_witness:
  "memtable_get (memtable_put (newMemtable 1 1) 5 kindPut [0x61] [9]) [0x61] 7 =
    (if [0x61 :: u8] = [0x61] \<and> (5 :: u64) \<le> 7 then (if kindPut = kindDelete then ([], True, True) else ([9], True, False))
     else memtable_get (newMemtable 1 1) [0x61] 7)"
  by (rule memtable_get_put) (simp_all add: newMemtable_def mt_inv_new [unfolded newMemtable_def])

end
