(* ===== verification/Heap.thy ===== *)
theory Heap
  imports Prelude "HOL-Library.Multiset"
begin

text \<open>
  The operations of Go's \<open>container/heap\<close> that the merge iterator calls (\<open>heap.Init\<close>, \<open>heap.Fix\<close>,
  \<open>heap.Pop\<close>), over a list in array order and an arbitrary \<open>Less\<close>. The lemmas show that the
  operations keep the elements, restore the heap order and put a least element at the root,
  for every \<open>Less\<close> that is a total preorder on the elements.
\<close>

section \<open>Model\<close>

definition heap_swap :: "'a list \<Rightarrow> nat \<Rightarrow> nat \<Rightarrow> 'a list" where
  "heap_swap xs i j = xs[i := xs ! j, j := xs ! i]"

definition min_child :: "('a \<Rightarrow> 'a \<Rightarrow> bool) \<Rightarrow> 'a list \<Rightarrow> nat \<Rightarrow> nat \<Rightarrow> nat" where
  "min_child lt xs i n =
     (if 2 * i + 2 < n \<and> lt (xs ! (2 * i + 2)) (xs ! (2 * i + 1)) then 2 * i + 2 else 2 * i + 1)"

text \<open>\<open>down\<close> returns the array and the position at which the element came to rest.\<close>

function heap_down :: "('a \<Rightarrow> 'a \<Rightarrow> bool) \<Rightarrow> 'a list \<Rightarrow> nat \<Rightarrow> nat \<Rightarrow> 'a list \<times> nat" where
  "heap_down lt xs i n =
     (if 2 * i + 1 \<ge> n then (xs, i)
      else let j = min_child lt xs i n
        in if \<not> lt (xs ! j) (xs ! i) then (xs, i)
           else heap_down lt (heap_swap xs i j) j n)"
  by pat_completeness auto
termination
  by (relation "measure (\<lambda>(lt, xs, i, n). n - i)") (auto simp: min_child_def split: if_splits)

function heap_up :: "('a \<Rightarrow> 'a \<Rightarrow> bool) \<Rightarrow> 'a list \<Rightarrow> nat \<Rightarrow> 'a list" where
  "heap_up lt xs j =
     (let i = (j - 1) div 2
      in if i = j \<or> \<not> lt (xs ! j) (xs ! i) then xs else heap_up lt (heap_swap xs i j) i)"
  by pat_completeness auto
termination
  by (relation "measure (\<lambda>(lt, xs, j). j)") auto

declare heap_down.simps [simp del] heap_up.simps [simp del]

lemma heap_down_stop:
  "2 * i + 1 \<ge> n \<or> \<not> lt (xs ! min_child lt xs i n) (xs ! i) \<Longrightarrow> heap_down lt xs i n = (xs, i)"
  by (subst heap_down.simps) (auto simp: Let_def)

lemma heap_down_go:
  "2 * i + 1 < n \<Longrightarrow> lt (xs ! min_child lt xs i n) (xs ! i) \<Longrightarrow>
   heap_down lt xs i n = heap_down lt (heap_swap xs i (min_child lt xs i n)) (min_child lt xs i n) n"
  by (subst heap_down.simps) (simp add: Let_def)

definition heap_init :: "('a \<Rightarrow> 'a \<Rightarrow> bool) \<Rightarrow> 'a list \<Rightarrow> 'a list" where
  "heap_init lt xs = foldr (\<lambda>i ys. fst (heap_down lt ys i (length xs))) [0..<length xs div 2] xs"

definition heap_fix :: "('a \<Rightarrow> 'a \<Rightarrow> bool) \<Rightarrow> 'a list \<Rightarrow> nat \<Rightarrow> 'a list" where
  "heap_fix lt xs i =
     (let (ys, j) = heap_down lt xs i (length xs)
      in if j > i then ys else heap_up lt ys i)"

text \<open>\<open>heap.Pop\<close> without its result, which the merge iterator ignores.\<close>

definition heap_pop :: "('a \<Rightarrow> 'a \<Rightarrow> bool) \<Rightarrow> 'a list \<Rightarrow> 'a list" where
  "heap_pop lt xs =
     (let n = length xs - 1
      in butlast (fst (heap_down lt (heap_swap xs 0 n) 0 n)))"

section \<open>The heap order\<close>

definition total_less :: "('a \<Rightarrow> 'a \<Rightarrow> bool) \<Rightarrow> 'a set \<Rightarrow> bool" where
  "total_less lt S \<longleftrightarrow>
     (\<forall>x \<in> S. \<forall>y \<in> S. lt x y \<longrightarrow> \<not> lt y x)
     \<and> (\<forall>x \<in> S. \<forall>y \<in> S. \<forall>z \<in> S. \<not> lt y x \<longrightarrow> \<not> lt z y \<longrightarrow> \<not> lt z x)"

lemma total_less_asym: "total_less lt S \<Longrightarrow> x \<in> S \<Longrightarrow> y \<in> S \<Longrightarrow> lt x y \<Longrightarrow> \<not> lt y x"
  unfolding total_less_def by blast

lemma total_less_trans:
  "total_less lt S \<Longrightarrow> x \<in> S \<Longrightarrow> y \<in> S \<Longrightarrow> z \<in> S \<Longrightarrow> \<not> lt y x \<Longrightarrow> \<not> lt z y \<Longrightarrow> \<not> lt z x"
  unfolding total_less_def by blast

definition child_ok :: "('a \<Rightarrow> 'a \<Rightarrow> bool) \<Rightarrow> 'a list \<Rightarrow> nat \<Rightarrow> bool" where
  "child_ok lt xs k \<longleftrightarrow> \<not> lt (xs ! k) (xs ! ((k - 1) div 2))"

definition heap_from :: "('a \<Rightarrow> 'a \<Rightarrow> bool) \<Rightarrow> 'a list \<Rightarrow> nat \<Rightarrow> nat \<Rightarrow> bool" where
  "heap_from lt xs n i \<longleftrightarrow> (\<forall>k. 0 < k \<longrightarrow> k < n \<longrightarrow> i \<le> (k - 1) div 2 \<longrightarrow> child_ok lt xs k)"

lemma heap_mset_swap [simp]: "i < length xs \<Longrightarrow> j < length xs \<Longrightarrow> mset (heap_swap xs i j) = mset xs"
  unfolding heap_swap_def by (rule mset_swap)

lemma length_heap_swap [simp]: "length (heap_swap xs i j) = length xs"
  by (simp add: heap_swap_def)

lemma nth_heap_swap:
  "i < length xs \<Longrightarrow> j < length xs \<Longrightarrow>
   heap_swap xs i j ! k = (if k = j then xs ! i else if k = i then xs ! j else xs ! k)"
  by (auto simp: heap_swap_def nth_list_update)

lemma parent_child: "0 < (k :: nat) \<Longrightarrow> (k - 1) div 2 = i \<longleftrightarrow> k = 2 * i + 1 \<or> k = 2 * i + 2"
  by presburger

lemma heap_down_frame:
  assumes "n \<le> length xs"
  shows "mset (fst (heap_down lt xs i n)) = mset xs \<and> length (fst (heap_down lt xs i n)) = length xs
    \<and> (\<forall>k \<ge> n. fst (heap_down lt xs i n) ! k = xs ! k)"
  using assms
proof (induction lt xs i n rule: heap_down.induct)
  case (1 lt xs i n)
  let ?j = "min_child lt xs i n"
  show ?case
  proof (cases "2 * i + 1 \<ge> n \<or> \<not> lt (xs ! ?j) (xs ! i)")
    case True
    then show ?thesis by (simp add: heap_down_stop)
  next
    case False
    then have ij: "i < n" "?j < n" by (auto simp: min_child_def)
    have "heap_down lt xs i n = heap_down lt (heap_swap xs i ?j) ?j n"
      using False by (intro heap_down_go) auto
    then show ?thesis using 1 False ij by (simp add: nth_heap_swap)
  qed
qed

lemma min_child_least:
  assumes t: "total_less lt (set xs)" and "n \<le> length xs" and "2 * i + 1 < n"
    and "k < n" and k: "k = 2 * i + 1 \<or> k = 2 * i + 2"
  shows "\<not> lt (xs ! k) (xs ! min_child lt xs i n)"
proof -
  let ?a = "xs ! (2 * i + 1)" and ?b = "xs ! (2 * i + 2)"
  have ka: "xs ! k \<in> set xs" "?a \<in> set xs" using assms by auto
  have refl: "\<not> lt x x" if "x \<in> set xs" for x using total_less_asym [OF t that that] by blast
  show ?thesis
  proof (cases "2 * i + 2 < n \<and> lt ?b ?a")
    case True
    then have "?b \<in> set xs" using assms(2) by simp
    then have "\<not> lt ?a ?b" "\<not> lt ?b ?b" using total_less_asym [OF t _ ka(2), of ?b] True refl by blast+
    then show ?thesis using True k by (auto simp: min_child_def)
  next
    case False
    then have "min_child lt xs i n = 2 * i + 1" by (simp add: min_child_def)
    then show ?thesis using False k assms(4) refl [OF ka(2)] by auto
  qed
qed

text \<open>
  The invariant of \<open>down\<close>: below \<open>i0\<close> every child is in order except possibly the children of the
  current position, and those are in order with the parent of that position.
\<close>

definition sift_inv :: "('a \<Rightarrow> 'a \<Rightarrow> bool) \<Rightarrow> 'a list \<Rightarrow> nat \<Rightarrow> nat \<Rightarrow> nat \<Rightarrow> bool" where
  "sift_inv lt xs n i0 i \<longleftrightarrow>
     (\<forall>k. 0 < k \<longrightarrow> k < n \<longrightarrow> i0 \<le> (k - 1) div 2 \<longrightarrow> (k - 1) div 2 \<noteq> i \<longrightarrow> child_ok lt xs k)
     \<and> (\<forall>k. 0 < k \<longrightarrow> k < n \<longrightarrow> (k - 1) div 2 = i \<longrightarrow> 0 < i \<longrightarrow> i0 \<le> (i - 1) div 2
          \<longrightarrow> \<not> lt (xs ! k) (xs ! ((i - 1) div 2)))"

lemma sift_inv_stop:
  assumes t: "total_less lt (set xs)" and n: "n \<le> length xs" and s: "sift_inv lt xs n i0 i"
    and stop: "2 * i + 1 \<ge> n \<or> \<not> lt (xs ! min_child lt xs i n) (xs ! i)"
  shows "heap_from lt xs n i0"
  unfolding heap_from_def
proof (intro allI impI)
  fix k assume k: "0 < k" "k < n" "i0 \<le> (k - 1) div 2"
  show "child_ok lt xs k"
  proof (cases "(k - 1) div 2 = i")
    case True
    then have c: "k = 2 * i + 1 \<or> k = 2 * i + 2" using k parent_child by blast
    then have lt: "2 * i + 1 < n" using k by auto
    let ?m = "min_child lt xs i n"
    have "?m < n" using lt by (auto simp: min_child_def)
    then have "xs ! k \<in> set xs" "xs ! ?m \<in> set xs" "xs ! i \<in> set xs" using k lt n by auto
    then have "\<not> lt (xs ! k) (xs ! i)"
      using total_less_trans [OF t, of "xs ! i" "xs ! ?m" "xs ! k"] min_child_least [OF t n lt k(2) c] stop lt by auto
    then show ?thesis using True by (simp add: child_ok_def)
  next
    case False
    then show ?thesis using s k by (simp add: sift_inv_def)
  qed
qed

lemma sift_inv_step:
  assumes t: "total_less lt (set xs)" and n: "n \<le> length xs" and s: "sift_inv lt xs n i0 i" and i0: "i0 \<le> i"
    and go: "2 * i + 1 < n" "lt (xs ! j) (xs ! i)" and j: "j = min_child lt xs i n"
  shows "sift_inv lt (heap_swap xs i j) n i0 j"
proof -
  have jc: "j = 2 * i + 1 \<or> j = 2 * i + 2" "j < n" "i < n" "i \<noteq> j" using j go by (auto simp: min_child_def)
  have pj: "(j - 1) div 2 = i" using jc by auto
  have nth: "heap_swap xs i j ! k = (if k = j then xs ! i else if k = i then xs ! j else xs ! k)" for k
    using jc n by (simp add: nth_heap_swap)
  have mem: "xs ! j \<in> set xs" "xs ! i \<in> set xs" using jc n by auto
  have A: "child_ok lt (heap_swap xs i j) k"
    if k: "0 < k" "k < n" "i0 \<le> (k - 1) div 2" "(k - 1) div 2 \<noteq> j" for k
  proof -
    consider "k = j" | "k \<noteq> j" "(k - 1) div 2 = i" | "k = i" | "k \<noteq> i" "k \<noteq> j" "(k - 1) div 2 \<noteq> i" by blast
    then show ?thesis
    proof cases
      case 1
      then show ?thesis using pj jc(4) total_less_asym [OF t mem(1,2) go(2)] by (simp add: child_ok_def nth)
    next
      case 2
      then have "k = 2 * i + 1 \<or> k = 2 * i + 2" using k parent_child by blast
      then have "\<not> lt (xs ! k) (xs ! j)" "k \<noteq> i" using min_child_least [OF t n go(1) k(2)] j by auto
      then show ?thesis using 2 jc(4) by (simp add: child_ok_def nth)
    next
      case 3
      have "\<not> lt (xs ! j) (xs ! ((i - 1) div 2))"
        using s jc pj 3 k by (simp add: sift_inv_def)
      moreover have "(i - 1) div 2 \<noteq> i" "(i - 1) div 2 \<noteq> j" using 3 k jc by auto
      ultimately show ?thesis using 3 jc(4) by (simp add: child_ok_def nth)
    next
      case 4
      then have "child_ok lt xs k" using s k by (simp add: sift_inv_def)
      then show ?thesis using 4 k by (simp add: child_ok_def nth)
    qed
  qed
  have B: "\<not> lt (heap_swap xs i j ! k) (heap_swap xs i j ! ((j - 1) div 2))"
    if k: "0 < k" "k < n" "(k - 1) div 2 = j" for k
  proof -
    have "k \<noteq> i" "k \<noteq> j" using k jc by auto
    moreover have "child_ok lt xs k" using s k jc(4) i0 jc(1) by (auto simp: sift_inv_def)
    ultimately show ?thesis using k pj jc(4) by (simp add: child_ok_def nth)
  qed
  show ?thesis unfolding sift_inv_def using A B by blast
qed

lemma heap_down_heap:
  assumes "total_less lt (set xs)" and "n \<le> length xs" and "sift_inv lt xs n i0 i" and "i0 \<le> i"
  shows "heap_from lt (fst (heap_down lt xs i n)) n i0"
  using assms
proof (induction lt xs i n rule: heap_down.induct)
  case (1 lt xs i n)
  let ?j = "min_child lt xs i n"
  show ?case
  proof (cases "2 * i + 1 \<ge> n \<or> \<not> lt (xs ! ?j) (xs ! i)")
    case True
    then have "fst (heap_down lt xs i n) = xs" by (simp add: heap_down_stop)
    then show ?thesis using sift_inv_stop [OF 1(2,3,4)] True by simp
  next
    case False
    then have ij: "i < n" "?j < n" "i \<le> ?j" by (auto simp: min_child_def)
    have eq: "heap_down lt xs i n = heap_down lt (heap_swap xs i ?j) ?j n"
      using False by (intro heap_down_go) auto
    have "set (heap_swap xs i ?j) = set xs" using ij 1(3) heap_mset_swap [of i xs ?j] by (intro mset_eq_setD) auto
    moreover have "sift_inv lt (heap_swap xs i ?j) n i0 ?j"
      using False 1 by (intro sift_inv_step) auto
    ultimately show ?thesis unfolding eq using False 1(2-5) ij by (intro 1(1)) auto
  qed
qed

lemma sift_inv_start: "heap_from lt xs n (Suc i) \<Longrightarrow> sift_inv lt xs n i i"
  by (auto simp: heap_from_def sift_inv_def)

lemma heap_root:
  assumes "total_less lt (set xs)" and "n \<le> length xs" and "heap_from lt xs n 0" and "k < n"
  shows "\<not> lt (xs ! k) (xs ! 0)"
  using assms(4)
proof (induction k rule: less_induct)
  case (less k)
  show ?case
  proof (cases "k = 0")
    case True
    have "xs ! 0 \<in> set xs" using less.prems assms(2) by (intro nth_mem) linarith
    then show ?thesis using True total_less_asym [OF assms(1)] by blast
  next
    case False
    let ?p = "(k - 1) div 2"
    have p: "?p < k" using False by auto
    have "xs ! k \<in> set xs" "xs ! ?p \<in> set xs" "xs ! 0 \<in> set xs"
      using less.prems assms(2) p by (auto intro!: nth_mem)
    moreover have "\<not> lt (xs ! k) (xs ! ?p)" using assms(3) False less.prems by (simp add: heap_from_def child_ok_def)
    moreover have "\<not> lt (xs ! ?p) (xs ! 0)" using less p by simp
    ultimately show ?thesis using total_less_trans [OF assms(1)] by blast
  qed
qed

section \<open>The three operations\<close>

definition is_heap :: "('a \<Rightarrow> 'a \<Rightarrow> bool) \<Rightarrow> 'a list \<Rightarrow> bool" where
  "is_heap lt xs \<longleftrightarrow> heap_from lt xs (length xs) 0"

lemma is_heap_least: "total_less lt (set xs) \<Longrightarrow> is_heap lt xs \<Longrightarrow> x \<in> set xs \<Longrightarrow> \<not> lt x (xs ! 0)"
  using heap_root [of lt xs "length xs"] by (auto simp: is_heap_def in_set_conv_nth)

lemma heap_init_from:
  assumes "total_less lt (set xs)" and "m \<le> length xs div 2"
  shows "let ys = foldr (\<lambda>i ys. fst (heap_down lt ys i (length xs))) [m..<length xs div 2] xs
    in mset ys = mset xs \<and> heap_from lt ys (length xs) m"
  using assms(2)
proof (induction "length xs div 2 - m" arbitrary: m)
  case 0
  then show ?case by (auto simp: heap_from_def)
next
  case (Suc d)
  let ?f = "\<lambda>i ys. fst (heap_down lt ys i (length xs))"
  define ys where "ys = foldr ?f [Suc m..<length xs div 2] xs"
  have m: "m < length xs div 2" "[m..<length xs div 2] = m # [Suc m..<length xs div 2]"
    using Suc by (auto simp: upt_conv_Cons)
  have IH: "mset ys = mset xs" "heap_from lt ys (length xs) (Suc m)"
    using Suc(1) [of "Suc m"] Suc(2) m by (auto simp: Let_def ys_def)
  have st: "set ys = set xs" "length ys = length xs"
    using IH(1) mset_eq_setD mset_eq_length by blast+
  have "mset (?f m ys) = mset xs" using heap_down_frame [of "length xs" ys lt m] IH st by simp
  moreover have "heap_from lt (?f m ys) (length xs) m"
    using assms(1) IH st by (intro heap_down_heap sift_inv_start) auto
  ultimately show ?case by (simp add: m ys_def Let_def)
qed

lemma heap_init_heap:
  assumes "total_less lt (set xs)"
  shows "mset (heap_init lt xs) = mset xs" and "is_heap lt (heap_init lt xs)"
proof -
  have h: "mset (heap_init lt xs) = mset xs \<and> heap_from lt (heap_init lt xs) (length xs) 0"
    using heap_init_from [OF assms, of 0] by (simp add: Let_def heap_init_def)
  then show "mset (heap_init lt xs) = mset xs" by simp
  then have "length (heap_init lt xs) = length xs" by (rule mset_eq_length)
  then show "is_heap lt (heap_init lt xs)" using h by (simp add: is_heap_def)
qed

lemma heap_fix_root:
  "heap_fix lt xs 0 = fst (heap_down lt xs 0 (length xs))"
  by (auto simp: heap_fix_def Let_def split_beta heap_up.simps)

lemma heap_fix_heap:
  assumes "total_less lt (set xs)" and "heap_from lt xs (length xs) 1"
  shows "mset (heap_fix lt xs 0) = mset xs" and "is_heap lt (heap_fix lt xs 0)"
  using heap_down_frame [of "length xs" xs lt 0] heap_down_heap [OF assms(1) order_refl sift_inv_start [of lt xs _ 0]] assms(2)
  by (simp_all add: heap_fix_root is_heap_def)

text \<open>\<open>down\<close> reads and writes the first \<open>n\<close> elements only.\<close>

lemma heap_down_take:
  "n \<le> length xs \<Longrightarrow> heap_down lt xs i n = (fst (heap_down lt (take n xs) i n) @ drop n xs, snd (heap_down lt (take n xs) i n))"
proof (induction lt xs i n rule: heap_down.induct)
  case (1 lt xs i n)
  let ?j = "min_child lt xs i n"
  have j: "min_child lt (take n xs) i n = ?j" if "2 * i + 1 < n"
    using that by (auto simp: min_child_def)
  show ?case
  proof (cases "2 * i + 1 \<ge> n \<or> \<not> lt (xs ! ?j) (xs ! i)")
    case True
    have "2 * i + 1 \<ge> n \<or> \<not> lt (take n xs ! min_child lt (take n xs) i n) (take n xs ! i)"
    proof (cases "2 * i + 1 < n")
      case True
      then have "?j < n" by (simp add: min_child_def)
      then show ?thesis using True j \<open>2 * i + 1 \<ge> n \<or> \<not> lt (xs ! ?j) (xs ! i)\<close> by simp
    qed simp
    then show ?thesis using True by (simp add: heap_down_stop)
  next
    case False
    then have ij: "i < n" "?j < n" by (auto simp: min_child_def)
    have sw: "take n (heap_swap xs i ?j) = heap_swap (take n xs) i ?j" "drop n (heap_swap xs i ?j) = drop n xs"
      using ij by (auto simp: heap_swap_def take_update_swap)
    have "heap_down lt xs i n = heap_down lt (heap_swap xs i ?j) ?j n"
      using False by (intro heap_down_go) auto
    moreover have "heap_down lt (take n xs) i n = heap_down lt (heap_swap (take n xs) i ?j) ?j n"
      using False ij j heap_down_go [of i n lt "take n xs"] by simp
    ultimately show ?thesis using 1(1) [OF _ refl] 1(2) False sw by simp
  qed
qed

lemma heap_pop_heap:
  assumes t: "total_less lt (set (tl xs))" and h: "heap_from lt xs (length xs) 1" and ne: "xs \<noteq> []"
  shows "mset (heap_pop lt xs) = mset (tl xs) \<and> is_heap lt (heap_pop lt xs)"
proof -
  define n where "n = length xs - 1"
  have n: "length xs = Suc n" using ne by (simp add: n_def)
  define us where "us = take n (heap_swap xs 0 n)"
  have len: "length us = n" using n by (simp add: us_def)
  have nth: "us ! k = (if k = 0 then xs ! n else xs ! k)" if "k < n" for k
    using that n by (simp add: us_def nth_heap_swap)
  have "heap_swap xs 0 n ! n = hd xs" using n ne by (simp add: nth_heap_swap hd_conv_nth)
  moreover have "drop n (heap_swap xs 0 n) = heap_swap xs 0 n ! n # drop (Suc n) (heap_swap xs 0 n)"
    using n by (intro Cons_nth_drop_Suc [symmetric]) simp
  ultimately have dr: "drop n (heap_swap xs 0 n) = [hd xs]" using n by simp
  have "mset (us @ [hd xs]) = mset xs"
  proof -
    have "us @ [hd xs] = heap_swap xs 0 n" by (simp add: us_def flip: dr)
    then show ?thesis using n heap_mset_swap [of 0 xs n] by simp
  qed
  then have ms: "mset us = mset (tl xs)" using ne by (cases xs) auto
  have st: "set us = set (tl xs)" using ms by (rule mset_eq_setD)
  have pop: "heap_pop lt xs = fst (heap_down lt us 0 n)"
    using heap_down_take [of n "heap_swap xs 0 n" lt 0] n dr
    unfolding heap_pop_def Let_def n_def [symmetric] us_def [symmetric] by (simp add: butlast_append)
  have "heap_from lt us n 1"
    unfolding heap_from_def
  proof (intro allI impI)
    fix k assume k: "0 < k" "k < n" "1 \<le> (k - 1) div 2"
    then have "us ! k = xs ! k" "us ! ((k - 1) div 2) = xs ! ((k - 1) div 2)" by (auto simp: nth)
    then show "child_ok lt us k" using h k n by (simp add: heap_from_def child_ok_def)
  qed
  then have "sift_inv lt us n 0 0" by (intro sift_inv_start) simp
  then have "heap_from lt (fst (heap_down lt us 0 n)) n 0"
    using t st len by (intro heap_down_heap) simp_all
  then show ?thesis
    using heap_down_frame [of n us lt 0] len ms by (simp add: pop is_heap_def)
qed

end
