(* ===== verification/Merge.thy ===== *)
theory Merge
  imports Iter Heap
begin

text \<open>
  The merging iterator (\<open>src/storage/merge.go\<close>) over any iterators that satisfy the interface of
  theory \<open>Iter\<close>. A \<open>mergeItem\<close> holds a pointer to a child and the child's index; since the pointer
  is always \<open>children[idx]\<close>, the heap holds indices and reads the children through them, so that
  moving a child is visible to the heap, as with the pointer. The result is that a merge ranges
  over the stable sort of its children's entries: equal keys come out in child order.
\<close>

section \<open>Model\<close>

record 'it mergeIter =
  m_children :: "'it list"
  m_h :: "nat list"
  m_err :: "storage_error option"

definition mergeHeap_Less :: "'it internalIter \<Rightarrow> 'it list \<Rightarrow> nat \<Rightarrow> nat \<Rightarrow> bool" where
  "mergeHeap_Less ops cs i j =
     (let c = compareInternalKey (it_key ops (cs ! i)) (it_key ops (cs ! j))
      in if c \<noteq> 0 then c < 0 else i < j)"

definition newMergeIter :: "'it list \<Rightarrow> 'it mergeIter" where
  "newMergeIter children = \<lparr>m_children = children, m_h = [], m_err = None\<rparr>"

definition merge_rebuild :: "'it internalIter \<Rightarrow> 'it mergeIter \<Rightarrow> 'it mergeIter" where
  "merge_rebuild ops m =
     m\<lparr>m_h := heap_init (mergeHeap_Less ops (m_children m))
        (filter (\<lambda>i. it_valid ops (m_children m ! i)) [0..<length (m_children m)])\<rparr>"

definition merge_seekToFirst :: "'it internalIter \<Rightarrow> 'it mergeIter \<Rightarrow> 'it mergeIter" where
  "merge_seekToFirst ops m =
     merge_rebuild ops (m\<lparr>m_children := map (it_seekToFirst ops) (m_children m)\<rparr>)"

definition merge_seek :: "'it internalIter \<Rightarrow> bytes \<Rightarrow> 'it mergeIter \<Rightarrow> 'it mergeIter" where
  "merge_seek ops target m =
     merge_rebuild ops (m\<lparr>m_children := map (it_seek ops target) (m_children m)\<rparr>)"

definition merge_valid :: "'it mergeIter \<Rightarrow> bool" where
  "merge_valid m \<longleftrightarrow> length (m_h m) > 0 \<and> m_err m = None"

definition merge_next :: "'it internalIter \<Rightarrow> 'it mergeIter \<Rightarrow> 'it mergeIter" where
  "merge_next ops m =
     (let top = m_h m ! 0;
          cs = (m_children m)[top := it_next ops (m_children m ! top)];
          m' = m\<lparr>m_children := cs\<rparr>
      in if it_valid ops (cs ! top)
         then m'\<lparr>m_h := heap_fix (mergeHeap_Less ops cs) (m_h m) 0\<rparr>
         else m'\<lparr>m_h := heap_pop (mergeHeap_Less ops cs) (m_h m)\<rparr>)"

definition merge_key :: "'it internalIter \<Rightarrow> 'it mergeIter \<Rightarrow> bytes" where
  "merge_key ops m = it_key ops (m_children m ! (m_h m ! 0))"

definition merge_value :: "'it internalIter \<Rightarrow> 'it mergeIter \<Rightarrow> bytes" where
  "merge_value ops m = it_value ops (m_children m ! (m_h m ! 0))"

definition merge_close :: "'it internalIter \<Rightarrow> 'it mergeIter \<Rightarrow> storage_error option" where
  "merge_close ops m =
     foldl (\<lambda>err c. case it_close ops c of Some e \<Rightarrow> (if err = None then Some e else err) | None \<Rightarrow> err)
       (m_err m) (m_children m)"

definition merge_ops :: "'it internalIter \<Rightarrow> 'it mergeIter internalIter" where
  "merge_ops ops =
     \<lparr>it_seekToFirst = merge_seekToFirst ops, it_seek = merge_seek ops, it_valid = merge_valid,
      it_next = merge_next ops, it_key = merge_key ops, it_value = merge_value ops,
      it_close = merge_close ops\<rparr>"

section \<open>What a merge ranges over\<close>

definition merge_entries :: "('it \<Rightarrow> entry list) \<Rightarrow> 'it mergeIter \<Rightarrow> entry list" where
  "merge_entries entries m = sort_entries (concat (map entries (m_children m)))"

definition merge_heap_ok :: "'it internalIter \<Rightarrow> ('it \<Rightarrow> entry list) \<Rightarrow> 'it mergeIter \<Rightarrow> bool" where
  "merge_heap_ok ops rest m \<longleftrightarrow>
     is_heap (mergeHeap_Less ops (m_children m)) (m_h m) \<and> distinct (m_h m)
     \<and> set (m_h m) = {i. i < length (m_children m) \<and> rest (m_children m ! i) \<noteq> []}"

definition merge_inv ::
  "'it internalIter \<Rightarrow> ('it \<Rightarrow> entry list) \<Rightarrow> ('it \<Rightarrow> entry list) \<Rightarrow> ('it \<Rightarrow> bool) \<Rightarrow> 'it mergeIter \<Rightarrow> bool" where
  "merge_inv ops entries rest ok m \<longleftrightarrow>
     (\<forall>c \<in> set (m_children m). ok c) \<and> m_err m = None \<and> merge_heap_ok ops rest m
     \<and> (\<exists>n. merge_entries rest m = drop n (merge_entries entries m))"

lemma merge_rebuild_simps [simp]:
  "m_children (merge_rebuild ops m) = m_children m" "m_err (merge_rebuild ops m) = m_err m"
  by (simp_all add: merge_rebuild_def)

lemma merge_close_none: "(\<And>c. c \<in> set cs \<Longrightarrow> it_close ops c = None) \<Longrightarrow>
  foldl (\<lambda>err c. case it_close ops c of Some e \<Rightarrow> (if err = None then Some e else err) | None \<Rightarrow> err) e cs = e"
  by (induction cs) auto

lemma concat_map_filter: "concat (map (\<lambda>c. filter P (f c)) cs) = filter P (concat (map f cs))"
  by (induction cs) auto

text \<open>The order of the heap: by key, ties by child index.\<close>

definition key_less :: "(nat \<Rightarrow> bytes) \<Rightarrow> nat \<Rightarrow> nat \<Rightarrow> bool" where
  "key_less k i j \<longleftrightarrow> compareInternalKey (k i) (k j) < 0 \<or> compareInternalKey (k i) (k j) = 0 \<and> i < j"

lemma mergeHeap_Less_key: "mergeHeap_Less ops cs = key_less (\<lambda>i. it_key ops (cs ! i))"
  by (intro ext) (simp add: mergeHeap_Less_def key_less_def Let_def)

lemma key_less_cases: "key_less k i j \<or> i = j \<or> key_less k j i"
  using compareInternalKey_sym [of "k i" "k j"] unfolding key_less_def by linarith

lemma key_less_asym: "key_less k i j \<Longrightarrow> \<not> key_less k j i"
  using compareInternalKey_sym [of "k i" "k j"] unfolding key_less_def by linarith

lemma key_less_trans:
  assumes w: "wf_ikey (k i)" "wf_ikey (k j)" "wf_ikey (k l)" and "key_less k i j" and "key_less k j l"
  shows "key_less k i l"
proof -
  have ij: "compareInternalKey (k i) (k j) < 0 \<or> k i = k j \<and> i < j"
    using assms(4) ik.cmp_eq [OF w(1,2)] unfolding key_less_def by blast
  have jl: "compareInternalKey (k j) (k l) < 0 \<or> k j = k l \<and> j < l"
    using assms(5) ik.cmp_eq [OF w(2,3)] unfolding key_less_def by blast
  show ?thesis
    using ij
  proof (elim disjE conjE)
    assume 1: "compareInternalKey (k i) (k j) < 0"
    show ?thesis using jl ik.cmp_trans [OF 1, of "k l"] 1 unfolding key_less_def by (elim disjE conjE) simp_all
  next
    assume "k i = k j" "i < j"
    then show ?thesis using jl unfolding key_less_def by (elim disjE conjE) (simp_all add: ik.cmp_refl)
  qed
qed

lemma total_key_less:
  assumes "\<And>i. i \<in> V \<Longrightarrow> wf_ikey (k i)"
  shows "total_less (key_less k) V"
  unfolding total_less_def
proof (intro conjI ballI impI)
  fix x y assume "key_less k x y"
  then show "\<not> key_less k y x" by (rule key_less_asym)
next
  fix x y z assume V: "x \<in> V" "y \<in> V" "z \<in> V" and n: "\<not> key_less k y x" "\<not> key_less k z y"
  show "\<not> key_less k z x"
  proof
    assume zx: "key_less k z x"
    have "x = y \<or> key_less k x y" using key_less_cases [of k x y] n(1) by blast
    then have "key_less k z y" using zx key_less_trans [of k z x y] assms V by blast
    then show False using n(2) by simp
  qed
qed

lemma in_concat_take: "x \<in> set (concat (take t (map f cs))) \<Longrightarrow> t < length cs \<Longrightarrow> \<exists>j < t. x \<in> set (f (cs ! j))"
proof -
  assume x: "x \<in> set (concat (take t (map f cs)))" and t: "t < length cs"
  then obtain c where c: "c \<in> set (take t cs)" "x \<in> set (f c)" by (auto simp: take_map)
  then obtain j where "j < length (take t cs)" "take t cs ! j = c" by (auto simp: in_set_conv_nth)
  then show ?thesis using c(2) t by (intro exI [of _ j]) simp
qed

lemma in_concat_drop: "x \<in> set (concat (drop t (map f cs))) \<Longrightarrow> \<exists>j < length cs. x \<in> set (f (cs ! j))"
proof -
  assume "x \<in> set (concat (drop t (map f cs)))"
  then obtain c where c: "c \<in> set cs" "x \<in> set (f c)" by (auto simp: drop_map dest: in_set_dropD)
  then obtain j where "j < length cs" "cs ! j = c" by (auto simp: in_set_conv_nth)
  then show ?thesis using c(2) by (intro exI [of _ j]) simp
qed

context internal_iter
begin

lemma total_less_merge:
  assumes "\<forall>c \<in> set cs. inv c"
  shows "total_less (mergeHeap_Less ops cs) {i. i < length cs \<and> rest (cs ! i) \<noteq> []}"
proof -
  let ?k = "\<lambda>i. it_key ops (cs ! i)" and ?V = "{i. i < length cs \<and> rest (cs ! i) \<noteq> []}"
  have wf: "wf_ikey (?k i)" if "i \<in> ?V" for i
    using that assms key_hd [of "cs ! i"] rest_wf [of "cs ! i" "hd (rest (cs ! i))"] by (simp add: wf_entry_def)
  show ?thesis unfolding mergeHeap_Less_key using wf by (rule total_key_less)
qed

lemma rebuild_heap_ok:
  assumes "\<forall>c \<in> set (m_children m). inv c"
  shows "merge_heap_ok ops rest (merge_rebuild ops m)"
proof -
  let ?cs = "m_children m"
  let ?v = "filter (\<lambda>i. it_valid ops (?cs ! i)) [0..<length ?cs]"
  have sv: "set ?v = {i. i < length ?cs \<and> rest (?cs ! i) \<noteq> []}" using assms valid by auto
  have "total_less (mergeHeap_Less ops ?cs) (set ?v)" unfolding sv by (rule total_less_merge [OF assms])
  from heap_init_heap [OF this]
  have h: "mset (heap_init (mergeHeap_Less ops ?cs) ?v) = mset ?v" "is_heap (mergeHeap_Less ops ?cs) (heap_init (mergeHeap_Less ops ?cs) ?v)" .
  then show ?thesis
    using mset_eq_setD [OF h(1)] mset_eq_imp_distinct_iff [OF h(1)] sv
    by (simp add: merge_heap_ok_def) (simp add: merge_rebuild_def)
qed

lemma merge_entries_wf: "\<forall>c \<in> set (m_children m). inv c \<Longrightarrow> \<forall>e \<in> set (concat (map entries (m_children m))). wf_entry e"
  using entries_wf by auto

lemma merge_positioned:
  assumes i: "\<forall>c \<in> set (m_children m). inv c" and "m_err m = None"
    and f: "\<And>c. c \<in> set (m_children m) \<Longrightarrow> inv (f c) \<and> entries (f c) = entries c"
    and r: "sort_entries (concat (map (\<lambda>c. rest (f c)) (m_children m))) = drop n (merge_entries entries m)"
  defines "m' \<equiv> merge_rebuild ops (m\<lparr>m_children := map f (m_children m)\<rparr>)"
  shows "merge_inv ops entries rest inv m' \<and> merge_entries entries m' = merge_entries entries m
    \<and> merge_entries rest m' = drop n (merge_entries entries m)"
proof -
  have c: "m_children m' = map f (m_children m)" "m_err m' = None" using assms(2) by (simp_all add: m'_def)
  have e: "merge_entries entries m' = merge_entries entries m"
    unfolding merge_entries_def c by (simp add: f o_def cong: map_cong)
  have re: "merge_entries rest m' = drop n (merge_entries entries m)"
    using r by (simp add: merge_entries_def c o_def)
  have "merge_heap_ok ops rest m'" unfolding m'_def by (rule rebuild_heap_ok) (use f in auto)
  then have "merge_inv ops entries rest inv m'"
    unfolding merge_inv_def using c f e re by auto
  then show ?thesis using e re by simp
qed

lemma merge_invD:
  assumes "merge_inv ops entries rest inv m"
  shows "\<forall>c \<in> set (m_children m). inv c" and "m_err m = None" and "merge_heap_ok ops rest m"
  using assms by (simp_all add: merge_inv_def)

lemma merge_first:
  assumes "merge_inv ops entries rest inv m"
  shows "merge_inv ops entries rest inv (merge_seekToFirst ops m)
    \<and> merge_entries entries (merge_seekToFirst ops m) = merge_entries entries m
    \<and> merge_entries rest (merge_seekToFirst ops m) = merge_entries entries m"
proof -
  note i = merge_invD [OF assms]
  have "map (\<lambda>c. rest (it_seekToFirst ops c)) (m_children m) = map entries (m_children m)"
    using i(1) first by (intro map_cong) auto
  then have "sort_entries (concat (map (\<lambda>c. rest (it_seekToFirst ops c)) (m_children m))) = drop 0 (merge_entries entries m)"
    by (simp only: merge_entries_def drop_0)
  moreover have "inv (it_seekToFirst ops c) \<and> entries (it_seekToFirst ops c) = entries c" if "c \<in> set (m_children m)" for c
    using i(1) first that by blast
  ultimately show ?thesis
    using merge_positioned [OF i(1,2), of "it_seekToFirst ops" 0] unfolding merge_seekToFirst_def drop_0 by blast
qed

lemma merge_sought:
  assumes "merge_inv ops entries rest inv m" and k: "wf_ikey k"
  shows "merge_inv ops entries rest inv (merge_seek ops k m)
    \<and> merge_entries entries (merge_seek ops k m) = merge_entries entries m
    \<and> merge_entries rest (merge_seek ops k m) = seek_entries k (merge_entries entries m)"
proof -
  let ?cs = "m_children m" and ?P = "\<lambda>e. \<not> entry_before e k"
  note i = merge_invD [OF assms(1)]
  note wf = merge_entries_wf [OF i(1)]
  have "map (\<lambda>c. rest (it_seek ops k c)) ?cs = map (\<lambda>c. filter ?P (entries c)) ?cs"
    using i(1) seek k entries_sorted entries_wf by (auto simp: seek_entries_filter)
  then have "sort_entries (concat (map (\<lambda>c. rest (it_seek ops k c)) ?cs)) = sort_entries (filter ?P (concat (map entries ?cs)))"
    by (simp only: concat_map_filter)
  also have "\<dots> = filter ?P (merge_entries entries m)"
    using filter_sort_entries [OF wf k] by (simp add: merge_entries_def)
  also have "\<dots> = seek_entries k (merge_entries entries m)"
    unfolding merge_entries_def using wf k by (intro seek_entries_filter [symmetric] sorted_sort_entries) simp_all
  also have d: "\<dots> = drop (length (takeWhile (\<lambda>e. entry_before e k) (merge_entries entries m))) (merge_entries entries m)"
    by (simp add: seek_entries_def dropWhile_eq_drop)
  finally have s: "sort_entries (concat (map (\<lambda>c. rest (it_seek ops k c)) ?cs))
      = drop (length (takeWhile (\<lambda>e. entry_before e k) (merge_entries entries m))) (merge_entries entries m)" .
  have "inv (it_seek ops k c) \<and> entries (it_seek ops k c) = entries c" if "c \<in> set ?cs" for c
    using i(1) seek k that by blast
  from merge_positioned [OF i(1,2) this s] show ?thesis unfolding merge_seek_def d by blast
qed

text \<open>The root of the heap is the child whose head entry the stable sort puts first.\<close>

lemma merge_top:
  assumes "merge_inv ops entries rest inv m" and "m_h m \<noteq> []"
  defines "t \<equiv> m_h m ! 0"
  defines "cs \<equiv> m_children m"
  shows "t < length cs \<and> rest (cs ! t) \<noteq> [] \<and> inv (cs ! t)
    \<and> sort_entries (concat (map rest cs))
      = hd (rest (cs ! t)) # sort_entries (concat ((map rest cs)[t := tl (rest (cs ! t))]))"
proof -
  note i = merge_invD [OF assms(1)]
  have h: "is_heap (mergeHeap_Less ops cs) (m_h m)" "set (m_h m) = {i. i < length cs \<and> rest (cs ! i) \<noteq> []}"
    using i(3) by (simp_all add: merge_heap_ok_def cs_def)
  have "t \<in> set (m_h m)" unfolding t_def using assms(2) by (intro nth_mem) simp
  then have t: "t < length cs" "rest (cs ! t) \<noteq> []" using h(2) by auto
  have inv: "inv (cs ! j)" if "j < length cs" for j using i(1) that by (simp add: cs_def)
  define e where "e = hd (rest (cs ! t))"
  obtain es where es: "rest (cs ! t) = e # es" using t(2) by (cases "rest (cs ! t)") (auto simp: e_def)
  have min: "\<not> mergeHeap_Less ops cs j t" if "j < length cs" "rest (cs ! j) \<noteq> []" for j
    using is_heap_least [of "mergeHeap_Less ops cs" "m_h m" j] total_less_merge [of cs] i(1) h that by (simp add: t_def cs_def)
  have key: "it_key ops (cs ! j) = fst (hd (rest (cs ! j)))" if "j < length cs" "rest (cs ! j) \<noteq> []" for j
    using key_hd inv that by blast
  have later: "\<not> entry_before x (fst (hd (rest (cs ! j))))" if "j < length cs" "x \<in> set (rest (cs ! j))" for j x
    using rest_sorted [OF inv [OF that(1)]] that(2)
    by (cases "rest (cs ! j)") (auto simp: sorted_entries_def entry_before_def ik.cmp_refl)
  have wf: "wf_entry x" if "j < length cs" "x \<in> set (rest (cs ! j))" for j x
    using rest_wf inv that by blast
  have wfe: "wf_entry e" using wf [OF t(1)] es by simp
  have hd_ge: "\<not> entry_before (hd (rest (cs ! j))) (fst e) \<and> (j < t \<longrightarrow> entry_before e (fst (hd (rest (cs ! j)))))"
    if j: "j < length cs" "rest (cs ! j) \<noteq> []" for j
    using min [OF j] key [OF j] key [OF t] compareInternalKey_sym [of "fst e" "fst (hd (rest (cs ! j)))"]
    unfolding mergeHeap_Less_key key_less_def entry_before_def e_def [symmetric] by (simp only:) linarith
  have ge: "\<not> entry_before x (fst e)" if x: "j < length cs" "x \<in> set (rest (cs ! j))" for j x
  proof
    assume b: "entry_before x (fst e)"
    have ne: "rest (cs ! j) \<noteq> []" using x(2) by auto
    have "entry_before (hd (rest (cs ! j))) (fst e)"
      using entry_before_trans [OF wf [OF x(1) hd_in_set [OF ne]] wf [OF x] _ b later [OF x]] wfe
      by (simp add: wf_entry_def)
    then show False using hd_ge [OF x(1) ne] by simp
  qed
  have gt: "entry_before e (fst x)" if x: "j < t" "x \<in> set (rest (cs ! j))" for j x
  proof -
    have j: "j < length cs" "rest (cs ! j) \<noteq> []" using x t by auto
    have "entry_before e (fst (hd (rest (cs ! j))))" using hd_ge [OF j] x by simp
    then show ?thesis
      using later [OF j(1) x(2)] wf [OF j(1) x(2)] wf [OF j(1), of "hd (rest (cs ! j))"] j(2)
        ik.cmp_ge_trans [of "fst (hd (rest (cs ! j)))" "fst x" "fst e"]
      by (auto simp: entry_before_def wf_entry_def)
  qed
  have split: "map rest cs = take t (map rest cs) @ (e # es) # drop (Suc t) (map rest cs)"
    using id_take_nth_drop [of t "map rest cs"] t(1) es by simp
  have upd: "(map rest cs)[t := es] = take t (map rest cs) @ es # drop (Suc t) (map rest cs)"
    using t(1) by (simp add: upd_conv_take_nth_drop)
  have "sort_entries (concat (take t (map rest cs)) @ e # (es @ concat (drop (Suc t) (map rest cs))))
      = e # sort_entries (concat (take t (map rest cs)) @ (es @ concat (drop (Suc t) (map rest cs))))"
  proof (rule sort_entries_min)
    show "entry_before e (fst x)" if xt: "x \<in> set (concat (take t (map rest cs)))" for x
    proof -
      obtain j where "j < t" "x \<in> set (rest (cs ! j))" using in_concat_take [OF xt t(1)] by (elim exE conjE)
      then show ?thesis by (rule gt)
    qed
    show "\<not> entry_before y (fst e)" if "y \<in> set (es @ concat (drop (Suc t) (map rest cs)))" for y
    proof (cases "y \<in> set es")
      case True
      then show ?thesis using ge [OF t(1)] es by simp
    next
      case False
      then have yd: "y \<in> set (concat (drop (Suc t) (map rest cs)))" using that by simp
      obtain j where "j < length cs" "y \<in> set (rest (cs ! j))" using in_concat_drop [OF yd] by (elim exE conjE)
      then show ?thesis by (rule ge)
    qed
  qed
  moreover have "concat (map rest cs) = concat (take t (map rest cs)) @ e # (es @ concat (drop (Suc t) (map rest cs)))"
    by (subst split) (simp only: concat_append concat.simps append_Cons)
  moreover have "concat ((map rest cs)[t := es]) = concat (take t (map rest cs)) @ (es @ concat (drop (Suc t) (map rest cs)))"
    by (simp only: upd concat_append concat.simps)
  ultimately have "sort_entries (concat (map rest cs)) = e # sort_entries (concat ((map rest cs)[t := es]))"
    by (simp only:)
  then have "sort_entries (concat (map rest cs))
      = hd (rest (cs ! t)) # sort_entries (concat ((map rest cs)[t := tl (rest (cs ! t))]))"
    unfolding es list.sel .
  then show ?thesis using t inv [OF t(1)] by (intro conjI)
qed

lemma merge_nonempty:
  assumes "merge_inv ops entries rest inv m"
  shows "merge_entries rest m \<noteq> [] \<longleftrightarrow> m_h m \<noteq> []"
proof -
  have "set (m_h m) = {i. i < length (m_children m) \<and> rest (m_children m ! i) \<noteq> []}"
    using merge_invD(3) [OF assms] by (simp add: merge_heap_ok_def)
  then have "m_h m \<noteq> [] \<longleftrightarrow> (\<exists>i < length (m_children m). rest (m_children m ! i) \<noteq> [])"
    by (metis (mono_tags, lifting) empty_Collect_eq set_empty)
  also have "\<dots> \<longleftrightarrow> (\<exists>c \<in> set (m_children m). rest c \<noteq> [])" by (metis in_set_conv_nth)
  also have "\<dots> \<longleftrightarrow> concat (map rest (m_children m)) \<noteq> []" by auto
  also have "\<dots> \<longleftrightarrow> merge_entries rest m \<noteq> []"
    unfolding merge_entries_def by (metis length_0_conv length_sort_entries)
  finally show ?thesis by simp
qed

lemma merge_next_heap_ok:
  assumes "merge_inv ops entries rest inv m" and ne: "m_h m \<noteq> []"
  shows "merge_heap_ok ops rest (merge_next ops m)"
proof -
  let ?t = "m_h m ! 0" and ?h = "m_h m"
  define cs where "cs = (m_children m)[?t := it_next ops (m_children m ! ?t)]"
  note i = merge_invD [OF assms(1)] and top = merge_top [OF assms]
  have hk: "is_heap (mergeHeap_Less ops (m_children m)) ?h" "distinct ?h"
    "set ?h = {i. i < length (m_children m) \<and> rest (m_children m ! i) \<noteq> []}"
    using i(3) by (simp_all add: merge_heap_ok_def)
  have nx: "inv (it_next ops (m_children m ! ?t))" using step top by blast
  have ic: "\<forall>c \<in> set cs. inv c" using i(1) nx unfolding cs_def by (metis insert_iff set_update_subset_insert subsetD)
  have len: "length cs = length (m_children m)" by (simp add: cs_def)
  have nth: "cs ! j = (if j = ?t then it_next ops (m_children m ! ?t) else m_children m ! j)" if "j < length cs" for j
    using that by (simp add: cs_def)
  obtain hs where hs: "?h = ?t # hs" using ne by (cases ?h) auto
  have tl: "?t \<notin> set hs" "distinct hs" using hk(2) hs by (metis distinct.simps(2))+
  have live: "{i. i < length cs \<and> rest (cs ! i) \<noteq> []} = (if it_valid ops (cs ! ?t) then set ?h else set hs)"
  proof -
    have vt: "it_valid ops (cs ! ?t) \<longleftrightarrow> rest (cs ! ?t) \<noteq> []" and lt: "?t < length cs"
      using valid ic top len by simp_all
    have sh: "j \<in> set ?h \<longleftrightarrow> j = ?t \<or> j \<in> set hs" for j by (subst hs) simp
    have "j < length cs \<and> rest (cs ! j) \<noteq> [] \<longleftrightarrow> j \<in> (if it_valid ops (cs ! ?t) then set ?h else set hs)" for j
    proof (cases "j = ?t")
      case True
      then show ?thesis using vt lt sh tl(1) by simp
    next
      case False
      then have "j < length cs \<and> rest (cs ! j) \<noteq> [] \<longleftrightarrow> j \<in> set ?h" using hk(3) nth len by auto
      then show ?thesis using False sh by simp
    qed
    then show ?thesis by blast
  qed
  have total: "total_less (mergeHeap_Less ops cs) {i. i < length cs \<and> rest (cs ! i) \<noteq> []}"
    by (rule total_less_merge [OF ic])
  have from1: "heap_from (mergeHeap_Less ops cs) ?h (length ?h) 1"
    unfolding heap_from_def
  proof (intro allI impI)
    fix k assume k: "0 < k" "k < length ?h" "1 \<le> (k - 1) div 2"
    let ?p = "(k - 1) div 2"
    have p: "?p < length ?h" "?p \<noteq> 0" using k by auto
    have "?h ! k \<noteq> ?t" "?h ! ?p \<noteq> ?t" using hk(2) k p ne by (simp_all add: nth_eq_iff_index_eq)
    moreover have "?h ! k < length cs" "?h ! ?p < length cs"
      using hk(3) nth_mem [OF k(2)] nth_mem [OF p(1)] len by auto
    ultimately have "cs ! (?h ! k) = m_children m ! (?h ! k)" "cs ! (?h ! ?p) = m_children m ! (?h ! ?p)" by (simp_all add: nth)
    then show "child_ok (mergeHeap_Less ops cs) ?h k"
      using hk(1) k by (simp add: is_heap_def heap_from_def child_ok_def mergeHeap_Less_def)
  qed
  let ?lt = "mergeHeap_Less ops cs"
  have nx_eq: "m_children (merge_next ops m) = cs"
    "m_h (merge_next ops m) = (if it_valid ops (cs ! ?t) then heap_fix ?lt ?h 0 else heap_pop ?lt ?h)"
    unfolding merge_next_def Let_def cs_def [symmetric] by simp_all
  have "mset (m_h (merge_next ops m)) = mset (if it_valid ops (cs ! ?t) then ?h else hs) \<and> is_heap ?lt (m_h (merge_next ops m))"
  proof (cases "it_valid ops (cs ! ?t)")
    case True
    then have "total_less ?lt (set ?h)" using total live by simp
    from heap_fix_heap [OF this from1] show ?thesis using True by (simp add: nx_eq)
  next
    case False
    have tlh: "tl ?h = hs" by (subst hs) simp
    have "total_less ?lt (set (tl ?h))" using total live False by (simp add: tlh)
    from heap_pop_heap [OF this from1 ne] show ?thesis using False tlh by (simp add: nx_eq)
  qed
  then have ms: "mset (m_h (merge_next ops m)) = mset (if it_valid ops (cs ! ?t) then ?h else hs)"
    and hp: "is_heap ?lt (m_h (merge_next ops m))" by blast+
  have "distinct (m_h (merge_next ops m))"
    using mset_eq_imp_distinct_iff [OF ms] hk(2) tl(2) by simp
  moreover have "set (m_h (merge_next ops m)) = {i. i < length cs \<and> rest (cs ! i) \<noteq> []}"
    unfolding live using mset_eq_setD [OF ms] by simp
  ultimately show ?thesis unfolding merge_heap_ok_def nx_eq(1) using hp by blast
qed

lemma merge_step:
  assumes m: "merge_inv ops entries rest inv m" and "merge_entries rest m \<noteq> []"
  shows "merge_inv ops entries rest inv (merge_next ops m)
    \<and> merge_entries entries (merge_next ops m) = merge_entries entries m
    \<and> merge_entries rest (merge_next ops m) = tl (merge_entries rest m)"
proof -
  let ?t = "m_h m ! 0" and ?cs = "m_children m"
  have ne: "m_h m \<noteq> []" using merge_nonempty [OF m] assms(2) by simp
  note i = merge_invD [OF m] and top = merge_top [OF m ne]
  have c: "m_children (merge_next ops m) = ?cs[?t := it_next ops (?cs ! ?t)]" "m_err (merge_next ops m) = None"
    using i(2) by (simp_all add: merge_next_def Let_def)
  have st: "inv (it_next ops (?cs ! ?t))" "entries (it_next ops (?cs ! ?t)) = entries (?cs ! ?t)"
    "rest (it_next ops (?cs ! ?t)) = tl (rest (?cs ! ?t))"
    using step top by blast+
  have e: "merge_entries entries (merge_next ops m) = merge_entries entries m"
  proof -
    have "(map entries ?cs)[?t := entries (?cs ! ?t)] = map entries ?cs"
      using list_update_id [of "map entries ?cs" ?t] top by (simp only: nth_map)
    then show ?thesis unfolding merge_entries_def c map_update st(2) by (simp only:)
  qed
  have r: "merge_entries rest (merge_next ops m) = tl (merge_entries rest m)"
    unfolding merge_entries_def c map_update st(3) using top by simp
  have "\<forall>c \<in> set (m_children (merge_next ops m)). inv c"
    using i(1) st(1) unfolding c by (metis insert_iff set_update_subset_insert subsetD)
  moreover have "\<exists>n. merge_entries rest (merge_next ops m) = drop n (merge_entries entries (merge_next ops m))"
    using m unfolding merge_inv_def e r by (metis drop_Suc tl_drop)
  ultimately show ?thesis
    using e r c(2) merge_next_heap_ok [OF m ne] by (simp add: merge_inv_def)
qed

lemma merge_current:
  assumes m: "merge_inv ops entries rest inv m" and "merge_entries rest m \<noteq> []"
  shows "(merge_key ops m, merge_value ops m) = hd (merge_entries rest m)"
proof -
  have ne: "m_h m \<noteq> []" using merge_nonempty [OF m] assms(2) by simp
  from merge_top [OF m ne] current [of "m_children m ! (m_h m ! 0)"] show ?thesis
    by (simp add: merge_key_def merge_value_def merge_entries_def)
qed

text \<open>A merge of iterators is an iterator: the interface is closed under merging.\<close>

lemma merge_internal_iter:
  "internal_iter (merge_ops ops) (merge_entries entries) (merge_entries rest) (merge_inv ops entries rest inv)"
proof (unfold_locales, goal_cases)
  case (1 m)
  then show ?case unfolding merge_entries_def by (intro sorted_sort_entries merge_entries_wf) (simp add: merge_inv_def)
next
  case (2 m e)
  then show ?case using merge_entries_wf [of m] by (auto simp: merge_inv_def merge_entries_def)
next
  case (3 m)
  then show ?case by (simp add: merge_inv_def)
next
  case (4 m)
  then show ?case using merge_first by (simp add: merge_ops_def)
next
  case (5 m k)
  then show ?case using merge_sought by (simp add: merge_ops_def)
next
  case (6 m)
  then show ?case using merge_nonempty [of m] by (simp add: merge_ops_def merge_valid_def merge_inv_def)
next
  case (7 m)
  then show ?case using merge_step by (simp add: merge_ops_def)
next
  case (8 m)
  then show ?case using merge_current by (simp add: merge_ops_def)
next
  case (9 m)
  then show ?case
    using merge_close_none [of "m_children m" ops "m_err m"] close by (simp add: merge_ops_def merge_close_def merge_inv_def)
qed

lemma merge_new:
  assumes "\<And>c. c \<in> set cs \<Longrightarrow> inv c \<and> rest c = []"
  shows "merge_inv ops entries rest inv (newMergeIter cs)"
proof -
  have "concat (map rest cs) = []" using assms by simp
  then have "merge_entries rest (newMergeIter cs) = []"
    unfolding merge_entries_def newMergeIter_def mergeIter.simps by (simp only: sort_entries_simps)
  then have "merge_entries rest (newMergeIter cs) = drop (length (merge_entries entries (newMergeIter cs))) (merge_entries entries (newMergeIter cs))"
    by simp
  moreover have "merge_heap_ok ops rest (newMergeIter cs)"
    using assms by (auto simp: merge_heap_ok_def newMergeIter_def is_heap_def heap_from_def)
  ultimately show ?thesis unfolding merge_inv_def using assms by (auto simp: newMergeIter_def)
qed

end

end
