(* ===== verification/Block.thy ===== *)
theory Block
  imports Iter
begin

text \<open>
  Blocks of a table (\<open>src/storage/block.go\<close>): prefix-compressed entries, restart offsets, and the
  iterator that decodes them, with its binary search over the restart points. An operation that can
  panic on a malformed block returns an option, None being the panic; a decoding that is refused is
  \<open>Err\<close>.
\<close>

section \<open>Building\<close>

definition restartInterval :: nat where "restartInterval = 16"

record blockBuilder =
  bb_buf :: bytes
  bb_restarts :: "u32 list"
  bb_lastKey :: bytes
  bb_count :: nat

fun shared_prefix :: "bytes \<Rightarrow> bytes \<Rightarrow> nat" where
  "shared_prefix (a # as) (b # bs) = (if a = b then Suc (shared_prefix as bs) else 0)"
| "shared_prefix as bs = 0"

definition newBuilder :: blockBuilder where
  "newBuilder = \<lparr>bb_buf = [], bb_restarts = [], bb_lastKey = [], bb_count = 0\<rparr>"

definition encode_entry :: "nat \<Rightarrow> bytes \<Rightarrow> bytes \<Rightarrow> bytes" where
  "encode_entry shared key val =
     put_uvarint shared @ put_uvarint (length key - shared) @ put_uvarint (length val) @ drop shared key @ val"

definition builder_add :: "blockBuilder \<Rightarrow> bytes \<Rightarrow> bytes \<Rightarrow> blockBuilder" where
  "builder_add b key val =
     (let restart = (bb_count b mod restartInterval = 0);
          shared = (if restart then 0 else shared_prefix key (bb_lastKey b))
      in \<lparr>bb_buf = bb_buf b @ encode_entry shared key val,
          bb_restarts = (if restart then bb_restarts b @ [word_of_nat (length (bb_buf b))] else bb_restarts b),
          bb_lastKey = key,
          bb_count = bb_count b + 1\<rparr>)"

definition builder_size :: "blockBuilder \<Rightarrow> nat" where
  "builder_size b = length (bb_buf b) + 4 * length (bb_restarts b) + 4"

definition builder_empty :: "blockBuilder \<Rightarrow> bool" where
  "builder_empty b \<longleftrightarrow> bb_count b = 0"

definition builder_finish :: "blockBuilder \<Rightarrow> bytes" where
  "builder_finish b =
     bb_buf b @ concat (map put_le32 (bb_restarts b)) @ put_le32 (word_of_nat (length (bb_restarts b)))"

definition builder_reset :: "blockBuilder \<Rightarrow> blockBuilder" where
  "builder_reset b = newBuilder"

section \<open>Iterating\<close>

record blockIter =
  bi_data :: bytes
  bi_restarts :: "u32 list"
  bi_off :: int
  bi_nextOff :: nat
  bi_k :: bytes
  bi_v :: bytes
  bi_err :: "storage_error option"

definition newBlockIter :: "bytes \<Rightarrow> storage_error + blockIter" where
  "newBlockIter block =
     (if length block < 4 then Inl errBadBlock
      else let n = unat (get_le32 (drop (length block - 4) block)); end' = int (length block) - 4 - 4 * int n
        in if end' < 0 then Inl errBadBlock
           else let e = nat end'; restarts = map (\<lambda>i. get_le32 (drop (e + 4 * i) block)) [0..<n]
             in if \<exists>r \<in> set restarts. unat r > e then Inl errBadBlock
                else Inr \<lparr>bi_data = take e block, bi_restarts = restarts, bi_off = - 1, bi_nextOff = 0,
                         bi_k = [], bi_v = [], bi_err = None\<rparr>)"

text \<open>
  \<open>decodeAt\<close>: slicing at a negative offset panics, and so does a length that is negative or wraps as an
  \<open>int\<close> once the check on the sum has let it pass.
\<close>

definition int64 :: "nat \<Rightarrow> int" where
  "int64 n = sint (word_of_nat n :: u64)"

definition slice_from :: "bytes \<Rightarrow> int \<Rightarrow> bytes option" where
  "slice_from d n = (if n < 0 \<or> n > int (length d) then None else Some (drop (nat n) d))"

definition decode_body :: "bytes \<Rightarrow> bytes \<Rightarrow> nat \<Rightarrow> nat \<Rightarrow> nat \<Rightarrow> nat \<Rightarrow> (bytes \<times> bytes \<times> nat) option" where
  "decode_body d prev hdr shared unshared vlen =
     (if shared > length prev \<or> hdr + unshared + vlen > length d then None
      else Some (take shared prev @ take unshared (drop hdr d), take vlen (drop (hdr + unshared) d), hdr + unshared + vlen))"

definition decodeAt :: "bytes \<Rightarrow> nat \<Rightarrow> bytes \<Rightarrow> (unit, bytes \<times> bytes \<times> nat) outcome" where
  "decodeAt data off prev =
     (let d = drop off data; (shared, n1) = uvarint d
      in case slice_from d n1 of
           None \<Rightarrow> Panic
         | Some d1 \<Rightarrow>
             (let (unshared, n2) = uvarint d1
              in case slice_from d (n1 + n2) of
                   None \<Rightarrow> Panic
                 | Some d2 \<Rightarrow>
                     (let (vlen, n3) = uvarint d2; hdr = n1 + n2 + n3
                      in if n1 \<le> 0 \<or> n2 \<le> 0 \<or> n3 \<le> 0 \<or> int64 shared > int (length prev)
                            \<or> int64 (nat hdr + unshared + vlen) > int (length d)
                         then Err ()
                         else case decode_body d prev (nat hdr) shared unshared vlen of
                                None \<Rightarrow> Panic
                              | Some r \<Rightarrow> Ok r)))"

definition blockIter_valid :: "blockIter \<Rightarrow> bool" where
  "blockIter_valid it \<longleftrightarrow> bi_off it \<ge> 0 \<and> bi_err it = None"

definition blockIter_next :: "blockIter \<Rightarrow> blockIter option" where
  "blockIter_next it =
     (if bi_nextOff it \<ge> length (bi_data it) then Some (it\<lparr>bi_off := - 1\<rparr>)
      else case decodeAt (bi_data it) (bi_nextOff it) (bi_k it) of
             Panic \<Rightarrow> None
           | Err _ \<Rightarrow> Some (it\<lparr>bi_err := Some errBadBlock, bi_off := - 1\<rparr>)
           | Ok (k, v, n) \<Rightarrow> Some (it\<lparr>bi_off := int (bi_nextOff it), bi_k := k, bi_v := v, bi_nextOff := bi_nextOff it + n\<rparr>))"

definition blockIter_seekToFirst :: "blockIter \<Rightarrow> blockIter option" where
  "blockIter_seekToFirst it = blockIter_next (it\<lparr>bi_k := [], bi_nextOff := 0\<rparr>)"

text \<open>The closure that \<open>seek\<close> passes to \<open>sort.Search\<close>; a key shorter than its trailer makes the comparison panic.\<close>

definition restart_ge :: "blockIter \<Rightarrow> bytes \<Rightarrow> nat \<Rightarrow> bool option" where
  "restart_ge it target i =
     (case decodeAt (bi_data it) (unat (bi_restarts it ! i)) [] of
        Panic \<Rightarrow> None
      | Err _ \<Rightarrow> Some True
      | Ok (k, _) \<Rightarrow> if wf_ikey k then Some (compareInternalKey k target \<ge> 0) else None)"

function search_opt :: "(nat \<Rightarrow> bool option) \<Rightarrow> nat \<Rightarrow> nat \<Rightarrow> nat option" where
  "search_opt f i j =
     (if i < j then
        (let h = (i + j) div 2
         in case f h of None \<Rightarrow> None | Some b \<Rightarrow> if \<not> b then search_opt f (h + 1) j else search_opt f i h)
      else Some i)"
  by pat_completeness auto
termination
  by (relation "measure (\<lambda>(f, i, j). j - i)") auto

declare search_opt.simps [simp del]

lemma decodeAt_advances: "decodeAt data off prev = Ok (k, v, n) \<Longrightarrow> n \<ge> 3 \<and> n \<le> length data - off"
  by (auto simp: decodeAt_def decode_body_def Let_def split: prod.splits option.splits if_splits)

lemma blockIter_next_progress:
  "blockIter_next it = Some it' \<Longrightarrow> blockIter_valid it' \<Longrightarrow>
   bi_data it' = bi_data it \<and> bi_nextOff it < bi_nextOff it' \<and> bi_nextOff it' \<le> length (bi_data it)"
  by (auto simp: blockIter_next_def blockIter_valid_def split: if_splits outcome.splits dest!: decodeAt_advances)

text \<open>The linear scan after the binary search.\<close>

function scan_to :: "bytes \<Rightarrow> blockIter \<Rightarrow> blockIter option" where
  "scan_to target it =
     (if \<not> blockIter_valid it then Some it
      else if \<not> wf_ikey (bi_k it) then None
      else if compareInternalKey (bi_k it) target < 0 then
        (case blockIter_next it of None \<Rightarrow> None | Some it' \<Rightarrow> if blockIter_valid it' then scan_to target it' else Some it')
      else Some it)"
  by pat_completeness auto
termination
  by (relation "measure (\<lambda>(t, it). length (bi_data it) - bi_nextOff it)") (auto dest!: blockIter_next_progress)

declare scan_to.simps [simp del]

definition blockIter_seek :: "bytes \<Rightarrow> blockIter \<Rightarrow> blockIter option" where
  "blockIter_seek target it =
     (case search_opt (restart_ge it target) 0 (length (bi_restarts it)) of
        None \<Rightarrow> None
      | Some i0 \<Rightarrow>
          if bi_restarts it = [] then Some (it\<lparr>bi_off := - 1\<rparr>)
          else (case blockIter_next (it\<lparr>bi_k := [], bi_nextOff := unat (bi_restarts it ! (i0 - 1))\<rparr>) of
                  None \<Rightarrow> None
                | Some it' \<Rightarrow> scan_to target it'))"

section \<open>What a built block decodes to\<close>

definition build :: "entry list \<Rightarrow> blockBuilder" where
  "build es = foldl (\<lambda>b e. builder_add b (fst e) (snd e)) newBuilder es"

definition entry_off :: "entry list \<Rightarrow> nat \<Rightarrow> nat" where
  "entry_off es i = length (bb_buf (build (take i es)))"

definition entry_shared :: "entry list \<Rightarrow> nat \<Rightarrow> nat" where
  "entry_shared es i = (if i mod restartInterval = 0 then 0 else shared_prefix (fst (es ! i)) (fst (es ! (i - 1))))"

definition entry_enc :: "entry list \<Rightarrow> nat \<Rightarrow> bytes" where
  "entry_enc es i = encode_entry (entry_shared es i) (fst (es ! i)) (snd (es ! i))"

lemma build_Nil [simp]: "build [] = newBuilder"
  by (simp add: build_def)

lemma build_snoc [simp]: "build (es @ [e]) = builder_add (build es) (fst e) (snd e)"
  by (simp add: build_def)

lemma build_count [simp]: "bb_count (build es) = length es"
  by (induction es rule: rev_induct) (simp_all add: newBuilder_def builder_add_def Let_def)

lemma build_lastKey: "es \<noteq> [] \<Longrightarrow> bb_lastKey (build es) = fst (last es)"
  by (induction es rule: rev_induct) (simp_all add: builder_add_def Let_def)

lemma build_buf_Suc:
  assumes "i < length es"
  shows "bb_buf (build (take (Suc i) es)) = bb_buf (build (take i es)) @ entry_enc es i"
proof -
  have "bb_lastKey (build (take i es)) = fst (es ! (i - 1))" if "i \<noteq> 0"
  proof -
    have "take i es \<noteq> []" using assms that by auto
    from build_lastKey [OF this] last_conv_nth [OF this] show ?thesis using assms that by (simp add: min_def)
  qed
  then show ?thesis
    using assms build_snoc [of "[]"] by (cases "i = 0") (simp_all add: newBuilder_def take_Suc_conv_app_nth builder_add_def Let_def entry_enc_def entry_shared_def min_def)
qed

lemma entry_off_0 [simp]: "entry_off es 0 = 0"
  by (simp add: entry_off_def newBuilder_def)

lemma entry_off_Suc: "i < length es \<Longrightarrow> entry_off es (Suc i) = entry_off es i + length (entry_enc es i)"
  by (simp add: entry_off_def build_buf_Suc)

lemma entry_off_all: "length es \<le> i \<Longrightarrow> entry_off es i = length (bb_buf (build es))"
  by (simp add: entry_off_def)

lemma build_buf_prefix: "\<exists>r. bb_buf (build es) = bb_buf (build (take i es)) @ r"
proof (induction "length es - i" arbitrary: i)
  case (Suc n)
  then obtain r where "bb_buf (build es) = bb_buf (build (take (Suc i) es)) @ r" by (metis diff_Suc_Suc diff_diff_cancel Suc_diff_Suc Suc_inject zero_less_Suc zero_less_diff)
  moreover have "i < length es" using Suc.hyps(2) by simp
  ultimately show ?case by (simp add: build_buf_Suc)
qed simp

lemma take_entry_off: "take (entry_off es i) (bb_buf (build es)) = bb_buf (build (take i es))"
  using build_buf_prefix [of es i] by (auto simp: entry_off_def)

lemma drop_entry_off:
  assumes "i < length es"
  shows "drop (entry_off es i) (bb_buf (build es)) = entry_enc es i @ drop (entry_off es (Suc i)) (bb_buf (build es))"
proof -
  obtain r where r: "bb_buf (build es) = bb_buf (build (take (Suc i) es)) @ r" using build_buf_prefix by blast
  show ?thesis
    unfolding r using build_buf_Suc [OF assms] by (simp add: entry_off_Suc [OF assms]) (simp add: entry_off_def)
qed

lemma entry_off_le: "entry_off es i \<le> length (bb_buf (build es))"
  using build_buf_prefix [of es i] by (auto simp: entry_off_def)

lemma length_encode_entry_ge:
  "s \<le> length key \<Longrightarrow> length (encode_entry s key v) \<ge> 3 \<and> length key - s + length v \<le> length (encode_entry s key v)"
proof -
  have "length (put_uvarint x) \<ge> 1" for x using put_uvarint_nonempty [of x] by (cases "put_uvarint x") auto
  from this [of s] this [of "length key - s"] this [of "length v"] show ?thesis by (simp add: encode_entry_def)
qed

lemma entry_off_strict: "i < j \<Longrightarrow> j \<le> length es \<Longrightarrow> entry_off es i < entry_off es j"
proof (induction j)
  case (Suc j)
  have "length (entry_enc es j) > 0" by (simp add: entry_enc_def encode_entry_def)
  then have "entry_off es j < entry_off es (Suc j)" using entry_off_Suc [of j es] Suc.prems by simp
  then show ?case using Suc by (cases "i = j") auto
qed simp

lemma shared_prefix_le: "shared_prefix a b \<le> length a \<and> shared_prefix a b \<le> length b
    \<and> take (shared_prefix a b) a = take (shared_prefix a b) b"
  by (induction a b rule: shared_prefix.induct) auto

lemma int64_small: "n < 2 ^ 63 \<Longrightarrow> int64 n = int n"
  by (simp add: int64_def signed_of_nat signed_take_bit_int_eq_self)

lemma decodeAt_encode:
  assumes d: "drop off data = encode_entry s key v @ r"
    and s: "s \<le> length key" "s \<le> length prev" "take s prev = take s key"
    and len: "length data < 2 ^ 32" "length key < 2 ^ 32"
  shows "decodeAt data off prev = Ok (key, v, length (encode_entry s key v))"
proof -
  define n1 n2 n3 where "n1 = length (put_uvarint s)" "n2 = length (put_uvarint (length key - s))" "n3 = length (put_uvarint (length v))"
  have le: "length (encode_entry s key v) \<le> length data" using d by (metis length_append length_drop le_add1 le_trans diff_le_self)
  have L: "length (encode_entry s key v) = n1 + n2 + n3 + (length key - s) + length v"
    using s(1) by (simp add: encode_entry_def n1_n2_n3_def)
  have pos: "n1 > 0" "n2 > 0" "n3 > 0" by (simp_all add: n1_n2_n3_def)
  have vals: "s < 2 ^ 64" "length key - s < 2 ^ 64" "length v < 2 ^ 64" using s(1) len L le by auto
  let ?d = "drop off data"
  have u1: "uvarint ?d = (s, int n1)" using vals(1) by (simp add: d encode_entry_def n1_n2_n3_def)
  have d1: "drop n1 ?d = put_uvarint (length key - s) @ put_uvarint (length v) @ drop s key @ v @ r"
    by (simp add: d encode_entry_def n1_n2_n3_def del: drop_drop)
  have u2: "uvarint (drop n1 ?d) = (length key - s, int n2)" using vals(2) unfolding d1 by (simp add: n1_n2_n3_def)
  have d2: "drop (n1 + n2) ?d = put_uvarint (length v) @ drop s key @ v @ r"
    using arg_cong [OF d1, of "drop n2"] by (simp add: n1_n2_n3_def ac_simps)
  have u3: "uvarint (drop (n1 + n2) ?d) = (length v, int n3)" using vals(3) unfolding d2 by (simp add: n1_n2_n3_def)
  have d3: "drop (n1 + n2 + n3) ?d = drop s key @ v @ r"
    using arg_cong [OF d2, of "drop n3"] by (simp add: n1_n2_n3_def ac_simps)
  have len_d: "n1 + n2 + n3 + (length key - s) + length v \<le> length ?d" unfolding d length_append L by simp
  have sl: "slice_from ?d (int n1) = Some (drop n1 ?d)" "slice_from ?d (int n1 + int n2) = Some (drop (n1 + n2) ?d)"
    using len_d by (simp_all add: slice_from_def nat_add_distrib del: drop_drop length_drop)
  have "n1 + n2 + n3 + (length key - s) + length v < 2 ^ 63" "s < 2 ^ 63" using s(1) len len_d by simp_all
  then have i64: "int64 s = int s" "int64 (n1 + n2 + n3 + (length key - s) + length v)
      = int (n1 + n2 + n3 + (length key - s) + length v)"
    by (simp_all only: int64_small)
  have body: "decode_body ?d prev (n1 + n2 + n3) s (length key - s) (length v) = Some (key, v, length (encode_entry s key v))"
  proof -
    have "drop (n1 + n2 + n3 + (length key - s)) ?d = v @ r"
      using arg_cong [OF d3, of "drop (length key - s)"] s(1) by (simp add: ac_simps)
    moreover have "take s prev @ take (length key - s) (drop s key @ v @ r) = key" using s by simp
    moreover have "n1 + n2 + n3 + (length key - s) + length v \<le> length ?d" using len_d .
    ultimately show ?thesis
      unfolding decode_body_def d3 L using s(2) by (simp only: not_less [symmetric] if_False simp_thms take_append) simp
  qed
  show ?thesis
    unfolding decodeAt_def Let_def u1 prod.case sl option.case u2 u3
    using pos s(2) i64 body len_d by (simp add: nat_add_distrib del: drop_drop length_drop)
qed

section \<open>The iterator over a built block\<close>

definition block_ok :: "entry list \<Rightarrow> bool" where
  "block_ok es \<longleftrightarrow> length (bb_buf (build es)) < 2 ^ 32 \<and> (\<forall>e \<in> set es. length (fst e) < 2 ^ 32)"

definition restarts_of :: "entry list \<Rightarrow> u32 list" where
  "restarts_of es = map (\<lambda>j. word_of_nat (entry_off es (restartInterval * j))) [0..<(length es + 15) div restartInterval]"

lemma entry_off_append: "i \<le> length es \<Longrightarrow> entry_off (es @ fs) i = entry_off es i"
  by (simp add: entry_off_def)

lemma restart_count: "(16 + n) div 16 = (if n mod 16 = 0 then Suc ((n + 15) div 16) else (n + 15) div (16 :: nat))"
proof -
  define q r where "q = n div 16" and "r = n mod 16"
  have n: "n = 16 * q + r" "r < 16" by (simp_all add: q_def r_def)
  have "(n + 15) div 16 = q + (r + 15) div 16" by (simp add: n(1) div_mult_self2 add.assoc)
  moreover have "(r + 15) div 16 = (if r = 0 then 0 else 1)" using n(2) by (auto intro: div_nat_eqI)
  moreover have "(16 + n) div 16 = Suc q" using n by simp
  ultimately show ?thesis by (simp add: r_def)
qed

lemma build_restarts: "bb_restarts (build es) = restarts_of es"
proof (induction es rule: rev_induct)
  case (snoc e es)
  have same: "map (\<lambda>j. word_of_nat (entry_off (es @ [e]) (restartInterval * j))) [0..<(length es + 15) div restartInterval] = restarts_of es"
    by (auto simp: restarts_of_def restartInterval_def intro!: arg_cong [where f = word_of_nat] entry_off_append)
  have n: "(length (es @ [e]) + 15) div restartInterval
      = (if length es mod restartInterval = 0 then Suc ((length es + 15) div restartInterval) else (length es + 15) div restartInterval)"
    using restart_count [of "length es"] by (simp add: restartInterval_def)
  have z: "restartInterval * ((length es + 15) div restartInterval) = length es" if "length es mod restartInterval = 0"
  proof -
    from that obtain q where "length es = 16 * q" unfolding restartInterval_def mod_eq_0_iff_dvd by (elim dvdE)
    then show ?thesis by (simp add: restartInterval_def)
  qed
  show ?case
  proof (cases "length es mod restartInterval = 0")
    case True
    have "restarts_of (es @ [e]) = restarts_of es @ [word_of_nat (entry_off (es @ [e]) (length es))]"
      unfolding restarts_of_def [of "es @ [e]"] n using True z [OF True] same by simp
    then show ?thesis using True snoc by (simp add: builder_add_def Let_def entry_off_def)
  next
    case False
    have "restarts_of (es @ [e]) = restarts_of es" unfolding restarts_of_def [of "es @ [e]"] n using False same by simp
    then show ?thesis using False snoc by (simp add: builder_add_def Let_def)
  qed
qed (simp add: newBuilder_def restarts_of_def restartInterval_def)

lemma concat_put_le32_nth:
  "i < length rs \<Longrightarrow> drop (4 * i) (concat (map put_le32 rs)) = put_le32 (rs ! i) @ drop (4 * Suc i) (concat (map put_le32 rs))"
proof (induction rs arbitrary: i)
  case (Cons r rs)
  then show ?case by (cases i) simp_all
qed simp

lemma length_concat_put_le32 [simp]: "length (concat (map put_le32 rs)) = 4 * length rs"
  by (induction rs) simp_all

lemma length_restarts_of [simp]: "length (restarts_of es) = (length es + 15) div restartInterval"
  by (simp add: restarts_of_def)

lemma restarts_of_nth:
  assumes "block_ok es" and "j < length (restarts_of es)"
  shows "unat (restarts_of es ! j) = entry_off es (restartInterval * j)"
proof -
  have "entry_off es (restartInterval * j) < 2 ^ 32"
    using entry_off_le [of es] assms(1) le_less_trans unfolding block_ok_def by blast
  then show ?thesis using assms(2) by (simp add: restarts_of_def unat_of_nat)
qed

lemma length_entries_le_buf: "length es \<le> length (bb_buf (build es))"
proof -
  have "i \<le> length es \<Longrightarrow> i \<le> entry_off es i" for i
  proof (induction i)
    case (Suc i)
    then have "entry_off es i < entry_off es (Suc i)" by (intro entry_off_strict) simp_all
    then show ?case using Suc by simp
  qed simp
  from this [of "length es"] show ?thesis using entry_off_all [of es "length es"] by simp
qed

definition opened :: "entry list \<Rightarrow> blockIter" where
  "opened es = \<lparr>bi_data = bb_buf (build es), bi_restarts = restarts_of es, bi_off = - 1, bi_nextOff = 0,
     bi_k = [], bi_v = [], bi_err = None\<rparr>"

lemma newBlockIter_finish:
  assumes ok: "block_ok es"
  shows "newBlockIter (builder_finish (build es)) = Inr (opened es)"
proof -
  define rs where "rs = restarts_of es"
  define block where "block = builder_finish (build es)"
  have b: "block = bb_buf (build es) @ concat (map put_le32 rs) @ put_le32 (word_of_nat (length rs))"
    by (simp add: block_def builder_finish_def build_restarts rs_def)
  have l: "length block = length (bb_buf (build es)) + 4 * length rs + 4" by (simp add: b)
  have "length rs \<le> length es" by (simp add: rs_def restartInterval_def)
  then have "length rs < 2 ^ 32" using length_entries_le_buf [of es] ok by (simp add: block_ok_def)
  moreover have "drop (length block - 4) block = put_le32 (word_of_nat (length rs)) @ []"
    unfolding l by (simp add: b)
  ultimately have n: "unat (get_le32 (drop (length block - 4) block)) = length rs"
    by (simp only: get_le32_put) (simp add: unat_of_nat)
  have e: "int (length block) - 4 - 4 * int (length rs) = int (length (bb_buf (build es)))" by (simp add: l)
  have rs: "map (\<lambda>i. get_le32 (drop (length (bb_buf (build es)) + 4 * i) block)) [0..<length rs] = rs"
  proof (rule nth_equalityI)
    fix i assume "i < length (map (\<lambda>i. get_le32 (drop (length (bb_buf (build es)) + 4 * i) block)) [0..<length rs])"
    then have i: "i < length rs" by simp
    have "drop (length (bb_buf (build es)) + 4 * i) block
        = put_le32 (rs ! i) @ drop (4 * Suc i) (concat (map put_le32 rs)) @ put_le32 (word_of_nat (length rs))"
      using concat_put_le32_nth [OF i] i by (simp add: b)
    then show "map (\<lambda>i. get_le32 (drop (length (bb_buf (build es)) + 4 * i) block)) [0..<length rs] ! i = rs ! i"
      using i by simp
  qed simp
  have "\<not> (\<exists>r \<in> set rs. unat r > length (bb_buf (build es)))"
    using restarts_of_nth [OF ok] entry_off_le [of es] by (auto simp: rs_def in_set_conv_nth not_less simp del: length_restarts_of)
  then show ?thesis
    unfolding newBlockIter_def Let_def block_def [symmetric] n e
    using l rs by (simp add: opened_def rs_def [symmetric]) (simp add: b)
qed

definition bi_ok :: "entry list \<Rightarrow> blockIter \<Rightarrow> bool" where
  "bi_ok es it \<longleftrightarrow> block_ok es \<and> bi_data it = bb_buf (build es) \<and> bi_restarts it = restarts_of es \<and> bi_err it = None"

text \<open>About to decode entry \<open>i\<close>, and standing on it.\<close>

definition bi_pre :: "entry list \<Rightarrow> blockIter \<Rightarrow> nat \<Rightarrow> bool" where
  "bi_pre es it i \<longleftrightarrow> bi_ok es it \<and> i \<le> length es \<and> bi_nextOff it = entry_off es i
     \<and> (i < length es \<longrightarrow> i mod restartInterval = 0 \<or> i > 0 \<and> bi_k it = fst (es ! (i - 1)))"

definition bi_at :: "entry list \<Rightarrow> blockIter \<Rightarrow> nat \<Rightarrow> bool" where
  "bi_at es it i \<longleftrightarrow> bi_ok es it \<and> i \<le> length es
     \<and> (if i < length es
        then bi_off it = int (entry_off es i) \<and> bi_nextOff it = entry_off es (Suc i) \<and> (bi_k it, bi_v it) = es ! i
        else bi_off it = - 1)"

lemma bi_at_valid: "bi_at es it i \<Longrightarrow> blockIter_valid it \<longleftrightarrow> i < length es"
  by (auto simp: bi_at_def bi_ok_def blockIter_valid_def split: if_splits)

lemma bi_at_pre: "bi_at es it i \<Longrightarrow> i < length es \<Longrightarrow> bi_pre es it (Suc i)"
  by (simp add: bi_at_def bi_pre_def) (metis fst_conv)

lemma blockIter_next_at:
  assumes pre: "bi_pre es it i"
  shows "\<exists>it'. blockIter_next it = Some it' \<and> bi_at es it' i"
proof (cases "i < length es")
  case False
  then have "entry_off es i = length (bb_buf (build es))" by (simp add: entry_off_all)
  then show ?thesis using pre False by (simp add: bi_pre_def bi_at_def bi_ok_def blockIter_next_def)
next
  case True
  let ?k = "fst (es ! i)" and ?v = "snd (es ! i)" and ?s = "entry_shared es i"
  have ok: "block_ok es" "bi_data it = bb_buf (build es)" "bi_nextOff it = entry_off es i" "bi_err it = None"
    using pre by (simp_all add: bi_pre_def bi_ok_def)
  have sh: "?s \<le> length ?k" "?s \<le> length (bi_k it)" "take ?s (bi_k it) = take ?s ?k"
    using pre True shared_prefix_le [of ?k "fst (es ! (i - 1))"] by (auto simp: bi_pre_def entry_shared_def)
  have dec: "decodeAt (bi_data it) (bi_nextOff it) (bi_k it) = Ok (?k, ?v, length (entry_enc es i))"
    unfolding entry_enc_def
    by (rule decodeAt_encode [where r = "drop (entry_off es (Suc i)) (bb_buf (build es))"])
      (use ok sh True drop_entry_off [OF True] in \<open>auto simp: entry_enc_def block_ok_def\<close>)
  have lt: "entry_off es i < length (bb_buf (build es))"
    using entry_off_strict [of i "length es" es] True entry_off_all [of es "length es"] by simp
  show ?thesis
    using dec lt ok True pre entry_off_Suc [OF True] by (simp add: blockIter_next_def bi_at_def bi_pre_def bi_ok_def)
qed

lemma blockIter_seekToFirst_at:
  assumes "bi_ok es it"
  shows "\<exists>it'. blockIter_seekToFirst it = Some it' \<and> bi_at es it' 0"
  unfolding blockIter_seekToFirst_def
  by (rule blockIter_next_at) (use assms in \<open>simp add: bi_pre_def bi_ok_def\<close>)

lemma search_opt_total:
  assumes "\<And>h. i \<le> h \<Longrightarrow> h < j \<Longrightarrow> f h = Some (g h)"
  shows "search_opt f i j = Some (search_from g i j)"
  using assms
proof (induction g i j rule: search_from.induct)
  case (1 g i j)
  show ?case
  proof (cases "i < j")
    case True
    let ?h = "(i + j) div 2"
    have h: "i \<le> ?h" "?h < j" using True by auto
    then have fh: "f ?h = Some (g ?h)" using "1.prems" by blast
    show ?thesis
    proof (cases "g ?h")
      case False
      have "search_opt f (?h + 1) j = Some (search_from g (?h + 1) j)"
        by (rule "1.IH"(1) [OF True refl False]) (use "1.prems" h in auto)
      then show ?thesis using True fh False by (simp add: search_opt.simps [of f i j] search_from.simps [of g i j] Let_def)
    next
      case g: True
      have "search_opt f i ?h = Some (search_from g i ?h)"
        by (rule "1.IH"(2) [OF True refl]) (use "1.prems" h g in auto)
      then show ?thesis using True fh g by (simp add: search_opt.simps [of f i j] search_from.simps [of g i j] Let_def)
    qed
  qed (simp add: search_opt.simps search_from.simps)
qed

lemma restart_index: "j < length (restarts_of es) \<Longrightarrow> restartInterval * j < length es"
  by (simp add: restartInterval_def)

lemma restart_ge_eq:
  assumes ok: "bi_ok es it" and j: "j < length (restarts_of es)" and wf: "\<forall>e \<in> set es. wf_entry e"
  shows "restart_ge it target j = Some (\<not> entry_before (es ! (restartInterval * j)) target)"
proof -
  let ?i = "restartInterval * j"
  have i: "?i < length es" using j by (rule restart_index)
  have b: "block_ok es" "bi_data it = bb_buf (build es)" "bi_restarts it = restarts_of es" using ok by (simp_all add: bi_ok_def)
  have "entry_shared es ?i = 0" by (simp add: entry_shared_def)
  then have "decodeAt (bi_data it) (unat (bi_restarts it ! j)) [] = Ok (fst (es ! ?i), snd (es ! ?i), length (entry_enc es ?i))"
    unfolding entry_enc_def b(3) restarts_of_nth [OF b(1) j]
    by (intro decodeAt_encode [where r = "drop (entry_off es (Suc ?i)) (bb_buf (build es))"])
      (use b i drop_entry_off [OF i] in \<open>auto simp: entry_enc_def block_ok_def\<close>)
  moreover have "wf_ikey (fst (es ! ?i))" using wf i by (auto simp: wf_entry_def)
  ultimately show ?thesis by (simp add: restart_ge_def entry_before_def not_less)
qed

lemma scan_to_at:
  assumes "bi_at es it i" and "\<forall>e \<in> set es. wf_entry e"
  shows "\<exists>it' j. scan_to target it = Some it' \<and> bi_at es it' j \<and> i \<le> j
    \<and> (\<forall>m. i \<le> m \<and> m < j \<longrightarrow> entry_before (es ! m) target) \<and> (j < length es \<longrightarrow> \<not> entry_before (es ! j) target)"
  using assms(1)
proof (induction "length es - i" arbitrary: it i)
  case 0
  then have i: "i = length es" by (simp add: bi_at_def)
  then have "\<not> blockIter_valid it" using 0 bi_at_valid by simp
  then have "scan_to target it = Some it" by (simp add: scan_to.simps)
  then show ?case using 0(2) i by (intro exI [of _ it] exI [of _ i]) auto
next
  case (Suc n)
  then have i: "i < length es" and v: "blockIter_valid it" using bi_at_valid [OF Suc.prems] by auto
  have k: "bi_k it = fst (es ! i)" "wf_ikey (fst (es ! i))"
    using Suc.prems i assms(2) by (auto simp: bi_at_def wf_entry_def dest: sym)
  show ?case
  proof (cases "entry_before (es ! i) target")
    case False
    then have "scan_to target it = Some it" using v k by (simp add: scan_to.simps entry_before_def)
    then show ?thesis using Suc.prems False by (intro exI [of _ it] exI [of _ i]) auto
  next
    case True
    obtain it1 where it1: "blockIter_next it = Some it1" "bi_at es it1 (Suc i)"
      using blockIter_next_at [OF bi_at_pre [OF Suc.prems i]] by blast
    have "n = length es - Suc i" using Suc.hyps(2) by simp
    from Suc.hyps(1) [OF this it1(2)] obtain it' j where IH: "scan_to target it1 = Some it'" "bi_at es it' j" "Suc i \<le> j"
        "\<forall>m. Suc i \<le> m \<and> m < j \<longrightarrow> entry_before (es ! m) target" "j < length es \<longrightarrow> \<not> entry_before (es ! j) target"
      by blast
    have "scan_to target it = Some it'"
      using v k it1(1) IH(1) True scan_to.simps [of target it1]
      by (auto simp add: scan_to.simps [of target it] entry_before_def split: if_splits)
    moreover have "entry_before (es ! m) target" if "i \<le> m" "m < j" for m
      using that IH(4) True by (cases "m = i") auto
    ultimately show ?thesis using IH(2,3,5) by (intro exI [of _ it'] exI [of _ j]) simp
  qed
qed

lemma seek_entries_drop:
  assumes "j \<le> length es" and "\<And>m. m < j \<Longrightarrow> entry_before (es ! m) k" and "j < length es \<Longrightarrow> \<not> entry_before (es ! j) k"
  shows "seek_entries k es = drop j es"
proof -
  have "takeWhile (\<lambda>e. entry_before e k) es = take j es"
    by (rule takeWhile_eq_take_P_nth) (use assms in auto)
  then show ?thesis using assms(1) by (simp add: seek_entries_def dropWhile_eq_drop)
qed

lemma sorted_before_mono:
  assumes "sorted_entries es" and "\<forall>e \<in> set es. wf_entry e" and "wf_ikey k"
    and "a \<le> b" "b < length es" "entry_before (es ! b) k"
  shows "entry_before (es ! a) k"
proof (cases "a = b")
  case False
  then have "\<not> entry_before (es ! b) (fst (es ! a))"
    using assms(1,4,5) by (simp add: sorted_entries_def sorted_wrt_iff_nth_less)
  then show ?thesis using entry_before_trans [of "es ! a" "es ! b" k] assms by simp
qed (use assms in simp)

lemma blockIter_seek_pos:
  assumes ok: "bi_ok es it" and so: "sorted_entries es" and wf: "\<forall>e \<in> set es. wf_entry e" and t: "wf_ikey target"
  shows "\<exists>it' j. blockIter_seek target it = Some it' \<and> bi_at es it' j
    \<and> (\<forall>m < j. entry_before (es ! m) target) \<and> (j < length es \<longrightarrow> \<not> entry_before (es ! j) target)"
proof -
  let ?n = "length (restarts_of es)"
  define g where "g = (\<lambda>j. \<not> entry_before (es ! (restartInterval * j)) target)"
  define p where "p = search_from g 0 ?n"
  have b: "bi_restarts it = restarts_of es" "block_ok es" using ok by (simp_all add: bi_ok_def)
  have se: "search_opt (restart_ge it target) 0 (length (bi_restarts it)) = Some p"
    unfolding b(1) p_def by (rule search_opt_total) (use restart_ge_eq [OF ok _ wf] in \<open>simp add: g_def\<close>)
  have mono: "g l" if "k \<le> l" "l < ?n" "g k" for k l
    using that sorted_before_mono [OF so wf t, of "restartInterval * k" "restartInterval * l"] restart_index [of l es]
    by (auto simp: g_def)
  have p: "p \<le> ?n" "\<And>k. k < p \<Longrightarrow> \<not> g k"
    using search_from_spec [of 0 ?n g] mono by (simp_all add: p_def)
  show ?thesis
  proof (cases "es = []")
    case True
    then have "bi_restarts it = []" by (simp add: b restarts_of_def restartInterval_def)
    then have "blockIter_seek target it = Some (it\<lparr>bi_off := - 1\<rparr>)" using se by (simp add: blockIter_seek_def)
    then show ?thesis using ok True by (auto simp: bi_at_def bi_ok_def seek_entries_def)
  next
    case False
    then have n0: "?n > 0" by (cases es) (simp_all add: restartInterval_def)
    define q where "q = p - 1"
    define i where "i = restartInterval * q"
    have pn: "q < ?n" using p(1) n0 unfolding q_def by linarith
    have i: "i < length es" unfolding i_def using pn by (rule restart_index)
    have "bi_pre es (it\<lparr>bi_k := [], bi_nextOff := unat (bi_restarts it ! q)\<rparr>) i"
      using ok i by (simp add: bi_pre_def bi_ok_def restarts_of_nth [OF b(2) pn] b(1)) (simp add: i_def)
    then obtain it1 where it1: "blockIter_next (it\<lparr>bi_k := [], bi_nextOff := unat (bi_restarts it ! q)\<rparr>) = Some it1" "bi_at es it1 i"
      using blockIter_next_at by blast
    obtain it' j where it': "scan_to target it1 = Some it'" "bi_at es it' j" "i \<le> j"
        "\<forall>m. i \<le> m \<and> m < j \<longrightarrow> entry_before (es ! m) target" "j < length es \<longrightarrow> \<not> entry_before (es ! j) target"
      using scan_to_at [OF it1(2) wf, of target] by blast
    have ne: "bi_restarts it \<noteq> []" using n0 b(1) by (auto simp del: length_restarts_of)
    have "blockIter_seek target it = Some it'" using se it1(1) it'(1) ne by (simp add: blockIter_seek_def q_def)
    moreover have "entry_before (es ! m) target" if m: "m < j" for m
    proof (cases "i \<le> m")
        case False
        then have "q < p" by (cases p) (simp_all add: i_def q_def)
        then have "entry_before (es ! i) target" using p(2) [of q] by (simp add: g_def i_def)
        then show ?thesis using sorted_before_mono [OF so wf t, of m i] False i by simp
    qed (use it'(4) m in simp)
    ultimately show ?thesis using it'(2,5) by (intro exI [of _ it'] exI [of _ j]) simp
  qed
qed

lemma blockIter_seek_at:
  assumes "bi_ok es it" "sorted_entries es" "\<forall>e \<in> set es. wf_entry e" "wf_ikey target"
  shows "\<exists>it' j. blockIter_seek target it = Some it' \<and> bi_at es it' j \<and> drop j es = seek_entries target es"
proof -
  obtain it' j where it': "blockIter_seek target it = Some it'" "bi_at es it' j"
      "\<forall>m < j. entry_before (es ! m) target" "j < length es \<longrightarrow> \<not> entry_before (es ! j) target"
    using blockIter_seek_pos [OF assms] by blast
  have "seek_entries target es = drop j es" by (rule seek_entries_drop) (use it' in \<open>auto simp: bi_at_def\<close>)
  then show ?thesis using it' by auto
qed

lemma opened_ok: "block_ok es \<Longrightarrow> bi_ok es (opened es)"
  by (simp add: bi_ok_def opened_def)

lemma block_steps:
  assumes "bi_ok es it" and "i \<le> length es"
  shows "\<exists>it'. ((\<lambda>x. Option.bind x blockIter_next) ^^ i) (blockIter_seekToFirst it) = Some it' \<and> bi_at es it' i"
  using assms(2)
proof (induction i)
  case 0
  then show ?case using blockIter_seekToFirst_at [OF assms(1)] by simp
next
  case (Suc i)
  then obtain it1 where "((\<lambda>x. Option.bind x blockIter_next) ^^ i) (blockIter_seekToFirst it) = Some it1" "bi_at es it1 i" by auto
  then show ?case using blockIter_next_at [OF bi_at_pre [of es it1 i]] Suc.prems by simp
qed

text \<open>
  C30: A block built from any list of entries opens, and iterating it from the start yields exactly
  those entries, in order, without a panic or an error; a seek to any internal key stops at the first
  entry that is not before it, or leaves the iterator exhausted when there is none.
\<close>

theorem block_iterates_and_seeks:
  assumes "block_ok es" and "sorted_entries es" and "\<forall>e \<in> set es. wf_entry e" and "wf_ikey target"
  shows "\<exists>it. newBlockIter (builder_finish (build es)) = Inr it
    \<and> (\<forall>i \<le> length es. \<exists>it'. ((\<lambda>x. Option.bind x blockIter_next) ^^ i) (blockIter_seekToFirst it) = Some it'
         \<and> (blockIter_valid it' \<longleftrightarrow> i < length es) \<and> (i < length es \<longrightarrow> (bi_k it', bi_v it') = es ! i))
    \<and> (\<exists>it'. blockIter_seek target it = Some it' \<and> (blockIter_valid it' \<longleftrightarrow> seek_entries target es \<noteq> [])
         \<and> (blockIter_valid it' \<longrightarrow> (bi_k it', bi_v it') = hd (seek_entries target es)))"
proof (rule exI [of _ "opened es"], intro conjI allI impI)
  show "newBlockIter (builder_finish (build es)) = Inr (opened es)" using assms(1) by (rule newBlockIter_finish)
  have ok: "bi_ok es (opened es)" using assms(1) by (rule opened_ok)
  fix i assume "i \<le> length es"
  then obtain it' where "((\<lambda>x. Option.bind x blockIter_next) ^^ i) (blockIter_seekToFirst (opened es)) = Some it'" "bi_at es it' i"
    using block_steps [OF ok] by blast
  then show "\<exists>it'. ((\<lambda>x. Option.bind x blockIter_next) ^^ i) (blockIter_seekToFirst (opened es)) = Some it'
      \<and> (blockIter_valid it' \<longleftrightarrow> i < length es) \<and> (i < length es \<longrightarrow> (bi_k it', bi_v it') = es ! i)"
    using bi_at_valid [of es it' i] by (intro exI [of _ it']) (simp add: bi_at_def)
next
  obtain it' j where it': "blockIter_seek target (opened es) = Some it'" "bi_at es it' j" "drop j es = seek_entries target es"
    using blockIter_seek_at [OF opened_ok [OF assms(1)] assms(2-4)] by blast
  have "hd (seek_entries target es) = es ! j" if "j < length es" using hd_drop_conv_nth [OF that] it'(3) by simp
  moreover have "seek_entries target es \<noteq> [] \<longleftrightarrow> j < length es" unfolding it'(3) [symmetric] by auto
  moreover have "(bi_k it', bi_v it') = es ! j" if "j < length es" using it'(2) that by (simp add: bi_at_def)
  ultimately show "\<exists>it'. blockIter_seek target (opened es) = Some it' \<and> (blockIter_valid it' \<longleftrightarrow> seek_entries target es \<noteq> [])
      \<and> (blockIter_valid it' \<longrightarrow> (bi_k it', bi_v it') = hd (seek_entries target es))"
    using it'(1) bi_at_valid [OF it'(2)] by (intro exI [of _ it']) simp
qed

lemma le_bytes_numeral: "le_bytes (numeral n) v = word_of_nat v # le_bytes (pred_numeral n) (v div 256)"
  by (subst numeral_eq_Suc) simp

theorem block_iterates_and_seeks_witness:
  "\<exists>it it'. newBlockIter (builder_finish (build [(makeInternalKey [1] 7 kindPut, [10]), (makeInternalKey [1, 2] 6 kindPut, [11])])) = Inr it
    \<and> blockIter_seek (makeInternalKey [1, 2] 9 kindPut) it = Some it' \<and> blockIter_valid it' \<and> bi_v it' = [11]"
proof -
  let ?es = "[(makeInternalKey [1] 7 kindPut, [10 :: u8]), (makeInternalKey [1, 2] 6 kindPut, [11])]"
  let ?t = "makeInternalKey [1, 2] 9 kindPut"
  have b: "block_ok ?es"
    by (simp add: block_ok_def build_def builder_add_def newBuilder_def encode_entry_def put_uvarint.simps makeInternalKey_def
        put_be64_def restartInterval_def trailer_word_def kindPut_def Let_def le_bytes_numeral)
  have so: "sorted_entries ?es" "seek_entries ?t ?es = [(makeInternalKey [1, 2] 6 kindPut, [11])]"
    by (simp_all add: sorted_entries_def seek_entries_def entry_before_def compareInternalKey_def trailer_word_def kindPut_def)
  have "\<forall>e \<in> set ?es. wf_entry e" by (simp add: wf_entry_def)
  from block_iterates_and_seeks [OF b so(1) this, of ?t] so(2) show ?thesis by auto
qed

end
