(* ===== verification/Bloom.thy ===== *)
theory Bloom
  imports Prelude
begin

unbundle bit_operations_syntax

text \<open>
  The Bloom filter of a table (\<open>src/storage/bloom.go\<close>): MurmurHash64A over the user key, seven
  probes at \<open>h1 + i * h2\<close> in 32-bit arithmetic. The filter is a byte string: the probe count, then
  the bit array. A filter over so many keys that its bit count is a multiple of \<open>2 ^ 32\<close> (430
  million keys) divides by zero in the source; the theorems are about smaller filters.
\<close>

section \<open>Model\<close>

definition bloomBitsPerKey :: nat where "bloomBitsPerKey = 10"
definition bloomProbes :: u8 where "bloomProbes = 7"

definition murmur_m :: u64 where "murmur_m = 0xc6a4a7935bd1e995"

definition hash64_block :: "u64 \<Rightarrow> u64 \<Rightarrow> u64" where
  "hash64_block h k0 =
     (let k1 = k0 * murmur_m; k2 = k1 XOR drop_bit 47 k1; k3 = k2 * murmur_m
      in (h XOR k3) * murmur_m)"

function hash64_loop :: "u64 \<Rightarrow> bytes \<Rightarrow> u64 \<times> bytes" where
  "hash64_loop h data =
     (if length data \<ge> 8 then hash64_loop (hash64_block h (get_le64 data)) (drop 8 data) else (h, data))"
  by pat_completeness auto
termination
  by (relation "measure (\<lambda>(h, data). length data)") auto

declare hash64_loop.simps [simp del]

definition hash64 :: "bytes \<Rightarrow> u64 \<Rightarrow> u64" where
  "hash64 data seed =
     (let (h, rest) = hash64_loop (seed XOR (word_of_nat (length data) * murmur_m)) data;
          h1 = (if length rest > 0 then (h XOR get_le64 (rest @ replicate (8 - length rest) 0)) * murmur_m else h);
          h2 = h1 XOR drop_bit 47 h1;
          h3 = h2 * murmur_m
      in h3 XOR drop_bit 47 h3)"

definition bloomHashes :: "bytes \<Rightarrow> u32 \<times> u32" where
  "bloomHashes key = (let h = hash64 key 0x9ae16a3b2f90404f in (ucast h, ucast (drop_bit 32 h) OR 1))"

definition bloom_pos :: "u32 \<times> u32 \<Rightarrow> nat \<Rightarrow> u32 \<Rightarrow> nat" where
  "bloom_pos hs i nbits = unat ((fst hs + word_of_nat i * snd hs) mod nbits)"

definition set_bit_at :: "bytes \<Rightarrow> nat \<Rightarrow> bytes" where
  "set_bit_at bits pos = bits[pos div 8 := bits ! (pos div 8) OR push_bit (pos mod 8) 1]"

definition add_key :: "u32 \<Rightarrow> bytes \<Rightarrow> bytes \<Rightarrow> bytes" where
  "add_key nbits bits k =
     foldl (\<lambda>bs i. set_bit_at bs (bloom_pos (bloomHashes k) i nbits)) bits [0..<unat bloomProbes]"

definition bloom_bytes :: "nat \<Rightarrow> nat" where
  "bloom_bytes n = (let nbits = n * bloomBitsPerKey in ((if nbits < 64 then 64 else nbits) + 7) div 8)"

definition buildBloom :: "bytes list \<Rightarrow> bytes" where
  "buildBloom keys =
     (let nbytes = bloom_bytes (length keys); nbits = nbytes * 8
      in bloomProbes # foldl (add_key (word_of_nat nbits)) (replicate nbytes 0) keys)"

definition mayContain :: "bytes \<Rightarrow> bytes \<Rightarrow> bool" where
  "mayContain f key =
     (if length f < 2 then True
      else let bits = tl f; nbits = word_of_nat (length bits * 8) :: u32; hs = bloomHashes key
        in list_all (\<lambda>i. bits ! (bloom_pos hs i nbits div 8) AND push_bit (bloom_pos hs i nbits mod 8) 1 \<noteq> 0)
             [0..<unat (hd f)])"

section \<open>No false negatives\<close>

definition bit_set :: "bytes \<Rightarrow> nat \<Rightarrow> bool" where
  "bit_set bits pos \<longleftrightarrow> bit (bits ! (pos div 8)) (pos mod 8)"

lemma and_push_bit_1: "(b :: u8) AND push_bit j 1 \<noteq> 0 \<longleftrightarrow> j < 8 \<and> bit b j"
proof -
  have "bit (b AND push_bit j 1) i \<longleftrightarrow> i = j \<and> j < 8 \<and> bit b j" for i
    by (auto simp: bit_and_iff bit_push_bit_iff bit_1_iff simp del: push_bit_of_1 dest: bit_imp_le_length)
  then show ?thesis by (metis bit_0_eq bit_eqI bot_apply bot_bool_def)
qed

lemma bit_or_push_bit: "bit ((b :: u8) OR push_bit j 1) i \<longleftrightarrow> bit b i \<or> i = j \<and> j < 8"
  by (auto simp: bit_or_iff bit_push_bit_iff bit_1_iff simp del: push_bit_of_1)

lemma length_set_bit_at [simp]: "length (set_bit_at bits pos) = length bits"
  by (simp add: set_bit_at_def)

lemma bit_set_set_bit_at:
  "pos < 8 * length bits \<Longrightarrow> bit_set (set_bit_at bits pos) q \<longleftrightarrow> bit_set bits q \<or> q = pos"
proof -
  assume "pos < 8 * length bits"
  then have "pos div 8 < length bits" by simp
  moreover have "q = pos \<longleftrightarrow> q div 8 = pos div 8 \<and> q mod 8 = pos mod 8"
    by (metis div_mult_mod_eq)
  ultimately show ?thesis
    by (cases "q div 8 = pos div 8") (auto simp: bit_set_def set_bit_at_def bit_or_push_bit simp del: push_bit_of_1)
qed

lemma set_all_bits:
  assumes "\<And>i. i \<in> set is \<Longrightarrow> f i < 8 * length bits"
  shows "length (foldl (\<lambda>bs i. set_bit_at bs (f i)) bits is) = length bits
    \<and> (bit_set (foldl (\<lambda>bs i. set_bit_at bs (f i)) bits is) q \<longleftrightarrow> bit_set bits q \<or> (\<exists>i \<in> set is. q = f i))"
  using assms by (induction "is" arbitrary: bits) (auto simp: bit_set_set_bit_at)

lemma bloom_pos_less: "nbits \<noteq> 0 \<Longrightarrow> bloom_pos hs i nbits < unat nbits"
  using word_mod_less_divisor [of nbits] by (auto simp: bloom_pos_def word_less_nat_alt word_neq_0_conv)

lemma add_key_bits:
  assumes "nbits \<noteq> 0" and "unat nbits = 8 * length bits"
  shows "length (add_key nbits bits k) = length bits
    \<and> (bit_set (add_key nbits bits k) q \<longleftrightarrow> bit_set bits q \<or> (\<exists>i < unat bloomProbes. q = bloom_pos (bloomHashes k) i nbits))"
  using set_all_bits [of "[0..<unat bloomProbes]" "\<lambda>i. bloom_pos (bloomHashes k) i nbits" bits q]
    bloom_pos_less [OF assms(1)] assms(2) by (auto simp: add_key_def)

lemma add_keys_bits:
  assumes "nbits \<noteq> 0" and "unat nbits = 8 * length bits"
  shows "length (foldl (add_key nbits) bits keys) = length bits
    \<and> (bit_set (foldl (add_key nbits) bits keys) q
        \<longleftrightarrow> bit_set bits q \<or> (\<exists>k \<in> set keys. \<exists>i < unat bloomProbes. q = bloom_pos (bloomHashes k) i nbits))"
  using assms(2)
proof (induction keys arbitrary: bits)
  case (Cons k ks)
  have l: "length (add_key nbits bits k) = length bits" using add_key_bits [OF assms(1) Cons.prems] by simp
  show ?case using Cons.IH [of "add_key nbits bits k"] add_key_bits [OF assms(1) Cons.prems] Cons.prems l by auto
qed simp

lemma bloom_bytes_bound: "10 * n + 71 < 2 ^ 32 \<Longrightarrow> 8 * bloom_bytes n < 2 ^ 32 \<and> 0 < bloom_bytes n"
  by (auto simp: bloom_bytes_def bloomBitsPerKey_def Let_def)

lemma length_buildBloom:
  assumes "10 * length keys + 71 < 2 ^ 32"
  shows "length (buildBloom keys) = 1 + bloom_bytes (length keys)"
proof -
  let ?n = "word_of_nat (bloom_bytes (length keys) * 8) :: u32"
  have u: "unat ?n = 8 * bloom_bytes (length keys)" using bloom_bytes_bound [OF assms] by (simp add: unat_of_nat del: of_nat_mult)
  have "?n \<noteq> 0" using u bloom_bytes_bound [OF assms] by (metis mult_is_0 neq0_conv unsigned_0 zero_neq_numeral)
  from add_keys_bits [OF this, of "replicate (bloom_bytes (length keys)) 0" keys] u show ?thesis
    by (simp add: buildBloom_def Let_def)
qed

text \<open>A filter contains exactly the probes of its keys, so a lookup asks for a subset of its bits.\<close>

lemma mayContain_buildBloom:
  assumes "10 * length keys + 71 < 2 ^ 32"
  shows "mayContain (buildBloom keys) k \<longleftrightarrow>
    (\<forall>i < unat bloomProbes. \<exists>k' \<in> set keys. \<exists>j < unat bloomProbes.
       bloom_pos (bloomHashes k) i (word_of_nat (bloom_bytes (length keys) * 8))
       = bloom_pos (bloomHashes k') j (word_of_nat (bloom_bytes (length keys) * 8)))"
proof -
  define nb where "nb = bloom_bytes (length keys)"
  define n where "n = (word_of_nat (nb * 8) :: u32)"
  define bits where "bits = foldl (add_key n) (replicate nb 0) keys"
  have nb: "8 * nb < 2 ^ 32" "0 < nb" using bloom_bytes_bound [OF assms] by (simp_all add: nb_def)
  have u: "unat n = 8 * nb" using nb(1) by (simp add: n_def unat_of_nat del: of_nat_mult)
  then have n0: "n \<noteq> 0" using nb(2) by auto
  have add: "length bits = nb" "bit_set bits q \<longleftrightarrow> bit_set (replicate nb 0) q
      \<or> (\<exists>k \<in> set keys. \<exists>i < unat bloomProbes. q = bloom_pos (bloomHashes k) i n)" for q
    using add_keys_bits [OF n0, of "replicate nb 0" keys q] u by (simp_all add: bits_def)
  have pos: "bloom_pos (bloomHashes k) i n < 8 * nb" for i using bloom_pos_less [OF n0, of "bloomHashes k" i] u by simp
  have zero: "\<not> bit_set (replicate nb 0) q" if "q < 8 * nb" for q
    using that by (simp add: bit_set_def less_mult_imp_div_less mult.commute)
  have f: "buildBloom keys = bloomProbes # bits"
    by (simp add: buildBloom_def bits_def n_def nb_def Let_def)
  have "mayContain (buildBloom keys) k \<longleftrightarrow> (\<forall>i < unat bloomProbes. bit_set bits (bloom_pos (bloomHashes k) i n))"
    using nb(2) add(1) unfolding f mayContain_def
    by (simp add: list_all_iff Let_def n_def and_push_bit_1 bit_set_def Ball_def del: push_bit_of_1)
  also have "\<dots> \<longleftrightarrow> (\<forall>i < unat bloomProbes. \<exists>k' \<in> set keys. \<exists>j < unat bloomProbes.
      bloom_pos (bloomHashes k) i n = bloom_pos (bloomHashes k') j n)"
    unfolding add(2) using zero [OF pos] by simp
  finally show ?thesis by (simp add: n_def nb_def)
qed

lemma mayContain_member:
  "10 * length keys + 71 < 2 ^ 32 \<Longrightarrow> k \<in> set keys \<Longrightarrow> mayContain (buildBloom keys) k"
  by (auto simp: mayContain_buildBloom)

text \<open>
  C29: The Bloom filter has no false negatives: every key it was built from may be contained, for
  any set of keys that fits the filter's 32-bit positions.
\<close>

theorem bloom_no_false_negatives:
  assumes "10 * length keys + 71 < 2 ^ 32" and "k \<in> set keys"
  shows "mayContain (buildBloom keys) k \<and> length (buildBloom keys) \<ge> 9"
proof -
  have "8 \<le> bloom_bytes (length keys)" by (auto simp: bloom_bytes_def bloomBitsPerKey_def Let_def)
  then show ?thesis using mayContain_member [OF assms] length_buildBloom [OF assms(1)] by simp
qed

theorem bloom_no_false_negatives_witness:
  "mayContain (buildBloom [[0x61], [0x62, 0x63]]) [0x62, 0x63] \<and> length (buildBloom [[0x61], [0x62, 0x63]]) \<ge> 9"
  using bloom_no_false_negatives [of "[[0x61], [0x62, 0x63]]" "[0x62, 0x63]"] by simp

end
