(* ===== verification/Batch.thy ===== *)
theory Batch
  imports Internal_Key
begin

text \<open>
  Write batches and their WAL payload (\<open>src/storage/batch.go\<close>): the payload is
  \<open>seq uint64 | count uint32 | (kind uint8 | klen uvarint | key | vlen uvarint | value)*\<close>.
  The length-prefixed field reader below is the code that \<open>decodeBatch\<close> inlines twice and
  that \<open>decodeManifest\<close> has as the closure \<open>readBytes\<close>.
\<close>

section \<open>Length-prefixed fields\<close>

definition put_lenbytes :: "bytes \<Rightarrow> bytes" where
  "put_lenbytes b = put_uvarint (length b) @ b"

definition readBytes :: "bytes \<Rightarrow> (bytes \<times> bytes) option" where
  "readBytes p =
     (let (l, k) = uvarint p
      in if k \<le> 0 \<or> length p - nat k < l then None
         else Some (take l (drop (nat k) p), drop (nat k + l) p))"

lemma readBytes_put [simp, codec]:
  "length b < 2 ^ 64 \<Longrightarrow> readBytes (put_lenbytes b @ r) = Some (b, r)"
  by (simp add: readBytes_def put_lenbytes_def)

section \<open>Model\<close>

record batchOp =
  op_kind :: keyKind
  op_key :: bytes
  op_value :: bytes

record Batch =
  b_ops :: "batchOp list"
  b_size :: int

definition emptyBatch :: Batch where
  "emptyBatch = \<lparr>b_ops = [], b_size = 0\<rparr>"

definition Batch_Put :: "Batch \<Rightarrow> bytes \<Rightarrow> bytes \<Rightarrow> Batch" where
  "Batch_Put b key value =
     b\<lparr>b_ops := b_ops b @ [\<lparr>op_kind = kindPut, op_key = key, op_value = value\<rparr>],
       b_size := b_size b + int (length key) + int (length value)\<rparr>"

definition Batch_Delete :: "Batch \<Rightarrow> bytes \<Rightarrow> Batch" where
  "Batch_Delete b key =
     b\<lparr>b_ops := b_ops b @ [\<lparr>op_kind = kindDelete, op_key = key, op_value = []\<rparr>],
       b_size := b_size b + int (length key)\<rparr>"

definition Batch_Len :: "Batch \<Rightarrow> nat" where
  "Batch_Len b = length (b_ops b)"

fun encode_ops :: "bytes \<Rightarrow> batchOp list \<Rightarrow> bytes" where
  "encode_ops dst [] = dst"
| "encode_ops dst (op # ops) =
     encode_ops (dst @ [op_kind op] @ put_lenbytes (op_key op) @ put_lenbytes (op_value op)) ops"

definition Batch_encode :: "Batch \<Rightarrow> bytes \<Rightarrow> u64 \<Rightarrow> bytes" where
  "Batch_encode b dst seq =
     encode_ops (dst @ put_le64 seq @ put_le32 (word_of_nat (length (b_ops b)))) (b_ops b)"

datatype batch_error = errBadBatch

fun decode_ops :: "nat \<Rightarrow> bytes \<Rightarrow> batchOp list \<Rightarrow> batch_error + batchOp list" where
  "decode_ops 0 p acc = Inr acc"
| "decode_ops (Suc n) [] acc = Inl errBadBatch"
| "decode_ops (Suc n) (kind # p) acc =
     (case readBytes p of
        None \<Rightarrow> Inl errBadBatch
      | Some (key, p') \<Rightarrow>
          (case readBytes p' of
             None \<Rightarrow> Inl errBadBatch
           | Some (value, p'') \<Rightarrow>
               decode_ops n p'' (acc @ [\<lparr>op_kind = kind, op_key = key, op_value = value\<rparr>])))"

definition decodeBatch :: "bytes \<Rightarrow> batch_error + (u64 \<times> Batch)" where
  "decodeBatch p =
     (if length p < 12 then Inl errBadBatch
      else let seq = get_le64 p; count = get_le32 (drop 8 p)
        in case decode_ops (unat count) (drop 12 p) [] of
             Inl e \<Rightarrow> Inl e
           | Inr ops \<Rightarrow> Inr (seq, \<lparr>b_ops = ops, b_size = 0\<rparr>))"

section \<open>Lemmas\<close>

text \<open>
  Lengths are Go \<open>int\<close>s, so they fit 64 bits; the batch length is cut to 32 bits by
  \<open>uint32(len(b.ops))\<close>, so a batch that can be read back has fewer than \<open>2 ^ 32\<close> operations.
\<close>

definition op_fits :: "batchOp \<Rightarrow> bool" where
  "op_fits op \<longleftrightarrow> length (op_key op) < 2 ^ 64 \<and> length (op_value op) < 2 ^ 64"

definition batch_fits :: "Batch \<Rightarrow> bool" where
  "batch_fits b \<longleftrightarrow> length (b_ops b) < 2 ^ 32 \<and> list_all op_fits (b_ops b)"

definition encode_op :: "batchOp \<Rightarrow> bytes" where
  "encode_op op = [op_kind op] @ put_lenbytes (op_key op) @ put_lenbytes (op_value op)"

lemma encode_ops_concat: "encode_ops dst ops = dst @ concat (map encode_op ops)"
  by (induction ops arbitrary: dst) (auto simp: encode_op_def)

lemma decode_ops_encode:
  "list_all op_fits ops \<Longrightarrow>
   decode_ops (length ops) (concat (map encode_op ops) @ r) acc = Inr (acc @ ops)"
  by (induction ops arbitrary: acc) (auto simp: encode_op_def op_fits_def)

lemma decodeBatch_encode:
  assumes "batch_fits b"
  shows "decodeBatch (Batch_encode b [] seq) = Inr (seq, b\<lparr>b_size := 0\<rparr>)"
proof -
  have n: "unat (word_of_nat (length (b_ops b)) :: u32) = length (b_ops b)"
    using assms by (simp add: batch_fits_def unat_of_nat)
  have "decode_ops (length (b_ops b)) (concat (map encode_op (b_ops b))) [] = Inr (b_ops b)"
    using decode_ops_encode [of "b_ops b" "[]" "[]"] assms by (simp add: batch_fits_def)
  with n show ?thesis
    by (simp add: decodeBatch_def Batch_encode_def encode_ops_concat Let_def)
qed

lemma Batch_encode_nonempty [simp]: "Batch_encode b [] seq \<noteq> []"
  by (auto simp: Batch_encode_def encode_ops_concat dest: arg_cong [of _ _ length])

section \<open>Properties\<close>

text \<open>
  C18: a WAL record payload decodes to the batch it was encoded from: the same first sequence
  number and the same operations in the same order.
\<close>

theorem batch_roundtrip:
  assumes "batch_fits b"
  shows "\<exists>b'. decodeBatch (Batch_encode b [] seq) = Inr (seq, b') \<and> b_ops b' = b_ops b"
  using decodeBatch_encode [OF assms] by simp

theorem batch_roundtrip_witness:
  "\<exists>b'. decodeBatch (Batch_encode (Batch_Delete (Batch_Put emptyBatch [1, 2] [3]) [4]) [] 9) = Inr (9, b')
     \<and> b_ops b' = b_ops (Batch_Delete (Batch_Put emptyBatch [1, 2] [3]) [4])"
  by (rule batch_roundtrip)
    (simp add: batch_fits_def op_fits_def emptyBatch_def Batch_Put_def Batch_Delete_def)

end
