(* ===== verification/Manifest.thy ===== *)
theory Manifest
  imports Batch
begin

text \<open>
  The \<open>MANIFEST\<close> file (\<open>src/storage/manifest.go\<close>): the live tables newest first, the next file
  number, the highest sequence in any table and the oldest WAL segment still needed, followed
  by a CRC-32C. The file is replaced whole by an atomic rename, so a reader sees the bytes of
  one \<open>encode\<close> or no file at all.
\<close>

section \<open>Model\<close>

record tableMeta =
  tm_num :: u64
  tm_size :: u64
  tm_count :: u64
  tm_smallest :: bytes
  tm_largest :: bytes

record manifest =
  nextNum :: u64
  lastSeq :: u64
  logNum :: u64
  m_tables :: "tableMeta list"

definition manifestVersion :: u32 where "manifestVersion = 1"

datatype manifest_error = errBadManifest | ManifestCorrupt | UnsupportedVersion u32

fun encode_tables :: "bytes \<Rightarrow> tableMeta list \<Rightarrow> bytes" where
  "encode_tables b [] = b"
| "encode_tables b (t # ts) =
     encode_tables
       (b @ put_le64 (tm_num t) @ put_le64 (tm_size t) @ put_le64 (tm_count t)
          @ put_lenbytes (tm_smallest t) @ put_lenbytes (tm_largest t)) ts"

definition manifest_encode :: "manifest \<Rightarrow> bytes" where
  "manifest_encode m =
     (let b = encode_tables
                (put_le32 manifestVersion @ put_le64 (nextNum m) @ put_le64 (lastSeq m)
                 @ put_le64 (logNum m) @ put_le32 (word_of_nat (length (m_tables m))))
                (m_tables m)
      in b @ put_le32 (crc32c b))"

fun decode_tables :: "nat \<Rightarrow> bytes \<Rightarrow> tableMeta list \<Rightarrow> manifest_error + tableMeta list" where
  "decode_tables 0 p acc = Inr acc"
| "decode_tables (Suc n) p acc =
     (if length p < 24 then Inl errBadManifest
      else case readBytes (drop 24 p) of
             None \<Rightarrow> Inl errBadManifest
           | Some (smallest, p') \<Rightarrow>
               (case readBytes p' of
                  None \<Rightarrow> Inl errBadManifest
                | Some (largest, p'') \<Rightarrow>
                    decode_tables n p''
                      (acc @ [\<lparr>tm_num = get_le64 p, tm_size = get_le64 (drop 8 p),
                               tm_count = get_le64 (drop 16 p),
                               tm_smallest = smallest, tm_largest = largest\<rparr>])))"

definition decodeManifest :: "bytes \<Rightarrow> manifest_error + manifest" where
  "decodeManifest b =
     (if length b < 36 then Inl errBadManifest
      else let body = take (length b - 4) b; sum = get_le32 (drop (length b - 4) b)
        in if crc32c body \<noteq> sum then Inl ManifestCorrupt
           else if get_le32 body \<noteq> manifestVersion then Inl (UnsupportedVersion (get_le32 body))
           else case decode_tables (unat (get_le32 (drop 28 body))) (drop 32 body) [] of
                  Inl e \<Rightarrow> Inl e
                | Inr ts \<Rightarrow> Inr \<lparr>nextNum = get_le64 (drop 4 body), lastSeq = get_le64 (drop 12 body),
                                logNum = get_le64 (drop 20 body), m_tables = ts\<rparr>)"

text \<open>
  The directory holds the manifest under a fixed name; \<open>writeManifest\<close> replaces it and
  \<open>readManifest\<close> starts from the defaults when it is missing.
\<close>

definition readManifest :: "bytes option \<Rightarrow> manifest_error + manifest" where
  "readManifest file =
     (case file of
        None \<Rightarrow> Inr \<lparr>nextNum = 1, lastSeq = 0, logNum = 1, m_tables = []\<rparr>
      | Some b \<Rightarrow> decodeManifest b)"

section \<open>Lemmas\<close>

definition meta_fits :: "tableMeta \<Rightarrow> bool" where
  "meta_fits t \<longleftrightarrow> length (tm_smallest t) < 2 ^ 64 \<and> length (tm_largest t) < 2 ^ 64"

definition manifest_fits :: "manifest \<Rightarrow> bool" where
  "manifest_fits m \<longleftrightarrow> length (m_tables m) < 2 ^ 32 \<and> list_all meta_fits (m_tables m)"

definition encode_meta :: "tableMeta \<Rightarrow> bytes" where
  "encode_meta t =
     put_le64 (tm_num t) @ put_le64 (tm_size t) @ put_le64 (tm_count t)
     @ put_lenbytes (tm_smallest t) @ put_lenbytes (tm_largest t)"

lemma encode_tables_concat: "encode_tables b ts = b @ concat (map encode_meta ts)"
  by (induction ts arbitrary: b) (auto simp: encode_meta_def)

lemma decode_tables_encode:
  "list_all meta_fits ts \<Longrightarrow>
   decode_tables (length ts) (concat (map encode_meta ts)) acc = Inr (acc @ ts)"
  by (induction ts arbitrary: acc) (auto simp: encode_meta_def meta_fits_def)

lemma decodeManifest_encode:
  assumes "manifest_fits m"
  shows "decodeManifest (manifest_encode m) = Inr m"
proof -
  let ?h = "put_le32 manifestVersion @ put_le64 (nextNum m) @ put_le64 (lastSeq m)
    @ put_le64 (logNum m) @ put_le32 (word_of_nat (length (m_tables m)))"
  let ?b = "?h @ concat (map encode_meta (m_tables m))"
  have n: "unat (word_of_nat (length (m_tables m)) :: u32) = length (m_tables m)"
    using assms by (simp add: manifest_fits_def unat_of_nat)
  have e: "manifest_encode m = ?b @ put_le32 (crc32c ?b)"
    by (simp add: manifest_encode_def encode_tables_concat Let_def)
  have sum: "get_le32 (put_le32 (crc32c ?b)) = crc32c ?b"
    using get_le32_put [of "crc32c ?b" "[]"] by simp
  have tabs: "decode_tables (length (m_tables m)) (concat (map encode_meta (m_tables m))) [] = Inr (m_tables m)"
    using decode_tables_encode [of "m_tables m" "[]"] assms by (simp add: manifest_fits_def)
  show ?thesis
    unfolding e decodeManifest_def using n sum tabs by (simp add: Let_def)
qed

section \<open>Properties\<close>

text \<open>
  C19: reading the manifest gives back what the last \<open>writeManifest\<close> wrote: the file numbers, the
  sequence number, the oldest log segment and the table list in the same (age) order.
\<close>

theorem manifest_roundtrip:
  assumes "manifest_fits m"
  shows "readManifest (Some (manifest_encode m)) = Inr m"
  using decodeManifest_encode [OF assms] by (simp add: readManifest_def)

theorem manifest_roundtrip_witness:
  "readManifest (Some (manifest_encode
     \<lparr>nextNum = 7, lastSeq = 300, logNum = 4,
      m_tables = [\<lparr>tm_num = 6, tm_size = 99, tm_count = 1, tm_smallest = [1], tm_largest = [2]\<rparr>]\<rparr>))
   = Inr \<lparr>nextNum = 7, lastSeq = 300, logNum = 4,
      m_tables = [\<lparr>tm_num = 6, tm_size = 99, tm_count = 1, tm_smallest = [1], tm_largest = [2]\<rparr>]\<rparr>"
  by (rule manifest_roundtrip) (simp add: manifest_fits_def meta_fits_def)

end
