(* ===== verification/Sstable.thy ===== *)
theory Sstable
  imports Block Bloom Manifest
begin

text \<open>
  Tables (\<open>src/storage/sstable.go\<close>): the writer that cuts a sorted stream of entries into data blocks
  and adds an index block, a Bloom filter and a footer, the reader that opens such a file, and the
  two-level iterator over it. The file is the byte string the writer has produced; errors of the
  operating system are inputs of the engine's operations (theory Db), not of the writer. An operation
  that can panic on malformed bytes returns an option.
\<close>

section \<open>Writing\<close>

definition footerSize :: nat where "footerSize = 40"
definition tableMagic :: u32 where "tableMagic = 0x4b455953"
definition tableVersion :: u32 where "tableVersion = 1"

record blockHandle =
  bh_offset :: u64
  bh_size :: u64

definition blockHandle_encode :: "blockHandle \<Rightarrow> bytes" where
  "blockHandle_encode h = put_uvarint (unat (bh_offset h)) @ put_uvarint (unat (bh_size h))"

definition decodeHandle :: "bytes \<Rightarrow> (blockHandle \<times> bool) option" where
  "decodeHandle b =
     (let (off, n1) = uvarint b
      in case slice_from b n1 of
           None \<Rightarrow> None
         | Some b1 \<Rightarrow> (let (sz, n2) = uvarint b1
                      in Some (\<lparr>bh_offset = word_of_nat off, bh_size = word_of_nat sz\<rparr>, n1 > 0 \<and> n2 > 0)))"

record tableWriter =
  tw_out :: bytes
  tw_off :: u64
  tw_blockSize :: nat
  tw_data :: blockBuilder
  tw_index :: blockBuilder
  tw_bloomKeys :: "bytes list"
  tw_meta :: tableMeta
  tw_pending :: bool
  tw_lastKey :: bytes
  tw_handle :: blockHandle

definition newTableWriter :: "u64 \<Rightarrow> nat \<Rightarrow> tableWriter" where
  "newTableWriter num blockSize =
     \<lparr>tw_out = [], tw_off = 0, tw_blockSize = blockSize, tw_data = newBuilder, tw_index = newBuilder, tw_bloomKeys = [],
      tw_meta = \<lparr>tm_num = num, tm_size = 0, tm_count = 0, tm_smallest = [], tm_largest = []\<rparr>,
      tw_pending = False, tw_lastKey = [], tw_handle = \<lparr>bh_offset = 0, bh_size = 0\<rparr>\<rparr>"

definition newStreamWriter :: "nat \<Rightarrow> tableWriter" where
  "newStreamWriter blockSize = newTableWriter 0 blockSize"

definition writeBlock :: "tableWriter \<Rightarrow> bytes \<Rightarrow> blockHandle \<times> tableWriter" where
  "writeBlock w b =
     (\<lparr>bh_offset = tw_off w, bh_size = word_of_nat (length b)\<rparr>,
      w\<lparr>tw_out := tw_out w @ b @ put_le32 (crc32c b), tw_off := tw_off w + word_of_nat (length b) + 4\<rparr>)"

definition flushBlock :: "tableWriter \<Rightarrow> tableWriter" where
  "flushBlock w =
     (if builder_empty (tw_data w) then w
      else let (h, w1) = writeBlock w (builder_finish (tw_data w))
        in w1\<lparr>tw_data := builder_reset (tw_data w), tw_handle := h, tw_pending := True\<rparr>)"

definition add_pending :: "tableWriter \<Rightarrow> tableWriter" where
  "add_pending w =
     (if tw_pending w
      then w\<lparr>tw_index := builder_add (tw_index w) (tw_lastKey w) (blockHandle_encode (tw_handle w)), tw_pending := False\<rparr>
      else w)"

definition count_entry :: "tableMeta \<Rightarrow> bytes \<Rightarrow> tableMeta" where
  "count_entry m ik =
     m\<lparr>tm_smallest := (if tm_count m = 0 then ik else tm_smallest m), tm_count := tm_count m + 1\<rparr>"

definition tableWriter_add :: "tableWriter \<Rightarrow> bytes \<Rightarrow> bytes \<Rightarrow> tableWriter" where
  "tableWriter_add w0 ik val =
     (let w = add_pending w0;
          w' = w\<lparr>tw_data := builder_add (tw_data w) ik val, tw_lastKey := ik,
                 tw_bloomKeys := tw_bloomKeys w @ [userKey ik], tw_meta := count_entry (tw_meta w) ik\<rparr>
      in if builder_size (tw_data w') \<ge> tw_blockSize w' then flushBlock w' else w')"

definition footer_bytes :: "blockHandle \<Rightarrow> blockHandle \<Rightarrow> bytes" where
  "footer_bytes ih bh =
     put_le64 (bh_offset ih) @ put_le64 (bh_size ih) @ put_le64 (bh_offset bh) @ put_le64 (bh_size bh)
     @ put_le32 tableVersion @ put_le32 tableMagic"

definition tableWriter_finish :: "tableWriter \<Rightarrow> tableMeta \<times> tableWriter" where
  "tableWriter_finish w0 =
     (let w1 = add_pending (flushBlock w0);
          (ih, w2) = writeBlock w1 (builder_finish (tw_index w1));
          (bh, w3) = writeBlock w2 (buildBloom (tw_bloomKeys w2));
          w4 = w3\<lparr>tw_out := tw_out w3 @ footer_bytes ih bh,
                  tw_meta := (tw_meta w3)\<lparr>tm_size := tw_off w3 + word_of_nat footerSize, tm_largest := tw_lastKey w3\<rparr>\<rparr>
      in (tw_meta w4, w4))"

section \<open>Opening\<close>

record table =
  tb_meta :: tableMeta
  tb_data :: bytes
  tb_index :: bytes
  tb_bloom :: bytes

definition readBlock :: "bytes \<Rightarrow> blockHandle \<Rightarrow> storage_error + bytes" where
  "readBlock data h =
     (let n = length data; off = unat (bh_offset h); sz = unat (bh_size h)
      in if off > n \<or> sz > n - off then Inl errBadTable
         else if off + sz + 4 > n then Inl errBadTable
         else let buf = take (sz + 4) (drop off data)
           in if crc32c (take sz buf) \<noteq> get_le32 (drop sz buf) then Inl ErrBlockCorrupt else Inr (take sz buf))"

definition readFooter :: "bytes \<Rightarrow> storage_error + bytes \<times> bytes" where
  "readFooter data =
     (if length data < footerSize then Inl errBadTable
      else let footer = drop (length data - footerSize) data
        in if get_le32 (drop 36 footer) \<noteq> tableMagic then Inl errBadTable
           else if get_le32 (drop 32 footer) \<noteq> tableVersion then Inl (ErrTableVersion (get_le32 (drop 32 footer)))
           else case readBlock data \<lparr>bh_offset = get_le64 footer, bh_size = get_le64 (drop 8 footer)\<rparr> of
                  Inl e \<Rightarrow> Inl e
                | Inr index \<Rightarrow>
                    (case readBlock data \<lparr>bh_offset = get_le64 (drop 16 footer), bh_size = get_le64 (drop 24 footer)\<rparr> of
                       Inl e \<Rightarrow> Inl e
                     | Inr bloom \<Rightarrow> Inr (index, bloom)))"

definition openTable :: "tableMeta \<Rightarrow> bytes \<Rightarrow> storage_error + table" where
  "openTable meta data =
     (case readFooter data of
        Inl e \<Rightarrow> Inl e
      | Inr (index, bloom) \<Rightarrow> Inr \<lparr>tb_meta = meta, tb_data = data, tb_index = index, tb_bloom = bloom\<rparr>)"

definition openTableBytes :: "bytes \<Rightarrow> storage_error + table" where
  "openTableBytes b = openTable \<lparr>tm_num = 0, tm_size = 0, tm_count = 0, tm_smallest = [], tm_largest = []\<rparr> b"

section \<open>Iterating\<close>

record tableIter =
  ti_t :: table
  ti_index :: "blockIter option"
  ti_block :: "blockIter option"
  ti_err :: "storage_error option"

definition table_iter :: "table \<Rightarrow> tableIter" where
  "table_iter t =
     (case newBlockIter (tb_index t) of
        Inl e \<Rightarrow> \<lparr>ti_t = t, ti_index = None, ti_block = None, ti_err = Some e\<rparr>
      | Inr index \<Rightarrow> \<lparr>ti_t = t, ti_index = Some index, ti_block = None, ti_err = None\<rparr>)"

text \<open>\<open>loadBlock\<close>: the flag is its result; calling it without an index is a nil dereference.\<close>

definition loadBlock :: "tableIter \<Rightarrow> (bool \<times> tableIter) option" where
  "loadBlock it =
     (if ti_err it \<noteq> None then Some (False, it\<lparr>ti_block := None\<rparr>)
      else case ti_index it of
             None \<Rightarrow> None
           | Some index \<Rightarrow>
               if \<not> blockIter_valid index then Some (False, it\<lparr>ti_block := None\<rparr>)
               else (case decodeHandle (bi_v index) of
                       None \<Rightarrow> None
                     | Some (h, ok) \<Rightarrow>
                         if \<not> ok then Some (False, it\<lparr>ti_err := Some errBadTable\<rparr>)
                         else (case readBlock (tb_data (ti_t it)) h of
                                 Inl e \<Rightarrow> Some (False, it\<lparr>ti_err := Some e\<rparr>)
                               | Inr data \<Rightarrow>
                                   (case newBlockIter data of
                                      Inl e \<Rightarrow> Some (False, it\<lparr>ti_block := None, ti_err := Some e\<rparr>)
                                    | Inr b \<Rightarrow> Some (True, it\<lparr>ti_block := Some b, ti_err := None\<rparr>)))))"

lemma loadBlock_index: "loadBlock it = Some (b, it') \<Longrightarrow> ti_index it' = ti_index it \<and> ti_t it' = ti_t it"
  by (auto simp: loadBlock_def split: if_splits option.splits sum.splits prod.splits)

lemma loadBlock_True: "loadBlock it = Some (True, it') \<Longrightarrow> \<exists>index. ti_index it = Some index \<and> blockIter_valid index"
  by (auto simp: loadBlock_def split: if_splits option.splits)

definition next_block :: "tableIter \<Rightarrow> (bool \<times> tableIter) option" where
  "next_block it =
     (case ti_index it of
        None \<Rightarrow> None
      | Some index \<Rightarrow>
          (case blockIter_next index of
             None \<Rightarrow> None
           | Some index' \<Rightarrow> loadBlock (it\<lparr>ti_index := Some index'\<rparr>)))"

definition set_block :: "tableIter \<Rightarrow> blockIter \<Rightarrow> tableIter" where
  "set_block it b = it\<lparr>ti_block := Some b\<rparr>"

definition index_left :: "tableIter \<Rightarrow> nat" where
  "index_left it = (case ti_index it of None \<Rightarrow> 0 | Some x \<Rightarrow> length (bi_data x) - bi_nextOff x)"

lemma next_block_progress:
  assumes "next_block it = Some (True, it')"
  shows "index_left (set_block it' b) < index_left it"
proof -
  from assms obtain ix ix' where ix: "ti_index it = Some ix" "blockIter_next ix = Some ix'" "loadBlock (it\<lparr>ti_index := Some ix'\<rparr>) = Some (True, it')"
    by (auto simp: next_block_def split: option.splits)
  have "ti_index it' = Some ix'" "blockIter_valid ix'" using loadBlock_index [OF ix(3)] loadBlock_True [OF ix(3)] by auto
  with blockIter_next_progress [OF ix(2)] ix(1) show ?thesis by (auto simp: index_left_def set_block_def)
qed

function skipExhausted :: "tableIter \<Rightarrow> tableIter option" where
  "skipExhausted it =
     (case ti_block it of
        None \<Rightarrow> Some it
      | Some b \<Rightarrow>
          if blockIter_valid b \<or> ti_err it \<noteq> None then Some it
          else if bi_err b \<noteq> None then Some (it\<lparr>ti_err := bi_err b\<rparr>)
          else (case next_block it of
                  None \<Rightarrow> None
                | Some (False, it') \<Rightarrow> Some it'
                | Some (True, it') \<Rightarrow>
                    (case ti_block it' of
                       None \<Rightarrow> None
                     | Some b' \<Rightarrow>
                         (case blockIter_seekToFirst b' of
                            None \<Rightarrow> None
                          | Some b'' \<Rightarrow> skipExhausted (set_block it' b'')))))"
  by pat_completeness auto
termination
  by (relation "measure index_left") (auto dest: next_block_progress)

declare skipExhausted.simps [simp del]

text \<open>Load the block the index points to and position the iterator in it, as \<open>seek\<close> and \<open>seekToFirst\<close> do.\<close>

definition enter_block :: "(blockIter \<Rightarrow> blockIter option) \<Rightarrow> tableIter \<Rightarrow> tableIter option" where
  "enter_block position it =
     (case loadBlock it of
        None \<Rightarrow> None
      | Some (False, it') \<Rightarrow> Some it'
      | Some (True, it') \<Rightarrow>
          (case ti_block it' of
             None \<Rightarrow> None
           | Some b \<Rightarrow> (case position b of None \<Rightarrow> None | Some b' \<Rightarrow> skipExhausted (set_block it' b'))))"

definition move_index :: "(blockIter \<Rightarrow> blockIter option) \<Rightarrow> tableIter \<Rightarrow> tableIter option" where
  "move_index position it =
     (case ti_index it of
        None \<Rightarrow> None
      | Some index \<Rightarrow> (case position index of None \<Rightarrow> None | Some index' \<Rightarrow> Some (it\<lparr>ti_index := Some index'\<rparr>)))"

definition tableIter_seekToFirst :: "tableIter \<Rightarrow> tableIter option" where
  "tableIter_seekToFirst it =
     (if ti_err it \<noteq> None then Some it
      else Option.bind (move_index blockIter_seekToFirst it) (enter_block blockIter_seekToFirst))"

definition tableIter_seek :: "bytes \<Rightarrow> tableIter \<Rightarrow> tableIter option" where
  "tableIter_seek target it =
     (if ti_err it \<noteq> None then Some it
      else Option.bind (move_index (blockIter_seek target) it) (enter_block (blockIter_seek target)))"

definition tableIter_valid :: "tableIter \<Rightarrow> bool" where
  "tableIter_valid it \<longleftrightarrow> ti_err it = None \<and> (case ti_block it of None \<Rightarrow> False | Some b \<Rightarrow> blockIter_valid b)"

definition tableIter_next :: "tableIter \<Rightarrow> tableIter option" where
  "tableIter_next it =
     (case ti_block it of
        None \<Rightarrow> None
      | Some b \<Rightarrow> (case blockIter_next b of None \<Rightarrow> None | Some b' \<Rightarrow> skipExhausted (set_block it b')))"

definition tableIter_key :: "tableIter \<Rightarrow> bytes" where
  "tableIter_key it = (case ti_block it of None \<Rightarrow> [] | Some b \<Rightarrow> bi_k b)"

definition tableIter_value :: "tableIter \<Rightarrow> bytes" where
  "tableIter_value it = (case ti_block it of None \<Rightarrow> [] | Some b \<Rightarrow> bi_v b)"

text \<open>The method table; a panicked iterator is None and stays so.\<close>

definition table_ops :: "tableIter option internalIter" where
  "table_ops =
     \<lparr>it_seekToFirst = (\<lambda>x. Option.bind x tableIter_seekToFirst),
      it_seek = (\<lambda>k x. Option.bind x (tableIter_seek k)),
      it_valid = (\<lambda>x. case x of None \<Rightarrow> False | Some it \<Rightarrow> tableIter_valid it),
      it_next = (\<lambda>x. Option.bind x tableIter_next),
      it_key = (\<lambda>x. case x of None \<Rightarrow> [] | Some it \<Rightarrow> tableIter_key it),
      it_value = (\<lambda>x. case x of None \<Rightarrow> [] | Some it \<Rightarrow> tableIter_value it),
      it_close = (\<lambda>x. case x of None \<Rightarrow> None | Some it \<Rightarrow> ti_err it)\<rparr>"

text \<open>\<open>table.get\<close>: value, found, deleted.\<close>

definition table_get :: "table \<Rightarrow> bytes \<Rightarrow> u64 \<Rightarrow> (storage_error + bytes \<times> bool \<times> bool) option" where
  "table_get t key seq =
     (if \<not> mayContain (tb_bloom t) key then Some (Inr ([], False, False))
      else case tableIter_seek (makeInternalKey key seq kindPut) (table_iter t) of
             None \<Rightarrow> None
           | Some it \<Rightarrow>
               if \<not> tableIter_valid it
               then Some (case ti_err it of None \<Rightarrow> Inr ([], False, False) | Some e \<Rightarrow> Inl e)
               else if \<not> wf_ikey (tableIter_key it) then None
               else let (user, _, kind) = splitInternalKey (tableIter_key it)
                 in Some (Inr (if user \<noteq> key then ([], False, False)
                               else if kind = kindDelete then ([], True, True)
                               else (tableIter_value it, True, False))))"

section \<open>The layout of a written table\<close>

text \<open>
  A written table is determined by the way its entries were cut into data blocks: \<open>cs\<close> is the list of
  the blocks' entries.
\<close>

definition with_crc :: "bytes \<Rightarrow> bytes" where
  "with_crc b = b @ put_le32 (crc32c b)"

definition block_bytes :: "entry list \<Rightarrow> bytes" where
  "block_bytes c = builder_finish (build c)"

definition data_part :: "entry list list \<Rightarrow> bytes" where
  "data_part cs = concat (map (\<lambda>c. with_crc (block_bytes c)) cs)"

definition handle_of :: "entry list list \<Rightarrow> entry list \<Rightarrow> blockHandle" where
  "handle_of pre c = \<lparr>bh_offset = word_of_nat (length (data_part pre)), bh_size = word_of_nat (length (block_bytes c))\<rparr>"

definition index_entries :: "entry list list \<Rightarrow> entry list" where
  "index_entries cs =
     map (\<lambda>j. (fst (last (cs ! j)), blockHandle_encode (handle_of (take j cs) (cs ! j)))) [0..<length cs]"

definition bloom_of :: "entry list list \<Rightarrow> bytes" where
  "bloom_of cs = buildBloom (map (\<lambda>e. userKey (fst e)) (concat cs))"

definition index_bytes :: "entry list list \<Rightarrow> bytes" where
  "index_bytes cs = block_bytes (index_entries cs)"

definition table_file :: "entry list list \<Rightarrow> bytes" where
  "table_file cs =
     data_part cs @ with_crc (index_bytes cs) @ with_crc (bloom_of cs)
     @ footer_bytes \<lparr>bh_offset = word_of_nat (length (data_part cs)), bh_size = word_of_nat (length (index_bytes cs))\<rparr>
         \<lparr>bh_offset = word_of_nat (length (data_part cs @ with_crc (index_bytes cs))), bh_size = word_of_nat (length (bloom_of cs))\<rparr>"

lemma length_with_crc [simp]: "length (with_crc b) = length b + 4"
  by (simp add: with_crc_def)

lemma data_part_snoc [simp]: "data_part (cs @ [c]) = data_part cs @ with_crc (block_bytes c)"
  by (simp add: data_part_def)

lemma data_part_append: "data_part (as @ bs) = data_part as @ data_part bs"
  by (simp add: data_part_def)

lemma data_part_Cons: "data_part (c # cs) = with_crc (block_bytes c) @ data_part cs"
  by (simp add: data_part_def)

lemma data_part_Nil [simp]: "data_part [] = []"
  by (simp add: data_part_def)

lemma length_index_entries [simp]: "length (index_entries cs) = length cs"
  by (simp add: index_entries_def)

lemma index_entries_snoc:
  "index_entries (cs @ [c]) = index_entries cs @ [(fst (last c), blockHandle_encode (handle_of cs c))]"
  by (simp add: index_entries_def nth_append)

lemma builder_empty_newBuilder [simp]: "builder_empty newBuilder"
  by (simp add: builder_empty_def newBuilder_def)

section \<open>The writer produces that layout\<close>

text \<open>\<open>w\<close> has written the blocks \<open>cs\<close> and holds the entries \<open>cur\<close> of the block under construction.\<close>

definition tw_inv :: "tableWriter \<Rightarrow> entry list list \<Rightarrow> entry list \<Rightarrow> bool" where
  "tw_inv w cs cur \<longleftrightarrow>
     tw_out w = data_part cs \<and> tw_off w = word_of_nat (length (data_part cs)) \<and> tw_data w = build cur
     \<and> [] \<notin> set cs
     \<and> (if tw_pending w
        then cs \<noteq> [] \<and> cur = [] \<and> tw_index w = build (index_entries (butlast cs))
          \<and> tw_handle w = handle_of (butlast cs) (last cs)
        else tw_index w = build (index_entries cs) \<and> (cur = [] \<longrightarrow> cs = []))
     \<and> tw_bloomKeys w = map (\<lambda>e. userKey (fst e)) (concat cs @ cur)
     \<and> (concat cs @ cur \<noteq> [] \<longrightarrow> tw_lastKey w = fst (last (concat cs @ cur)))"

definition meta_inv :: "tableMeta \<Rightarrow> entry list \<Rightarrow> bool" where
  "meta_inv m es \<longleftrightarrow>
     tm_count m = word_of_nat (length es) \<and> (es \<noteq> [] \<longrightarrow> length es < 2 ^ 64 \<longrightarrow> tm_smallest m = fst (hd es))"

lemma tw_inv_new: "tw_inv (newTableWriter num bs) [] [] \<and> meta_inv (tw_meta (newTableWriter num bs)) []"
  by (simp add: tw_inv_def meta_inv_def newTableWriter_def index_entries_def)

lemma flushBlock_inv:
  assumes "tw_inv w cs cur" and "cur \<noteq> []"
  shows "tw_inv (flushBlock w) (cs @ [cur]) [] \<and> tw_pending (flushBlock w) \<and> tw_meta (flushBlock w) = tw_meta w
    \<and> tw_blockSize (flushBlock w) = tw_blockSize w"
proof -
  have "\<not> tw_pending w" using assms by (auto simp: tw_inv_def split: if_splits)
  then show ?thesis
    using assms unfolding tw_inv_def flushBlock_def builder_empty_def writeBlock_def Let_def
    by (simp add: builder_reset_def block_bytes_def with_crc_def handle_of_def build_def [of "[]"])
qed

lemma add_pending_inv:
  assumes "tw_inv w cs cur"
  shows "tw_index (add_pending w) = build (index_entries cs) \<and> \<not> tw_pending (add_pending w)
    \<and> tw_out (add_pending w) = tw_out w \<and> tw_off (add_pending w) = tw_off w \<and> tw_data (add_pending w) = tw_data w
    \<and> tw_bloomKeys (add_pending w) = tw_bloomKeys w \<and> tw_lastKey (add_pending w) = tw_lastKey w
    \<and> tw_meta (add_pending w) = tw_meta w \<and> tw_blockSize (add_pending w) = tw_blockSize w"
proof (cases "tw_pending w")
  case True
  have ne: "concat cs \<noteq> []" if "cs \<noteq> []" "[] \<notin> set cs" using that by (cases cs) auto
  then have p: "cs \<noteq> []" "cur = []" "tw_index w = build (index_entries (butlast cs))"
      "tw_handle w = handle_of (butlast cs) (last cs)" "tw_lastKey w = fst (last (concat cs @ cur))" "[] \<notin> set cs"
    using assms True ne by (simp_all add: tw_inv_def del: concat_eq_Nil_conv)
  have cs: "cs = butlast cs @ [last cs]" using p(1) by simp
  have "last (concat cs) = last (last cs)" using p(1,6) by (metis append_butlast_last_id concat_append concat.simps last_appendR append_Nil2 last_in_set)
  then have "index_entries cs = index_entries (butlast cs) @ [(tw_lastKey w, blockHandle_encode (tw_handle w))]"
    using index_entries_snoc [of "butlast cs" "last cs"] cs p by simp
  then show ?thesis using True p(3) by (simp add: add_pending_def)
qed (use assms in \<open>simp add: tw_inv_def add_pending_def\<close>)

lemma meta_inv_snoc:
  assumes "meta_inv m es"
  shows "meta_inv (count_entry m ik) (es @ [(ik, v)])"
proof (cases "es = []")
  case False
  have "tm_count m \<noteq> 0" if "length es < 2 ^ 64"
  proof -
    have "unat (tm_count m) = length es" using assms that by (simp add: meta_inv_def unat_of_nat)
    then show ?thesis using False by auto
  qed
  then show ?thesis using assms False by (simp add: meta_inv_def count_entry_def)
qed (use assms in \<open>simp add: meta_inv_def count_entry_def\<close>)

lemma tableWriter_add_inv:
  assumes inv: "tw_inv w cs cur" and m: "meta_inv (tw_meta w) (concat cs @ cur)"
  shows "\<exists>cs' cur'. tw_inv (tableWriter_add w ik v) cs' cur' \<and> concat cs' @ cur' = concat cs @ cur @ [(ik, v)]
    \<and> meta_inv (tw_meta (tableWriter_add w ik v)) (concat cs' @ cur')"
proof -
  define w1 where "w1 = add_pending w"
  note ap = add_pending_inv [OF inv, folded w1_def]
  define w' where "w' = w1\<lparr>tw_data := builder_add (tw_data w1) ik v, tw_lastKey := ik,
                 tw_bloomKeys := tw_bloomKeys w1 @ [userKey ik], tw_meta := count_entry (tw_meta w1) ik\<rparr>"
  have i': "tw_inv w' cs (cur @ [(ik, v)])"
    using ap inv by (simp add: tw_inv_def w'_def split: if_splits)
  have m': "meta_inv (tw_meta w') ((concat cs @ cur) @ [(ik, v)])"
    using meta_inv_snoc [OF m] ap by (simp add: w'_def)
  show ?thesis
  proof (cases "builder_size (tw_data w') \<ge> tw_blockSize w'")
    case True
    then have "tableWriter_add w ik v = flushBlock w'" by (simp add: tableWriter_add_def w1_def w'_def Let_def)
    then show ?thesis using flushBlock_inv [OF i'] m' by (intro exI [of _ "cs @ [cur @ [(ik, v)]]"] exI [of _ "[]"]) simp
  next
    case False
    then have "tableWriter_add w ik v = w'" by (simp add: tableWriter_add_def w1_def w'_def Let_def)
    then show ?thesis using i' m' by (intro exI [of _ cs] exI [of _ "cur @ [(ik, v)]"]) simp
  qed
qed

definition add_all :: "tableWriter \<Rightarrow> entry list \<Rightarrow> tableWriter" where
  "add_all w es = foldl (\<lambda>w e. tableWriter_add w (fst e) (snd e)) w es"

lemma add_all_inv:
  assumes "tw_inv w cs cur" and "meta_inv (tw_meta w) (concat cs @ cur)"
  shows "\<exists>cs' cur'. tw_inv (add_all w es) cs' cur' \<and> concat cs' @ cur' = concat cs @ cur @ es
    \<and> meta_inv (tw_meta (add_all w es)) (concat cs' @ cur')"
  using assms
proof (induction es arbitrary: w cs cur)
  case (Cons e es)
  obtain cs' cur' where 1: "tw_inv (tableWriter_add w (fst e) (snd e)) cs' cur'" "concat cs' @ cur' = concat cs @ cur @ [e]"
      "meta_inv (tw_meta (tableWriter_add w (fst e) (snd e))) (concat cs' @ cur')"
    using tableWriter_add_inv [OF Cons.prems, of "fst e" "snd e"] by auto
  from Cons.IH [OF 1(1,3)] obtain cs2 cur2 where 2: "tw_inv (add_all (tableWriter_add w (fst e) (snd e)) es) cs2 cur2"
      "concat cs2 @ cur2 = concat cs' @ cur' @ es" "meta_inv (tw_meta (add_all (tableWriter_add w (fst e) (snd e)) es)) (concat cs2 @ cur2)"
    by blast
  have "concat cs2 @ cur2 = concat cs @ cur @ e # es" using 2(2) 1(2) by (metis append.assoc append_Cons append_Nil)
  then show ?case using 2(1,3) by (intro exI [of _ cs2] exI [of _ cur2]) (simp add: add_all_def)
qed (auto simp: add_all_def)

definition file_of :: "tableWriter \<Rightarrow> bytes" where
  "file_of w = tw_out (snd (tableWriter_finish w))"

lemma tableWriter_finish_inv:
  assumes inv: "tw_inv w cs cur" and m: "meta_inv (tw_meta w) (concat cs @ cur)"
  shows "\<exists>cs'. concat cs' = concat cs @ cur \<and> [] \<notin> set cs' \<and> file_of w = table_file cs'
    \<and> meta_inv (fst (tableWriter_finish w)) (concat cs')
    \<and> (concat cs' \<noteq> [] \<longrightarrow> tm_largest (fst (tableWriter_finish w)) = fst (last (concat cs')))
    \<and> tm_size (fst (tableWriter_finish w)) = word_of_nat (length (table_file cs'))"
proof -
  define cs' where "cs' = (if cur = [] then cs else cs @ [cur])"
  have fi: "tw_inv (flushBlock w) cs' [] \<and> tw_meta (flushBlock w) = tw_meta w"
  proof (cases "cur = []")
    case True
    then have "flushBlock w = w" using inv by (simp add: flushBlock_def tw_inv_def)
    then show ?thesis using inv True by (simp add: cs'_def)
  next
    case False
    then show ?thesis using flushBlock_inv [OF inv False] by (simp add: cs'_def)
  qed
  define w1 where "w1 = add_pending (flushBlock w)"
  note ap = add_pending_inv [OF conjunct1 [OF fi], folded w1_def]
  have w1: "tw_out w1 = data_part cs'" "tw_off w1 = word_of_nat (length (data_part cs'))" "tw_index w1 = build (index_entries cs')"
      "tw_bloomKeys w1 = map (\<lambda>e. userKey (fst e)) (concat cs')" "tw_meta w1 = tw_meta w"
      "concat cs' \<noteq> [] \<longrightarrow> tw_lastKey w1 = fst (last (concat cs'))" "[] \<notin> set cs'"
    using ap fi by (auto simp: tw_inv_def)
  have cc: "concat cs' = concat cs @ cur" by (simp add: cs'_def)
  have f: "file_of w = table_file cs'"
    by (simp add: file_of_def tableWriter_finish_def w1_def [symmetric] Let_def writeBlock_def w1(1-4) table_file_def
        index_bytes_def block_bytes_def bloom_of_def with_crc_def algebra_simps)
  moreover have "tm_size (fst (tableWriter_finish w)) = word_of_nat (length (table_file cs'))"
    by (simp add: tableWriter_finish_def w1_def [symmetric] Let_def writeBlock_def w1(1-4) table_file_def footerSize_def footer_bytes_def
        index_bytes_def block_bytes_def bloom_of_def algebra_simps)
  moreover have "meta_inv (fst (tableWriter_finish w)) (concat cs')"
    using m by (simp add: tableWriter_finish_def w1_def [symmetric] Let_def writeBlock_def w1(5) meta_inv_def cc)
  moreover have "concat cs' \<noteq> [] \<longrightarrow> tm_largest (fst (tableWriter_finish w)) = fst (last (concat cs'))"
    using w1(6) by (simp add: tableWriter_finish_def w1_def [symmetric] Let_def writeBlock_def)
  ultimately show ?thesis using cc w1(7) by blast
qed

section \<open>Reading a written table\<close>

definition table_ok :: "entry list list \<Rightarrow> bool" where
  "table_ok cs \<longleftrightarrow>
     [] \<notin> set cs \<and> length (table_file cs) < 2 ^ 32 \<and> 10 * length (concat cs) + 71 < 2 ^ 32
     \<and> sorted_entries (concat cs) \<and> (\<forall>e \<in> set (concat cs). wf_entry e \<and> length (fst e) < 2 ^ 32)"

lemma readBlock_at:
  assumes "data = pre @ with_crc b @ post" and "length data < 2 ^ 32"
  shows "readBlock data \<lparr>bh_offset = word_of_nat (length pre), bh_size = word_of_nat (length b)\<rparr> = Inr b"
proof -
  have "length pre + length b + 4 \<le> length data" by (simp add: assms(1))
  then have u: "unat (word_of_nat (length pre) :: u64) = length pre" "unat (word_of_nat (length b) :: u64) = length b"
    and l: "length pre + length b + 4 \<le> length data"
    using assms(2) by (simp_all add: unat_of_nat)
  have d: "take (length b + 4) (drop (length pre) data) = b @ put_le32 (crc32c b)" by (simp add: assms(1) with_crc_def)
  have "get_le32 (put_le32 (crc32c b)) = crc32c b" using get_le32_put [of "crc32c b" "[]"] by simp
  then show ?thesis
    unfolding readBlock_def Let_def blockHandle.simps u d using l by auto
qed

lemma data_part_split:
  assumes "j < length cs"
  shows "data_part cs = data_part (take j cs) @ with_crc (block_bytes (cs ! j)) @ data_part (drop (Suc j) cs)"
  using arg_cong [OF id_take_nth_drop [OF assms], of data_part] by (simp only: data_part_append data_part_Cons)

lemma concat_split:
  assumes "j < length cs"
  shows "concat cs = concat (take j cs) @ cs ! j @ concat (drop (Suc j) cs)"
  using arg_cong [OF id_take_nth_drop [OF assms], of concat] by (simp only: concat_append concat.simps)

lemma readBlock_data:
  assumes "length (table_file cs) < 2 ^ 32" and "j < length cs"
  shows "readBlock (table_file cs) (handle_of (take j cs) (cs ! j)) = Inr (block_bytes (cs ! j))"
  unfolding handle_of_def
  by (rule readBlock_at [OF _ assms(1)]) (simp add: table_file_def data_part_split [OF assms(2)])

definition opened_table :: "tableMeta \<Rightarrow> entry list list \<Rightarrow> table" where
  "opened_table m cs = \<lparr>tb_meta = m, tb_data = table_file cs, tb_index = index_bytes cs, tb_bloom = bloom_of cs\<rparr>"

lemma length_footer [simp]: "length (footer_bytes a b) = 40"
  by (simp add: footer_bytes_def)

lemma readFooter_file:
  assumes "length (table_file cs) < 2 ^ 32"
  shows "readFooter (table_file cs) = Inr (index_bytes cs, bloom_of cs)"
proof -
  define ih where "ih = \<lparr>bh_offset = word_of_nat (length (data_part cs)), bh_size = word_of_nat (length (index_bytes cs))\<rparr>"
  define bh where "bh = \<lparr>bh_offset = word_of_nat (length (data_part cs @ with_crc (index_bytes cs))), bh_size = word_of_nat (length (bloom_of cs))\<rparr>"
  have f: "table_file cs = (data_part cs @ with_crc (index_bytes cs) @ with_crc (bloom_of cs)) @ footer_bytes ih bh"
    by (simp add: table_file_def ih_def bh_def)
  have ft: "drop (length (table_file cs) - footerSize) (table_file cs) = footer_bytes ih bh"
    unfolding f by (simp add: footerSize_def)
  have g: "get_le64 (footer_bytes ih bh) = bh_offset ih" "get_le64 (drop 8 (footer_bytes ih bh)) = bh_size ih"
    "get_le64 (drop 16 (footer_bytes ih bh)) = bh_offset bh" "get_le64 (drop 24 (footer_bytes ih bh)) = bh_size bh"
    "get_le32 (drop 32 (footer_bytes ih bh)) = tableVersion" "get_le32 (drop 36 (footer_bytes ih bh)) = tableMagic"
    using get_le32_put [of tableMagic "[]"] by (simp_all add: footer_bytes_def)
  have r: "readBlock (table_file cs) ih = Inr (index_bytes cs)" "readBlock (table_file cs) bh = Inr (bloom_of cs)"
    unfolding ih_def bh_def by (rule readBlock_at [OF _ assms]; simp add: table_file_def)+
  have "\<not> length (table_file cs) < footerSize" by (simp add: f footerSize_def)
  then show ?thesis
    unfolding readFooter_def Let_def ft g using r by (cases ih; cases bh) simp
qed

lemma openTable_file:
  "length (table_file cs) < 2 ^ 32 \<Longrightarrow> openTable m (table_file cs) = Inr (opened_table m cs)"
  by (simp add: openTable_def readFooter_file opened_table_def)

lemma table_block_ok:
  assumes ok: "table_ok cs" and j: "j < length cs"
  shows "block_ok (cs ! j)" "sorted_entries (cs ! j)" "\<forall>e \<in> set (cs ! j). wf_entry e" "cs ! j \<noteq> []"
proof -
  have c: "concat cs = concat (take j cs) @ cs ! j @ concat (drop (Suc j) cs)"
    using j by (rule concat_split)
  have "length (bb_buf (build (cs ! j))) \<le> length (block_bytes (cs ! j))" by (simp add: block_bytes_def builder_finish_def)
  also have "\<dots> \<le> length (data_part cs)" unfolding data_part_split [OF j] by simp
  also have "\<dots> \<le> length (table_file cs)" by (simp add: table_file_def)
  finally show "block_ok (cs ! j)" using ok c unfolding block_ok_def table_ok_def by auto
  show "sorted_entries (cs ! j)" using ok unfolding table_ok_def c sorted_entries_def by (simp add: sorted_wrt_append)
  show "\<forall>e \<in> set (cs ! j). wf_entry e" using ok unfolding table_ok_def c by auto
  show "cs ! j \<noteq> []" using ok j unfolding table_ok_def by (metis nth_mem)
qed

lemma index_key: "j < length cs \<Longrightarrow> fst (index_entries cs ! j) = fst (last (cs ! j))"
  by (simp add: index_entries_def)

lemma chunk_pos:
  assumes "j < length cs" and "i < length (cs ! j)"
  shows "\<exists>n. n < length (concat cs) \<and> concat cs ! n = cs ! j ! i \<and> n = length (concat (take j cs)) + i"
proof -
  have c: "concat cs = concat (take j cs) @ cs ! j @ concat (drop (Suc j) cs)"
    using assms(1) by (rule concat_split)
  show ?thesis unfolding c using assms(2) by (intro exI [of _ "length (concat (take j cs)) + i"]) (simp add: nth_append)
qed

lemma length_concat_take_mono: "a < b \<Longrightarrow> b \<le> length cs \<Longrightarrow> length (concat (take a cs)) + length (cs ! a) \<le> length (concat (take b cs))"
proof (induction b)
  case (Suc b)
  then show ?case by (cases "a = b") (simp_all add: take_Suc_conv_app_nth)
qed simp

lemma index_entries_ok:
  assumes ok: "table_ok cs"
  shows "block_ok (index_entries cs)" "sorted_entries (index_entries cs)" "\<forall>e \<in> set (index_entries cs). wf_entry e"
proof -
  have key: "wf_entry (index_entries cs ! j) \<and> length (fst (index_entries cs ! j)) < 2 ^ 32" if j: "j < length cs" for j
  proof -
    have "last (cs ! j) \<in> set (concat cs)" using j table_block_ok(4) [OF ok j] last_in_set nth_mem unfolding set_concat by blast
    then have "wf_entry (last (cs ! j)) \<and> length (fst (last (cs ! j))) < 2 ^ 32" using ok unfolding table_ok_def by blast
    then show ?thesis using j by (simp add: wf_entry_def index_key)
  qed
  have "length (bb_buf (build (index_entries cs))) \<le> length (table_file cs)"
    by (simp add: table_file_def index_bytes_def block_bytes_def builder_finish_def)
  then show "block_ok (index_entries cs)"
    using ok key unfolding block_ok_def table_ok_def all_set_conv_all_nth by simp
  show "\<forall>e \<in> set (index_entries cs). wf_entry e"
    using key unfolding all_set_conv_all_nth by simp
  show "sorted_entries (index_entries cs)"
    unfolding sorted_entries_def sorted_wrt_iff_nth_less
  proof (intro allI impI)
    fix a b assume ab: "a < b" "b < length (index_entries cs)"
    then have l: "a < length cs" "b < length cs" by simp_all
    have ne: "cs ! a \<noteq> []" "cs ! b \<noteq> []" using table_block_ok(4) [OF ok] l by blast+
    obtain m where m: "m < length (concat cs)" "concat cs ! m = last (cs ! a)" "m = length (concat (take a cs)) + (length (cs ! a) - 1)"
      using chunk_pos [OF l(1), of "length (cs ! a) - 1"] ne by (auto simp: last_conv_nth)
    obtain n where n: "n < length (concat cs)" "concat cs ! n = last (cs ! b)" "n = length (concat (take b cs)) + (length (cs ! b) - 1)"
      using chunk_pos [OF l(2), of "length (cs ! b) - 1"] ne by (auto simp: last_conv_nth)
    have "0 < length (cs ! a)" "0 < length (cs ! b)" using ne by simp_all
    then have "m < n" using length_concat_take_mono [OF ab(1), of cs] l(2) m(3) n(3) by linarith
    then have "\<not> entry_before (concat cs ! n) (fst (concat cs ! m))"
      using ok n(1) unfolding table_ok_def sorted_entries_def sorted_wrt_iff_nth_less by blast
    then show "\<not> entry_before (index_entries cs ! b) (fst (index_entries cs ! a))"
      using l by (simp add: index_key entry_before_def m(2) n(2))
  qed
qed

lemma decodeHandle_encode: "decodeHandle (blockHandle_encode h) = Some (h, True)"
proof -
  have u: "unat (bh_offset h) < 2 ^ 64" "unat (bh_size h) < 2 ^ 64" using unsigned_less [of "bh_offset h"] unsigned_less [of "bh_size h"] by simp_all
  have "uvarint (blockHandle_encode h) = (unat (bh_offset h), int (length (put_uvarint (unat (bh_offset h)))))"
    using u(1) by (simp add: blockHandle_encode_def)
  moreover have "uvarint (put_uvarint (unat (bh_size h))) = (unat (bh_size h), int (length (put_uvarint (unat (bh_size h)))))"
    using uvarint_put [OF u(2), of "[]"] by simp
  ultimately show ?thesis by (simp add: decodeHandle_def slice_from_def blockHandle_encode_def)
qed

section \<open>The iterator over a written table\<close>

definition tb_ok :: "table \<Rightarrow> entry list list \<Rightarrow> bool" where
  "tb_ok t cs \<longleftrightarrow> table_ok cs \<and> tb_data t = table_file cs \<and> tb_index t = index_bytes cs \<and> tb_bloom t = bloom_of cs"

text \<open>Block \<open>j\<close> is loaded and the iterator stands on its entry \<open>i\<close>; past the last block nothing is loaded.\<close>

definition ti_at :: "entry list list \<Rightarrow> tableIter \<Rightarrow> nat \<Rightarrow> nat \<Rightarrow> bool" where
  "ti_at cs it j i \<longleftrightarrow>
     tb_ok (ti_t it) cs \<and> ti_err it = None \<and> j \<le> length cs
     \<and> (\<exists>ix. ti_index it = Some ix \<and> bi_at (index_entries cs) ix j)
     \<and> (if j < length cs then \<exists>b. ti_block it = Some b \<and> bi_at (cs ! j) b i else ti_block it = None)"

definition chunk_rest :: "entry list list \<Rightarrow> nat \<Rightarrow> nat \<Rightarrow> entry list" where
  "chunk_rest cs j i = (if j < length cs then drop i (cs ! j) @ concat (drop (Suc j) cs) else [])"

text \<open>Not exhausted within a block.\<close>

definition ti_on :: "entry list list \<Rightarrow> tableIter \<Rightarrow> entry list \<Rightarrow> bool" where
  "ti_on cs it r \<longleftrightarrow> (\<exists>j i. ti_at cs it j i \<and> (j < length cs \<longrightarrow> i < length (cs ! j)) \<and> r = chunk_rest cs j i)"

lemma tb_ok_simps:
  "tb_ok t cs \<Longrightarrow> table_ok cs" "tb_ok t cs \<Longrightarrow> tb_data t = table_file cs"
  "tb_ok t cs \<Longrightarrow> tb_index t = index_bytes cs" "tb_ok t cs \<Longrightarrow> tb_bloom t = bloom_of cs"
  by (simp_all add: tb_ok_def)

lemma tb_ok_opened: "table_ok cs \<Longrightarrow> tb_ok (opened_table m cs) cs"
  by (simp add: tb_ok_def opened_table_def)

lemma ti_onI: "ti_at cs it j i \<Longrightarrow> (j < length cs \<Longrightarrow> i < length (cs ! j)) \<Longrightarrow> ti_on cs it (chunk_rest cs j i)"
  unfolding ti_on_def by blast

lemma loadBlock_at:
  assumes t: "tb_ok (ti_t it) cs" and e: "ti_err it = None" and ix: "ti_index it = Some ix" "bi_at (index_entries cs) ix j"
  shows "loadBlock it = Some (if j < length cs then (True, it\<lparr>ti_block := Some (opened (cs ! j)), ti_err := None\<rparr>)
                              else (False, it\<lparr>ti_block := None\<rparr>))"
proof (cases "j < length cs")
  case False
  then show ?thesis using bi_at_valid [OF ix(2)] e ix(1) by (simp add: loadBlock_def)
next
  case True
  have ok: "table_ok cs" using t by (rule tb_ok_simps)
  have v: "blockIter_valid ix" using bi_at_valid [OF ix(2)] True by simp
  have "bi_v ix = blockHandle_encode (handle_of (take j cs) (cs ! j))"
    using ix(2) True by (auto simp: bi_at_def index_entries_def)
  then have d: "decodeHandle (bi_v ix) = Some (handle_of (take j cs) (cs ! j), True)" by (simp add: decodeHandle_encode)
  have r: "readBlock (tb_data (ti_t it)) (handle_of (take j cs) (cs ! j)) = Inr (block_bytes (cs ! j))"
    using readBlock_data [OF _ True] ok tb_ok_simps(2) [OF t] by (simp add: table_ok_def)
  have n: "newBlockIter (block_bytes (cs ! j)) = Inr (opened (cs ! j))"
    unfolding block_bytes_def by (rule newBlockIter_finish) (rule table_block_ok(1) [OF ok True])
  show ?thesis unfolding loadBlock_def using True v d r n e ix(1) by simp
qed

lemma skipExhausted_on:
  assumes at: "ti_at cs it j i" and i: "j < length cs \<Longrightarrow> i \<le> length (cs ! j)"
  shows "\<exists>it'. skipExhausted it = Some it' \<and> ti_on cs it' (chunk_rest cs j i)"
proof (cases "j < length cs \<and> i = length (cs ! j)")
  case False
  then have "skipExhausted it = Some it"
    using at i bi_at_valid by (auto simp: ti_at_def skipExhausted.simps [of it] split: if_splits)
  moreover have "ti_on cs it (chunk_rest cs j i)" using at False i by (intro ti_onI) auto
  ultimately show ?thesis by blast
next
  case True
  then obtain ix b where ix: "ti_index it = Some ix" "bi_at (index_entries cs) ix j" "ti_block it = Some b" "bi_at (cs ! j) b i"
      "tb_ok (ti_t it) cs" "ti_err it = None"
    using at by (auto simp: ti_at_def)
  have ok: "table_ok cs" using ix(5) by (rule tb_ok_simps)
  have b: "\<not> blockIter_valid b" "bi_err b = None" using bi_at_valid [OF ix(4)] True ix(4) by (simp_all add: bi_at_def bi_ok_def)
  obtain ix' where ix': "blockIter_next ix = Some ix'" "bi_at (index_entries cs) ix' (Suc j)"
    using blockIter_next_at [OF bi_at_pre [OF ix(2)]] True by auto
  define it1 where "it1 = it\<lparr>ti_index := Some ix'\<rparr>"
  have l: "next_block it = loadBlock it1" using ix(1) ix'(1) by (simp add: next_block_def it1_def)
  have lb: "loadBlock it1 = Some (if Suc j < length cs then (True, it1\<lparr>ti_block := Some (opened (cs ! Suc j)), ti_err := None\<rparr>)
                              else (False, it1\<lparr>ti_block := None\<rparr>))"
    by (rule loadBlock_at [OF _ _ _ ix'(2)]) (simp_all add: it1_def ix)
  show ?thesis
  proof (cases "Suc j < length cs")
    case False
    then have "skipExhausted it = Some (it1\<lparr>ti_block := None\<rparr>)"
      using ix(3,6) b l lb by (simp add: skipExhausted.simps [of it])
    moreover have "ti_at cs (it1\<lparr>ti_block := None\<rparr>) (Suc j) 0"
      using False True ix ix' by (simp add: ti_at_def it1_def)
    moreover have "chunk_rest cs j i = chunk_rest cs (Suc j) 0" using True False by (simp add: chunk_rest_def)
    ultimately show ?thesis using ti_onI [of cs _ "Suc j" 0] False by metis
  next
    case sj: True
    obtain b' where b': "blockIter_seekToFirst (opened (cs ! Suc j)) = Some b'" "bi_at (cs ! Suc j) b' 0"
      using blockIter_seekToFirst_at [OF opened_ok [OF table_block_ok(1) [OF ok sj]]] by blast
    define it2 where "it2 = set_block (it1\<lparr>ti_block := Some (opened (cs ! Suc j)), ti_err := None\<rparr>) b'"
    have ne: "cs ! Suc j \<noteq> []" using table_block_ok(4) [OF ok sj] .
    have "skipExhausted it = skipExhausted it2"
      using ix(3,6) b l lb sj b'(1) by (simp add: skipExhausted.simps [of it] it2_def)
    also have "\<dots> = Some it2"
      using bi_at_valid [OF b'(2)] ne by (simp add: skipExhausted.simps [of it2]) (simp add: it2_def set_block_def)
    finally have s: "skipExhausted it = Some it2" .
    have "ti_at cs it2 (Suc j) 0" using sj ix ix'(2) b'(2) by (simp add: ti_at_def it2_def set_block_def it1_def)
    moreover have "chunk_rest cs j i = chunk_rest cs (Suc j) 0"
      using True sj Cons_nth_drop_Suc [OF sj, symmetric] by (simp add: chunk_rest_def)
    ultimately show ?thesis using s ne ti_onI [of cs it2 "Suc j" 0] by simp
  qed
qed

lemma ti_at_block_pos: "ti_at cs it j i \<Longrightarrow> j < length cs \<Longrightarrow> i \<le> length (cs ! j)"
  by (auto simp: ti_at_def bi_at_def)

lemma ti_on_iter: "tb_ok t cs \<Longrightarrow> ti_on cs (table_iter t) []"
proof -
  assume t: "tb_ok t cs"
  have ok: "table_ok cs" using t by (rule tb_ok_simps)
  have b: "block_ok (index_entries cs)" using index_entries_ok [OF ok] by blast
  then have "newBlockIter (tb_index t) = Inr (opened (index_entries cs))"
    using newBlockIter_finish tb_ok_simps(3) [OF t] by (simp add: index_bytes_def block_bytes_def)
  then have "ti_at cs (table_iter t) (length cs) 0"
    using t opened_ok [OF b] by (simp add: ti_at_def table_iter_def bi_at_def) (simp add: opened_def)
  from ti_onI [OF this] show ?thesis by (simp add: chunk_rest_def)
qed

lemma enter_block_on:
  assumes t: "tb_ok (ti_t it) cs" and e: "ti_err it = None" and ix: "ti_index it = Some ix" "bi_at (index_entries cs) ix j"
    and pos: "j < length cs \<Longrightarrow> \<exists>b i. position (opened (cs ! j)) = Some b \<and> bi_at (cs ! j) b i \<and> chunk_rest cs j i = r"
    and r: "\<not> j < length cs \<Longrightarrow> r = []"
  shows "\<exists>it'. enter_block position it = Some it' \<and> ti_on cs it' r"
proof (cases "j < length cs")
  case False
  have "ti_at cs (it\<lparr>ti_block := None\<rparr>) j 0" using False t e ix by (auto simp: ti_at_def bi_at_def)
  from ti_onI [OF this] False r loadBlock_at [OF t e ix] show ?thesis by (simp add: enter_block_def chunk_rest_def)
next
  case True
  obtain b i where b: "position (opened (cs ! j)) = Some b" "bi_at (cs ! j) b i" "chunk_rest cs j i = r" using pos [OF True] by blast
  define it2 where "it2 = set_block (it\<lparr>ti_block := Some (opened (cs ! j)), ti_err := None\<rparr>) b"
  have at: "ti_at cs it2 j i" using True t e ix b(2) by (simp add: ti_at_def it2_def set_block_def)
  have "enter_block position it = skipExhausted it2"
    using loadBlock_at [OF t e ix] True b(1) by (simp add: enter_block_def it2_def)
  then show ?thesis using skipExhausted_on [OF at] ti_at_block_pos [OF at] b(3) by auto
qed

lemma ti_on_index:
  assumes "ti_on cs it r"
  shows "tb_ok (ti_t it) cs" "ti_err it = None" "\<exists>ix. ti_index it = Some ix \<and> bi_ok (index_entries cs) ix"
  using assms by (auto simp: ti_on_def ti_at_def bi_at_def)

lemma tableIter_seekToFirst_on:
  assumes on: "ti_on cs it r"
  shows "\<exists>it'. tableIter_seekToFirst it = Some it' \<and> ti_on cs it' (concat cs)"
proof -
  note b = ti_on_index [OF on]
  have ok: "table_ok cs" using b(1) by (rule tb_ok_simps)
  obtain ix ix' where ix: "ti_index it = Some ix" "blockIter_seekToFirst ix = Some ix'" "bi_at (index_entries cs) ix' 0"
    using b(3) blockIter_seekToFirst_at by blast
  have "\<exists>it'. enter_block blockIter_seekToFirst (it\<lparr>ti_index := Some ix'\<rparr>) = Some it' \<and> ti_on cs it' (concat cs)"
  proof (rule enter_block_on [OF _ _ _ ix(3)])
    assume l: "0 < length cs"
    then have "chunk_rest cs 0 0 = concat cs" by (cases cs) (simp_all add: chunk_rest_def)
    then show "\<exists>b i. blockIter_seekToFirst (opened (cs ! 0)) = Some b \<and> bi_at (cs ! 0) b i \<and> chunk_rest cs 0 i = concat cs"
      using blockIter_seekToFirst_at [OF opened_ok [OF table_block_ok(1) [OF ok l]]] by blast
  qed (use b in simp_all)
  then show ?thesis using b(2) ix(1,2) by (simp add: tableIter_seekToFirst_def move_index_def)
qed

lemma seek_chunks:
  assumes ok: "table_ok cs" and k: "wf_ikey k" and j: "j \<le> length cs"
    and lo: "\<And>m. m < j \<Longrightarrow> entry_before (index_entries cs ! m) k"
    and hi: "j < length cs \<Longrightarrow> \<not> entry_before (index_entries cs ! j) k"
  shows "seek_entries k (concat cs) = (if j < length cs then seek_entries k (cs ! j) @ concat (drop (Suc j) cs) else [])"
proof -
  have low: "entry_before e k" if e: "e \<in> set (concat (take j cs))" for e
  proof -
    from e obtain c where "c \<in> set (take j cs)" "e \<in> set c" by auto
    then obtain m i where m: "m < j" "e = cs ! m ! i" "i < length (cs ! m)" using j by (auto simp: in_set_conv_nth)
    have ml: "m < length cs" using m(1) j by simp
    have "entry_before (cs ! m ! (length (cs ! m) - 1)) k"
      using lo [OF m(1)] table_block_ok(4) [OF ok ml] index_key [OF ml] by (simp add: entry_before_def last_conv_nth)
    then show ?thesis
      using sorted_before_mono [OF table_block_ok(2,3) [OF ok ml] k, of i "length (cs ! m) - 1"] m by simp
  qed
  show ?thesis
  proof (cases "j < length cs")
    case False
    then have "take j cs = cs" by simp
    then show ?thesis using low False by (simp add: seek_entries_def)
  next
    case True
    have "last (cs ! j) \<in> set (cs ! j)" "\<not> entry_before (last (cs ! j)) k"
      using hi [OF True] table_block_ok(4) [OF ok True] index_key [OF True] by (simp_all add: entry_before_def)
    then have "dropWhile (\<lambda>e. entry_before e k) (cs ! j @ concat (drop (Suc j) cs))
        = dropWhile (\<lambda>e. entry_before e k) (cs ! j) @ concat (drop (Suc j) cs)"
      by (rule dropWhile_append1)
    moreover have "dropWhile (\<lambda>e. entry_before e k) (concat (take j cs) @ cs ! j @ concat (drop (Suc j) cs))
        = dropWhile (\<lambda>e. entry_before e k) (cs ! j @ concat (drop (Suc j) cs))"
      by (rule dropWhile_append2) (rule low)
    ultimately show ?thesis using True concat_split [OF True] by (simp add: seek_entries_def)
  qed
qed

lemma tableIter_seek_on:
  assumes on: "ti_on cs it r" and k: "wf_ikey k"
  shows "\<exists>it'. tableIter_seek k it = Some it' \<and> ti_on cs it' (seek_entries k (concat cs))"
proof -
  note b = ti_on_index [OF on]
  have ok: "table_ok cs" using b(1) by (rule tb_ok_simps)
  obtain ix where i0: "ti_index it = Some ix" "bi_ok (index_entries cs) ix" using b(3) by blast
  obtain ix' j where ix: "blockIter_seek k ix = Some ix'" "bi_at (index_entries cs) ix' j"
      "\<forall>m < j. entry_before (index_entries cs ! m) k" "j < length (index_entries cs) \<longrightarrow> \<not> entry_before (index_entries cs ! j) k"
    using blockIter_seek_pos [OF i0(2) index_entries_ok(2,3) [OF ok] k] by blast
  have j: "j \<le> length cs" using ix(2) by (simp add: bi_at_def)
  have sc: "seek_entries k (concat cs) = (if j < length cs then seek_entries k (cs ! j) @ concat (drop (Suc j) cs) else [])"
    by (rule seek_chunks [OF ok k j]) (use ix(3,4) in simp_all)
  have "\<exists>it'. enter_block (blockIter_seek k) (it\<lparr>ti_index := Some ix'\<rparr>) = Some it' \<and> ti_on cs it' (seek_entries k (concat cs))"
  proof (rule enter_block_on [OF _ _ _ ix(2)])
    assume l: "j < length cs"
    show "\<exists>b i. blockIter_seek k (opened (cs ! j)) = Some b \<and> bi_at (cs ! j) b i \<and> chunk_rest cs j i = seek_entries k (concat cs)"
      using blockIter_seek_at [OF opened_ok [OF table_block_ok(1) [OF ok l]] table_block_ok(2,3) [OF ok l] k] l sc
      by (auto simp: chunk_rest_def)
  qed (use b sc in simp_all)
  then show ?thesis using b(2) i0(1) ix(1) by (simp add: tableIter_seek_def move_index_def)
qed

lemma tableIter_current_on:
  assumes "ti_on cs it r"
  shows "tableIter_valid it \<longleftrightarrow> r \<noteq> []" and "r \<noteq> [] \<Longrightarrow> (tableIter_key it, tableIter_value it) = hd r"
proof -
  obtain j i where at: "ti_at cs it j i" "j < length cs \<longrightarrow> i < length (cs ! j)" "r = chunk_rest cs j i"
    using assms by (auto simp: ti_on_def)
  have "(tableIter_valid it \<longleftrightarrow> r \<noteq> []) \<and> (r \<noteq> [] \<longrightarrow> (tableIter_key it, tableIter_value it) = hd r)"
  proof (cases "j < length cs")
    case True
    then obtain b where b: "ti_block it = Some b" "bi_at (cs ! j) b i" "ti_err it = None" using at(1) by (auto simp: ti_at_def)
    have "r = cs ! j ! i # drop (Suc i) (cs ! j) @ concat (drop (Suc j) cs)"
      using True at(2,3) Cons_nth_drop_Suc [of i "cs ! j"] by (simp add: chunk_rest_def)
    then show ?thesis using b bi_at_valid [OF b(2)] at(2) True
      by (simp add: tableIter_valid_def tableIter_key_def tableIter_value_def bi_at_def)
  next
    case False
    then show ?thesis using at by (simp add: ti_at_def chunk_rest_def tableIter_valid_def)
  qed
  then show "tableIter_valid it \<longleftrightarrow> r \<noteq> []" "r \<noteq> [] \<Longrightarrow> (tableIter_key it, tableIter_value it) = hd r" by blast+
qed

lemma tableIter_next_on:
  assumes "ti_on cs it r" and "r \<noteq> []"
  shows "\<exists>it'. tableIter_next it = Some it' \<and> ti_on cs it' (tl r)"
proof -
  obtain j i where at: "ti_at cs it j i" "j < length cs \<longrightarrow> i < length (cs ! j)" "r = chunk_rest cs j i"
    using assms(1) by (auto simp: ti_on_def)
  have j: "j < length cs" using at(3) assms(2) by (auto simp: chunk_rest_def split: if_splits)
  obtain b where b: "ti_block it = Some b" "bi_at (cs ! j) b i" using at(1) j by (auto simp: ti_at_def)
  obtain b' where b': "blockIter_next b = Some b'" "bi_at (cs ! j) b' (Suc i)"
    using blockIter_next_at [OF bi_at_pre [OF b(2)]] at(2) j by auto
  have at': "ti_at cs (set_block it b') j (Suc i)" using at(1) j b'(2) by (auto simp: ti_at_def set_block_def)
  have "chunk_rest cs j (Suc i) = tl r"
    using j at(2,3) Cons_nth_drop_Suc [of i "cs ! j", symmetric] by (simp add: chunk_rest_def)
  then show ?thesis
    using skipExhausted_on [OF at'] ti_at_block_pos [OF at'] b(1) b'(1) by (auto simp: tableIter_next_def)
qed

section \<open>Tables as an iterator of the engine\<close>

text \<open>
  What an iterator has left to yield, by running it. A table of \<open>n\<close> bytes holds at most \<open>n\<close> entries, so
  that many steps are enough.
\<close>

fun table_drain :: "nat \<Rightarrow> tableIter \<Rightarrow> entry list" where
  "table_drain 0 it = []"
| "table_drain (Suc n) it =
     (if tableIter_valid it
      then (tableIter_key it, tableIter_value it) # (case tableIter_next it of None \<Rightarrow> [] | Some it' \<Rightarrow> table_drain n it')
      else [])"

definition table_entries :: "table \<Rightarrow> entry list" where
  "table_entries t =
     (case tableIter_seekToFirst (table_iter t) of None \<Rightarrow> [] | Some it \<Rightarrow> table_drain (length (tb_data t)) it)"

lemma table_drain_on: "ti_on cs it r \<Longrightarrow> length r \<le> n \<Longrightarrow> table_drain n it = r"
proof (induction n arbitrary: it r)
  case (Suc n)
  show ?case
  proof (cases r)
    case Nil
    then show ?thesis using tableIter_current_on [OF Suc.prems(1)] by simp
  next
    case (Cons e es)
    obtain it' where it': "tableIter_next it = Some it'" "ti_on cs it' es"
      using tableIter_next_on [OF Suc.prems(1)] Cons by auto
    then show ?thesis using tableIter_current_on [OF Suc.prems(1)] Cons Suc.IH [OF it'(2)] Suc.prems(2) by simp
  qed
qed simp

lemma length_concat_le_file: "length (concat cs) \<le> length (table_file cs)"
proof -
  have "length (concat cs) \<le> length (data_part cs)"
  proof (induction cs)
    case (Cons c cs)
    have "length c \<le> length (block_bytes c)" using length_entries_le_buf [of c] by (simp add: block_bytes_def builder_finish_def)
    then show ?case using Cons by (simp add: data_part_Cons)
  qed simp
  then show ?thesis by (simp add: table_file_def)
qed

lemma ti_on_rest: "ti_on cs it r \<Longrightarrow> \<exists>n. r = drop n (concat cs)"
proof -
  assume "ti_on cs it r"
  then obtain j i where "r = chunk_rest cs j i" "j < length cs \<longrightarrow> i < length (cs ! j)" by (auto simp: ti_on_def)
  then have "r = drop (length (concat (take j cs)) + i) (concat cs)" if "j < length cs"
    using that concat_split [OF that] by (simp add: chunk_rest_def)
  moreover have "r = drop (length (concat cs)) (concat cs)" if "\<not> j < length cs" using \<open>r = chunk_rest cs j i\<close> that by (simp add: chunk_rest_def)
  ultimately show ?thesis by blast
qed

lemma table_drain_all:
  assumes "ti_on cs it r"
  shows "table_drain (length (tb_data (ti_t it))) it = r"
proof (rule table_drain_on [OF assms])
  have "length r \<le> length (concat cs)" using ti_on_rest [OF assms] by auto
  then show "length r \<le> length (tb_data (ti_t it))"
    using length_concat_le_file [of cs] tb_ok_simps(2) [OF ti_on_index(1) [OF assms]] by simp
qed

definition ti_entries :: "tableIter option \<Rightarrow> entry list" where
  "ti_entries x = (case x of None \<Rightarrow> [] | Some it \<Rightarrow> table_entries (ti_t it))"

definition ti_rest :: "tableIter option \<Rightarrow> entry list" where
  "ti_rest x = (case x of None \<Rightarrow> [] | Some it \<Rightarrow> table_drain (length (tb_data (ti_t it))) it)"

definition ti_inv :: "tableIter option \<Rightarrow> bool" where
  "ti_inv x \<longleftrightarrow> (\<exists>it cs r. x = Some it \<and> ti_on cs it r)"

lemma table_entries_ok: "tb_ok t cs \<Longrightarrow> table_entries t = concat cs"
proof -
  assume t: "tb_ok t cs"
  obtain it where it: "tableIter_seekToFirst (table_iter t) = Some it" "ti_on cs it (concat cs)"
    using tableIter_seekToFirst_on [OF ti_on_iter [OF t]] by blast
  have "table_drain (length (tb_data t)) it = concat cs"
    using table_drain_on [OF it(2)] length_concat_le_file [of cs] tb_ok_simps(2) [OF t] by simp
  then show ?thesis using it(1) by (simp add: table_entries_def)
qed

lemma ti_on_abs:
  assumes "ti_on cs it r"
  shows "ti_inv (Some it) \<and> ti_entries (Some it) = concat cs \<and> ti_rest (Some it) = r"
  using assms table_drain_all [OF assms] table_entries_ok [OF ti_on_index(1) [OF assms]]
  by (auto simp: ti_inv_def ti_entries_def ti_rest_def)

interpretation tbi: internal_iter table_ops ti_entries ti_rest ti_inv
proof (unfold_locales, goal_cases)
  case (1 x)
  then obtain it cs r where x: "x = Some it" "ti_on cs it r" by (auto simp: ti_inv_def)
  then show ?case using ti_on_abs [OF x(2)] tb_ok_simps(1) [OF ti_on_index(1) [OF x(2)]] by (simp add: table_ok_def)
next
  case (2 x e)
  then obtain it cs r where x: "x = Some it" "ti_on cs it r" by (auto simp: ti_inv_def)
  then show ?case using 2 ti_on_abs [OF x(2)] tb_ok_simps(1) [OF ti_on_index(1) [OF x(2)]] by (auto simp: table_ok_def)
next
  case (3 x)
  then obtain it cs r where x: "x = Some it" "ti_on cs it r" by (auto simp: ti_inv_def)
  then show ?case using ti_on_abs [OF x(2)] ti_on_rest [OF x(2)] by simp
next
  case (4 x)
  then obtain it cs r where x: "x = Some it" "ti_on cs it r" by (auto simp: ti_inv_def)
  obtain it' where it': "tableIter_seekToFirst it = Some it'" "ti_on cs it' (concat cs)" using tableIter_seekToFirst_on [OF x(2)] by blast
  then show ?case using x ti_on_abs [OF x(2)] ti_on_abs [OF it'(2)] by (simp add: table_ops_def)
next
  case (5 x k)
  then obtain it cs r where x: "x = Some it" "ti_on cs it r" by (auto simp: ti_inv_def)
  obtain it' where it': "tableIter_seek k it = Some it'" "ti_on cs it' (seek_entries k (concat cs))"
    using tableIter_seek_on [OF x(2) 5(2)] by blast
  then show ?case using x ti_on_abs [OF x(2)] ti_on_abs [OF it'(2)] by (simp add: table_ops_def)
next
  case (6 x)
  then obtain it cs r where x: "x = Some it" "ti_on cs it r" by (auto simp: ti_inv_def)
  then show ?case using ti_on_abs [OF x(2)] tableIter_current_on(1) [OF x(2)] by (simp add: table_ops_def)
next
  case (7 x)
  then obtain it cs r where x: "x = Some it" "ti_on cs it r" by (auto simp: ti_inv_def)
  then have "r \<noteq> []" using 7(2) ti_on_abs [OF x(2)] by simp
  then obtain it' where it': "tableIter_next it = Some it'" "ti_on cs it' (tl r)" using tableIter_next_on [OF x(2)] by blast
  then show ?case using x ti_on_abs [OF x(2)] ti_on_abs [OF it'(2)] by (simp add: table_ops_def)
next
  case (8 x)
  then obtain it cs r where x: "x = Some it" "ti_on cs it r" by (auto simp: ti_inv_def)
  then show ?case using 8(2) ti_on_abs [OF x(2)] tableIter_current_on(2) [OF x(2)] by (simp add: table_ops_def)
next
  case (9 x)
  then obtain it cs r where x: "x = Some it" "ti_on cs it r" by (auto simp: ti_inv_def)
  then show ?case using ti_on_index(2) [OF x(2)] by (simp add: table_ops_def)
qed

section \<open>Lookups\<close>

lemma table_get_newest:
  assumes t: "tb_ok t cs" and e: "\<forall>x \<in> set (concat cs). engine_key (fst x)" and q: "unat seq < 2 ^ 56"
  shows "table_get t key seq = Some (Inr (version_result (newest_version key seq (concat cs))))"
proof (cases "mayContain (tb_bloom t) key")
  case False
  have "key \<notin> set (map (\<lambda>e. userKey (fst e)) (concat cs))"
    using False mayContain_member [of "map (\<lambda>e. userKey (fst e)) (concat cs)" key] tb_ok_simps(1,4) [OF t]
    by (auto simp: bloom_of_def table_ok_def)
  then have "\<not> is_version key seq x" if "x \<in> set (concat cs)" for x
    using that image_eqI [of key "\<lambda>e. userKey (fst e)" x "set (concat cs)"] by (auto simp: is_version_def simp del: set_concat)
  then have "newest_version key seq (concat cs) = None"
    by (simp add: newest_version_def find_None_iff del: set_concat)
  then show ?thesis using False by (simp add: table_get_def version_result_def)
next
  case True
  let ?k = "makeInternalKey key seq kindPut"
  obtain it where it: "tableIter_seek ?k (table_iter t) = Some it" "ti_on cs it (seek_entries ?k (concat cs))"
    using tableIter_seek_on [OF ti_on_iter [OF t], of ?k] by auto
  note cur = tableIter_current_on [OF it(2)]
  have so: "sorted_entries (concat cs)" using tb_ok_simps(1) [OF t] by (simp add: table_ok_def)
  have nv: "newest_version key seq (concat cs) =
      (case seek_entries ?k (concat cs) of [] \<Rightarrow> None | x # _ \<Rightarrow> if userKey (fst x) = key then Some x else None)"
    by (rule seek_newest_version [OF so e q])
  show ?thesis
  proof (cases "seek_entries ?k (concat cs)")
    case Nil
    then show ?thesis using True it(1) cur(1) nv ti_on_index(2) [OF it(2)] by (simp add: table_get_def version_result_def)
  next
    case (Cons x xs)
    have "x \<in> set (seek_entries ?k (concat cs))" using Cons by simp
    then have "x \<in> set (concat cs)" unfolding seek_entries_def by (rule set_dropWhileD)
    then have wf: "wf_ikey (fst x)" using e unfolding engine_key_def by blast
    have "tableIter_valid it" "(tableIter_key it, tableIter_value it) = x" using cur Cons by simp_all
    then have v: "tableIter_valid it" "tableIter_key it = fst x" "tableIter_value it = snd x" by auto
    show ?thesis
      using True it(1) nv wf v unfolding Cons table_get_def by (simp add: version_result_def splitInternalKey_conv Let_def)
  qed
qed

text \<open>
  What the writer makes of a sorted stream of entries: a file that opens, whose iterator ranges over
  exactly those entries, and the metadata that the manifest records.
\<close>

definition stream_ok :: "entry list \<Rightarrow> bool" where
  "stream_ok es \<longleftrightarrow> sorted_entries es \<and> 10 * length es + 71 < 2 ^ 32 \<and> (\<forall>e \<in> set es. wf_entry e \<and> length (fst e) < 2 ^ 32)"

lemma written_table:
  assumes ok: "stream_ok es" and len: "length (file_of (add_all (newTableWriter num bs) es)) < 2 ^ 32"
  shows "\<exists>cs. tb_ok (opened_table m cs) cs \<and> concat cs = es \<and> openTable m (file_of (add_all (newTableWriter num bs) es)) = Inr (opened_table m cs)
    \<and> file_of (add_all (newTableWriter num bs) es) = table_file cs
    \<and> meta_inv (fst (tableWriter_finish (add_all (newTableWriter num bs) es))) es
    \<and> (es \<noteq> [] \<longrightarrow> tm_largest (fst (tableWriter_finish (add_all (newTableWriter num bs) es))) = fst (last es))"
proof -
  obtain cs0 cur where w: "tw_inv (add_all (newTableWriter num bs) es) cs0 cur" "concat cs0 @ cur = es"
      "meta_inv (tw_meta (add_all (newTableWriter num bs) es)) (concat cs0 @ cur)"
    using add_all_inv [of "newTableWriter num bs" "[]" "[]" es] tw_inv_new [of num bs] by auto
  obtain cs where cs: "concat cs = es" "[] \<notin> set cs" "file_of (add_all (newTableWriter num bs) es) = table_file cs"
      "meta_inv (fst (tableWriter_finish (add_all (newTableWriter num bs) es))) es"
      "es \<noteq> [] \<longrightarrow> tm_largest (fst (tableWriter_finish (add_all (newTableWriter num bs) es))) = fst (last es)"
    using tableWriter_finish_inv [OF w(1,3)] w(2) by metis
  have "table_ok cs" using ok len cs by (auto simp: table_ok_def stream_ok_def)
  then show ?thesis using cs tb_ok_opened [of cs m] openTable_file [of cs m] by (auto simp: table_ok_def)
qed

text \<open>
  C31: Writing a sorted stream of entries and opening the file gives a table whose iterator yields exactly
  that stream, and a lookup at sequence number \<open>seq\<close> answers with the newest version of the key in the
  stream at or below \<open>seq\<close>, tombstones included - whatever the Bloom filter and the index say on the way,
  and however the block size cuts the stream into blocks.
\<close>

theorem table_roundtrip:
  assumes "stream_ok es" and "\<forall>e \<in> set es. engine_key (fst e)"
    and "length (file_of (add_all (newTableWriter num bs) es)) < 2 ^ 32" and "unat seq < 2 ^ 56"
  shows "\<exists>t. openTable m (file_of (add_all (newTableWriter num bs) es)) = Inr t
    \<and> table_entries t = es
    \<and> table_get t key seq = Some (Inr (version_result (newest_version key seq es)))"
proof -
  obtain cs where cs: "tb_ok (opened_table m cs) cs" "concat cs = es"
      "openTable m (file_of (add_all (newTableWriter num bs) es)) = Inr (opened_table m cs)"
    using written_table [OF assms(1,3)] by blast
  show ?thesis
    using cs(3) table_entries_ok [OF cs(1)] table_get_newest [OF cs(1) _ assms(4), of key] assms(2) cs(2) by auto
qed

lemma put_uvarint_small: "x < 128 \<Longrightarrow> put_uvarint x = [word_of_nat x]"
  by (simp add: put_uvarint.simps)

theorem table_roundtrip_witness:
  "\<exists>t. openTable \<lparr>tm_num = 1, tm_size = 0, tm_count = 1, tm_smallest = [], tm_largest = []\<rparr> (file_of (add_all (newTableWriter 1 4096) [(makeInternalKey [1] 7 kindPut, [10])])) = Inr t
    \<and> table_entries t = [(makeInternalKey [1] 7 kindPut, [10])] \<and> table_get t [1] 9 = Some (Inr ([10], True, False))"
proof -
  let ?es = "[(makeInternalKey [1] 7 kindPut, [10 :: u8])]"
  have s: "stream_ok ?es" by (simp add: stream_ok_def sorted_entries_def wf_entry_def) (simp add: makeInternalKey_def)
  have e: "\<forall>e \<in> set ?es. engine_key (fst e)" by (simp add: engine_key_def key_kind_def)
  have f: "length (file_of (add_all (newTableWriter 1 4096) ?es)) < 2 ^ 32"
    using length_buildBloom [of "[[1]]"]
    by (simp add: file_of_def add_all_def tableWriter_finish_def tableWriter_add_def newTableWriter_def add_pending_def flushBlock_def
        writeBlock_def builder_add_def builder_finish_def builder_reset_def newBuilder_def builder_size_def builder_empty_def
        footer_bytes_def blockHandle_encode_def encode_entry_def restartInterval_def bloom_bytes_def bloomBitsPerKey_def Let_def
        makeInternalKey_def [of "[1]"] userKey_def trailerSize_def put_uvarint_small)
  have "version_result (newest_version [1] 9 ?es) = ([10], True, False)"
    by (simp add: newest_version_def version_result_def is_version_def key_seq_def key_kind_def kindPut_def kindDelete_def)
  with table_roundtrip [OF s e f, of 9 "\<lparr>tm_num = 1, tm_size = 0, tm_count = 1, tm_smallest = [], tm_largest = []\<rparr>" "[1]"] show ?thesis by simp
qed

end
