(* ===== verification/Version.thy ===== *)
theory Version
  imports Memtable Merge Sstable
begin

text \<open>
  Versions and the streams over them (\<open>src/storage/version.go\<close> and the parts of \<open>src/storage/db.go\<close> that
  read a version): the tiers a reader consults, the children of the merging iterator - memtable and
  table iterators behind one interface -, the iterator that turns versions into visible values, and
  the two loops that write a table from a stream. Pointers to memtables and tables are compared by
  value: every memtable has its own WAL segment and every table its own number.
\<close>

section \<open>Versions\<close>

record version =
  v_mem :: memtable
  v_imm :: "memtable list"
  v_tables :: "table list"

definition newVersion :: "memtable \<Rightarrow> memtable list \<Rightarrow> table list \<Rightarrow> version" where
  "newVersion mem imm tables = \<lparr>v_mem = mem, v_imm = imm, v_tables = tables\<rparr>"

definition withMemtable :: "version \<Rightarrow> memtable \<Rightarrow> version" where
  "withMemtable v mem = newVersion mem (v_imm v @ [v_mem v]) (v_tables v)"

definition withFlushed :: "version \<Rightarrow> memtable \<Rightarrow> table option \<Rightarrow> version" where
  "withFlushed v flushed t =
     newVersion (v_mem v) (filter (\<lambda>m. m \<noteq> flushed) (v_imm v))
       (case t of None \<Rightarrow> v_tables v | Some t \<Rightarrow> t # v_tables v)"

definition isInput :: "table \<Rightarrow> table list \<Rightarrow> bool" where
  "isInput t inputs \<longleftrightarrow> list_ex (\<lambda>i. i = t) inputs"

fun replace_run :: "bool \<Rightarrow> table list \<Rightarrow> table option \<Rightarrow> table list \<Rightarrow> table list" where
  "replace_run replaced inputs out [] = []"
| "replace_run replaced inputs out (t # ts) =
     (if isInput t inputs
      then (case out of
              None \<Rightarrow> replace_run True inputs out ts
            | Some o' \<Rightarrow> if \<not> replaced then o' # replace_run True inputs out ts else replace_run True inputs out ts)
      else t # replace_run replaced inputs out ts)"

definition withCompacted :: "version \<Rightarrow> table list \<Rightarrow> table option \<Rightarrow> version" where
  "withCompacted v inputs out = newVersion (v_mem v) (v_imm v) (replace_run False inputs out (v_tables v))"

section \<open>The children of a merge\<close>

datatype child = MemIt skiplistIter | TabIt "tableIter option"

definition child_ops :: "child internalIter" where
  "child_ops =
     \<lparr>it_seekToFirst = (\<lambda>c. case c of MemIt x \<Rightarrow> MemIt (it_seekToFirst skiplist_ops x) | TabIt x \<Rightarrow> TabIt (it_seekToFirst table_ops x)),
      it_seek = (\<lambda>k c. case c of MemIt x \<Rightarrow> MemIt (it_seek skiplist_ops k x) | TabIt x \<Rightarrow> TabIt (it_seek table_ops k x)),
      it_valid = (\<lambda>c. case c of MemIt x \<Rightarrow> it_valid skiplist_ops x | TabIt x \<Rightarrow> it_valid table_ops x),
      it_next = (\<lambda>c. case c of MemIt x \<Rightarrow> MemIt (it_next skiplist_ops x) | TabIt x \<Rightarrow> TabIt (it_next table_ops x)),
      it_key = (\<lambda>c. case c of MemIt x \<Rightarrow> it_key skiplist_ops x | TabIt x \<Rightarrow> it_key table_ops x),
      it_value = (\<lambda>c. case c of MemIt x \<Rightarrow> it_value skiplist_ops x | TabIt x \<Rightarrow> it_value table_ops x),
      it_close = (\<lambda>c. case c of MemIt x \<Rightarrow> it_close skiplist_ops x | TabIt x \<Rightarrow> it_close table_ops x)\<rparr>"

definition mem_child :: "memtable \<Rightarrow> child" where
  "mem_child m = MemIt (memtable_iter m)"

definition tab_child :: "table \<Rightarrow> child" where
  "tab_child t = TabIt (Some (table_iter t))"

text \<open>The tiers of a version, newest first, as \<open>Scan\<close> and \<open>Export\<close> line them up.\<close>

definition version_children :: "version \<Rightarrow> child list" where
  "version_children v = mem_child (v_mem v) # map mem_child (rev (v_imm v)) @ map tab_child (v_tables v)"

text \<open>
  A bound on the number of entries a child can yield: the nodes of the list, the bytes of the file. The
  loops over an iterator take the sum as fuel.
\<close>

fun child_size :: "child \<Rightarrow> nat" where
  "child_size (MemIt x) = length (s_nodes (si_list x))"
| "child_size (TabIt None) = 0"
| "child_size (TabIt (Some it)) = length (tb_data (ti_t it))"

definition children_size :: "child list \<Rightarrow> nat" where
  "children_size cs = sum_list (map child_size cs)"

section \<open>Writing tables\<close>

text \<open>The body of the loop of \<open>writeTableFiltered\<close>: the last user key seen and the writer.\<close>

definition write_body :: "bool \<Rightarrow> bytes \<Rightarrow> bytes \<Rightarrow> bytes \<times> tableWriter \<Rightarrow> bytes \<times> tableWriter" where
  "write_body dropTombstones ik val s =
     (let (user, _, kind) = splitInternalKey ik; (lst, w) = s
      in if user = lst then s
         else if dropTombstones \<and> kind = kindDelete then (user, w)
         else (user, tableWriter_add w ik val))"

text \<open>Everything of \<open>writeTableFiltered\<close> but the file: the table's metadata and bytes, or the iterator's error.\<close>

definition write_stream ::
  "'it internalIter \<Rightarrow> nat \<Rightarrow> u64 \<Rightarrow> nat \<Rightarrow> bool \<Rightarrow> 'it \<Rightarrow> storage_error + tableMeta \<times> bytes" where
  "write_stream ops fuel num blockSize dropTombstones it =
     (case iter_loop ops (write_body dropTombstones) fuel (it_seekToFirst ops it) ([], newTableWriter num blockSize) of
        (it', _, w) \<Rightarrow>
          (case it_close ops it' of
             Some e \<Rightarrow> Inl e
           | None \<Rightarrow> (case tableWriter_finish w of (meta, w') \<Rightarrow> Inr (meta, tw_out w'))))"

definition export_body :: "u64 \<Rightarrow> bytes \<Rightarrow> bytes \<Rightarrow> bytes \<times> tableWriter \<Rightarrow> bytes \<times> tableWriter" where
  "export_body seq ik val st =
     (let (user, s, kind) = splitInternalKey ik; (lst, w) = st
      in if s > seq \<or> user = lst then st
         else if kind = kindDelete then (user, w)
         else (user, tableWriter_add w ik val))"

definition exportIter :: "'it internalIter \<Rightarrow> nat \<Rightarrow> u64 \<Rightarrow> nat \<Rightarrow> 'it \<Rightarrow> storage_error + bytes" where
  "exportIter ops fuel seq blockSize it =
     (case iter_loop ops (export_body seq) fuel (it_seekToFirst ops it) ([], newStreamWriter blockSize) of
        (it', _, w) \<Rightarrow>
          (case it_close ops it' of
             Some e \<Rightarrow> Inl e
           | None \<Rightarrow> Inr (tw_out (snd (tableWriter_finish w)))))"

section \<open>Scans\<close>

record 'it dbIter =
  di_seq :: u64
  di_m :: "'it mergeIter option"
  di_end :: "bytes option"
  di_k :: bytes
  di_val :: bytes
  di_last :: bytes
  di_err :: "storage_error option"

definition newDbIter :: "'it internalIter \<Rightarrow> 'it list \<Rightarrow> u64 \<Rightarrow> bytes \<Rightarrow> bytes option \<Rightarrow> 'it dbIter" where
  "newDbIter ops children seq start end' =
     \<lparr>di_seq = seq, di_m = Some (merge_seek ops (makeInternalKey start seq kindPut) (newMergeIter children)),
      di_end = end', di_k = [], di_val = [], di_last = [], di_err = None\<rparr>"

fun dbIter_loop :: "'it internalIter \<Rightarrow> nat \<Rightarrow> 'it dbIter \<Rightarrow> 'it mergeIter \<Rightarrow> bool \<times> 'it dbIter" where
  "dbIter_loop ops 0 it m = (False, it\<lparr>di_m := Some m\<rparr>)"
| "dbIter_loop ops (Suc n) it m =
     (if \<not> merge_valid m then (False, it\<lparr>di_m := Some m\<rparr>)
      else let (user, seq, kind) = splitInternalKey (merge_key ops m)
        in if (case di_end it of None \<Rightarrow> False | Some e \<Rightarrow> bytes_compare user e \<ge> 0) then (False, it\<lparr>di_m := Some m\<rparr>)
           else if seq > di_seq it \<or> user = di_last it then dbIter_loop ops n it (merge_next ops m)
           else if kind = kindDelete then dbIter_loop ops n (it\<lparr>di_last := user\<rparr>) (merge_next ops m)
           else (True, it\<lparr>di_last := user, di_k := user, di_val := merge_value ops m, di_m := Some (merge_next ops m)\<rparr>))"

text \<open>
  The loop of \<open>Next\<close> ends when the merge is exhausted; the fuel is one more than the entries left. Calling
  it on a closed iterator dereferences nil: None.
\<close>

definition dbIter_Next :: "'it internalIter \<Rightarrow> nat \<Rightarrow> 'it dbIter \<Rightarrow> (bool \<times> 'it dbIter) option" where
  "dbIter_Next ops fuel it =
     (case di_err it of
        Some _ \<Rightarrow> Some (False, it)
      | None \<Rightarrow> (case di_m it of None \<Rightarrow> None | Some m \<Rightarrow> Some (dbIter_loop ops fuel it m)))"

definition dbIter_Close :: "'it internalIter \<Rightarrow> 'it dbIter \<Rightarrow> storage_error option \<times> 'it dbIter" where
  "dbIter_Close ops it =
     (case di_m it of
        None \<Rightarrow> (di_err it, it)
      | Some m \<Rightarrow>
          let err = (case merge_close ops m of
                       Some e \<Rightarrow> (if di_err it = None then Some e else di_err it)
                     | None \<Rightarrow> di_err it)
          in (err, it\<lparr>di_err := err, di_m := None\<rparr>))"

end
