(* ===== verification/Wal.thy ===== *)
theory Wal
  imports Batch
begin

text \<open>
  The write-ahead log (\<open>src/storage/wal.go\<close>): records \<open>length | crc32c | payload\<close> appended to
  numbered segment files. The directory is an association list from segment number to file
  contents; every operation takes what the operating system answers as an argument, so that a short write and a
  failed read, sync, open, truncation or removal are branches of the model.
\<close>

section \<open>Model\<close>

datatype wal_error = ErrCorrupt | ErrEmptyRecord | ErrWalClosed | ErrAppend | ErrSync | ErrOs

datatype 'e open_error = WalErr wal_error | ErrReplay 'e

definition recordHeader :: nat where "recordHeader = 8"

text \<open>One record as \<open>Append\<close> lays it out.\<close>

definition wal_record :: "bytes \<Rightarrow> bytes" where
  "wal_record p = put_le32 (word_of_nat (length p)) @ put_le32 (crc32c p) @ p"

text \<open>What the operating system does with the calls of one operation.\<close>

datatype delete_answer =
  DelOk
| DelList \<comment> \<open>the directory cannot be listed\<close>
| DelRemove nat \<comment> \<open>the removal of the segment with this position fails\<close>

record os_answer =
  os_write :: "nat option" \<comment> \<open>\<open>Some n\<close>: the write fails after \<open>n\<close> bytes\<close>
  os_sync :: bool
  os_close :: bool
  os_open :: bool \<comment> \<open>creating a segment file\<close>
  os_syncDir :: bool
  os_list :: bool \<comment> \<open>making the directory, listing it and opening its segments, in \<open>OpenWAL\<close>\<close>
  os_read :: "(nat \<times> nat) option" \<comment> \<open>\<open>Some (seg, n)\<close>: reading the segment fails at byte \<open>n\<close>\<close>
  os_truncate :: bool
  os_delete :: delete_answer

definition os_ok :: os_answer where
  "os_ok = \<lparr>os_write = None, os_sync = True, os_close = True, os_open = True, os_syncDir = True, os_list = True,
     os_read = None, os_truncate = True, os_delete = DelOk\<rparr>"

text \<open>
  \<open>replaySegment\<close> walks the file from offset \<open>off\<close>, handing every payload to the callback. The
  result is the callback's state and the length the file is left with: its full length at a
  clean end, the offset of the last good record when a torn tail is truncated.
  In \<open>truncateTorn\<close>, \<open>cause\<close> tells that the read failed with an error of its own, which is reported after the tail has
  been cut off.
\<close>

definition truncateTorn :: "os_answer \<Rightarrow> bool \<Rightarrow> bool \<Rightarrow> nat \<Rightarrow> 's \<Rightarrow> 'e open_error + ('s \<times> nat)" where
  "truncateTorn os cause lst off s =
     (if \<not> lst then Inl (WalErr ErrCorrupt)
      else if \<not> os_truncate os \<or> \<not> os_sync os \<or> cause then Inl (WalErr ErrOs)
      else Inr (s, off))"

text \<open>Reading up to byte \<open>k\<close> of a file whose reads fail at byte \<open>n\<close>.\<close>

definition read_fails :: "nat option \<Rightarrow> nat \<Rightarrow> bool" where
  "read_fails rd k = (case rd of None \<Rightarrow> False | Some n \<Rightarrow> n < k)"

function replay_loop ::
  "os_answer \<Rightarrow> nat option \<Rightarrow> (bytes \<Rightarrow> 's \<Rightarrow> 'e + 's) \<Rightarrow> bool \<Rightarrow> bytes \<Rightarrow> nat \<Rightarrow> 's \<Rightarrow> 'e open_error + ('s \<times> nat)" where
  "replay_loop os rd replay lst f off s =
     (let rest = drop off f
      in if read_fails rd (off + recordHeader) then truncateTorn os True lst off s
         else if rest = [] then if lst \<and> \<not> os_sync os then Inl (WalErr ErrOs) else Inr (s, off)
         else if length rest < recordHeader then truncateTorn os False lst off s
         else let len = unat (get_le32 rest); crc = get_le32 (drop 4 rest)
           in if len = 0 then truncateTorn os False lst off s
              else if read_fails rd (off + recordHeader + len) then truncateTorn os True lst off s
              else if length (drop recordHeader rest) < len then truncateTorn os False lst off s
              else let buf = take len (drop recordHeader rest)
                in if crc32c buf \<noteq> crc then truncateTorn os False lst off s
                   else case replay buf s of
                          Inl e \<Rightarrow> Inl (ErrReplay e)
                        | Inr s' \<Rightarrow> replay_loop os rd replay lst f (off + recordHeader + len) s')"
  by pat_completeness auto
termination
  by (relation "measure (\<lambda>(os, rd, r, l, f, off, s). length f - off)") (auto simp: recordHeader_def)

declare replay_loop.simps [simp del]

definition replaySegment ::
  "os_answer \<Rightarrow> (nat \<Rightarrow> bytes \<Rightarrow> 's \<Rightarrow> 'e + 's) \<Rightarrow> nat \<Rightarrow> bool \<Rightarrow> bytes \<Rightarrow> 's \<Rightarrow> 'e open_error + ('s \<times> bytes)" where
  "replaySegment os replay seg lst f s =
     (let rd = (case os_read os of None \<Rightarrow> None | Some (g, n) \<Rightarrow> if g = seg then Some n else None)
      in case replay_loop os rd (replay seg) lst f 0 s of
           Inl e \<Rightarrow> Inl e
         | Inr (s', n) \<Rightarrow> Inr (s', take n f))"

type_synonym wal_dir = "(nat \<times> bytes) list"

definition listSegments :: "wal_dir \<Rightarrow> nat list" where
  "listSegments d = sort (map fst d)"

definition dir_write :: "wal_dir \<Rightarrow> nat \<Rightarrow> bytes \<Rightarrow> wal_dir" where
  "dir_write d seg f = map (\<lambda>(s, g). (s, if s = seg then f else g)) d"

definition dir_file :: "wal_dir \<Rightarrow> nat \<Rightarrow> bytes" where
  "dir_file d seg = (case map_of d seg of None \<Rightarrow> [] | Some f \<Rightarrow> f)"

record WAL =
  w_dir :: wal_dir
  w_segmentSize :: nat
  w_syncAlways :: bool
  w_seg :: nat
  w_size :: nat
  w_dirty :: bool
  w_closed :: bool
  w_appendErr :: bool
  w_syncErr :: bool
  w_fileClosed :: bool \<comment> \<open>a rotation closed the file and did not open the next one\<close>

fun replay_all ::
  "os_answer \<Rightarrow> (nat \<Rightarrow> bytes \<Rightarrow> 's \<Rightarrow> 'e + 's) \<Rightarrow> nat list \<Rightarrow> wal_dir \<Rightarrow> 's \<Rightarrow> 'e open_error + ('s \<times> wal_dir)" where
  "replay_all os replay [] d s = Inr (s, d)"
| "replay_all os replay (seg # segs) d s =
     (case replaySegment os replay seg (segs = []) (dir_file d seg) s of
        Inl e \<Rightarrow> Inl e
      | Inr (s', f) \<Rightarrow> replay_all os replay segs (dir_write d seg f) s')"

text \<open>
  \<open>openSegment\<close> leaves the new file behind when the directory cannot be synced, while the log still points to
  the file it had.
\<close>

definition openSegment :: "WAL \<Rightarrow> nat \<Rightarrow> os_answer \<Rightarrow> wal_error option \<times> WAL" where
  "openSegment w seg os =
     (if \<not> os_open os \<or> seg \<in> set (map fst (w_dir w)) then (Some ErrOs, w)
      else let w' = w\<lparr>w_dir := w_dir w @ [(seg, [])]\<rparr>
        in if \<not> os_syncDir os then (Some ErrOs, w')
           else (None, w'\<lparr>w_seg := seg, w_size := 0, w_fileClosed := False\<rparr>))"

definition OpenWAL ::
  "wal_dir \<Rightarrow> nat \<Rightarrow> bool \<Rightarrow> (nat \<Rightarrow> bytes \<Rightarrow> 's \<Rightarrow> 'e + 's) \<Rightarrow> 's \<Rightarrow> os_answer \<Rightarrow> 'e open_error + ('s \<times> WAL)" where
  "OpenWAL d segmentSize syncAlways replay s os =
     (let segmentSize = (if segmentSize = 0 then 67108864 else segmentSize); segs = listSegments d
      in if \<not> os_list os then Inl (WalErr ErrOs)
         else case replay_all os replay segs d s of
                Inl e \<Rightarrow> Inl e
              | Inr (s', d') \<Rightarrow>
                  (case openSegment
                          \<lparr>w_dir = d', w_segmentSize = segmentSize, w_syncAlways = syncAlways, w_seg = 0,
                           w_size = 0, w_dirty = False, w_closed = False, w_appendErr = False, w_syncErr = False,
                           w_fileClosed = False\<rparr>
                          (if segs = [] then 1 else last segs + 1) os of
                     (Some e, _) \<Rightarrow> Inl (WalErr e)
                   | (None, w) \<Rightarrow> Inr (s', w)))"

text \<open>
  Every operation returns the log as it is left, whether it succeeded or not, together with
  the error or the value.
\<close>

definition syncLocked :: "WAL \<Rightarrow> os_answer \<Rightarrow> wal_error option \<times> WAL" where
  "syncLocked w os =
     (if \<not> w_dirty w then (if w_syncErr w then Some ErrSync else None, w)
      else if \<not> os_sync os \<or> w_fileClosed w then (Some ErrSync, w\<lparr>w_syncErr := True\<rparr>)
      else (None, w\<lparr>w_dirty := False\<rparr>))"

definition rotateLocked :: "WAL \<Rightarrow> os_answer \<Rightarrow> wal_error option \<times> WAL" where
  "rotateLocked w os =
     (if w_appendErr w then (Some ErrAppend, w)
      else case syncLocked w os of
             (Some e, w') \<Rightarrow> (Some e, w')
           | (None, w') \<Rightarrow>
               if \<not> os_close os \<or> w_fileClosed w' then (Some ErrOs, w'\<lparr>w_fileClosed := True\<rparr>)
               else openSegment (w'\<lparr>w_fileClosed := True\<rparr>) (w_seg w' + 1) os)"

definition WAL_Rotate :: "WAL \<Rightarrow> os_answer \<Rightarrow> (wal_error + nat) \<times> WAL" where
  "WAL_Rotate w os =
     (case rotateLocked w os of
        (Some e, w') \<Rightarrow> (Inl e, w')
      | (None, w') \<Rightarrow> (Inr (w_seg w'), w'))"

definition WAL_write :: "WAL \<Rightarrow> bytes \<Rightarrow> os_answer \<Rightarrow> wal_error option \<times> WAL" where
  "WAL_write w buf os =
     (let f = dir_file (w_dir w) (w_seg w)
      in if w_fileClosed w then (Some ErrAppend, w\<lparr>w_appendErr := True\<rparr>)
         else case os_write os of
           Some n \<Rightarrow> (Some ErrAppend,
             w\<lparr>w_dir := dir_write (w_dir w) (w_seg w) (f @ take n buf), w_appendErr := True\<rparr>)
         | None \<Rightarrow> (None,
             w\<lparr>w_dir := dir_write (w_dir w) (w_seg w) (f @ buf), w_size := w_size w + length buf,
               w_dirty := True\<rparr>))"

definition WAL_Append :: "WAL \<Rightarrow> bytes list \<Rightarrow> os_answer \<Rightarrow> (wal_error + nat) \<times> WAL" where
  "WAL_Append w payloads os =
     (if [] \<in> set payloads then (Inl ErrEmptyRecord, w)
      else let buf = concat (map wal_record payloads)
        in if w_closed w then (Inl ErrWalClosed, w)
           else if w_appendErr w then (Inl ErrAppend, w)
           else case (if w_size w \<ge> w_segmentSize w then rotateLocked w os else (None, w)) of
                  (Some e, w') \<Rightarrow> (Inl e, w')
                | (None, w') \<Rightarrow>
                    (case WAL_write w' buf os of
                       (Some e, w'') \<Rightarrow> (Inl e, w'')
                     | (None, w'') \<Rightarrow>
                         if w_syncAlways w'' then
                           (case syncLocked w'' os of
                              (Some e, w3) \<Rightarrow> (Inl e, w3)
                            | (None, w3) \<Rightarrow> (Inr (w_seg w3), w3))
                         else (Inr (w_seg w''), w'')))"

text \<open>The segments below \<open>seg\<close> go in increasing order; the first removal that fails ends the loop.\<close>

definition WAL_DeleteBefore :: "WAL \<Rightarrow> nat \<Rightarrow> os_answer \<Rightarrow> wal_error option \<times> WAL" where
  "WAL_DeleteBefore w seg os =
     (let old = takeWhile (\<lambda>s. s < seg) (listSegments (w_dir w));
          remove = (\<lambda>gone. w\<lparr>w_dir := filter (\<lambda>(s, f). s \<notin> set gone) (w_dir w)\<rparr>)
      in case os_delete os of
           DelOk \<Rightarrow> (None, remove old)
         | DelList \<Rightarrow> (Some ErrOs, w)
         | DelRemove n \<Rightarrow> (if n < length old then Some ErrOs else None, remove (take n old)))"

definition WAL_Close :: "WAL \<Rightarrow> os_answer \<Rightarrow> wal_error option \<times> WAL" where
  "WAL_Close w os =
     (if w_closed w then (None, w)
      else case syncLocked (w\<lparr>w_closed := True\<rparr>) os of
             (Some e, w') \<Rightarrow> (Some e, w')
           | (None, w') \<Rightarrow> (if os_close os \<and> \<not> w_fileClosed w' then None else Some ErrOs, w'))"

section \<open>Replaying a segment\<close>

lemma os_ok_simps [simp]:
  "os_write os_ok = None" "os_sync os_ok" "os_close os_ok" "os_open os_ok" "os_syncDir os_ok" "os_list os_ok"
  "os_read os_ok = None" "os_truncate os_ok" "os_delete os_ok = DelOk" "\<not> read_fails None k"
  by (simp_all add: os_ok_def read_fails_def)

definition wf_payload :: "bytes \<Rightarrow> bool" where
  "wf_payload p \<longleftrightarrow> p \<noteq> [] \<and> length p < 2 ^ 32"

definition wal_bytes :: "bytes list \<Rightarrow> bytes" where
  "wal_bytes ps = concat (map wal_record ps)"

text \<open>The bytes at which replay stops: something is left, but no complete record.\<close>

definition torn :: "bytes \<Rightarrow> bool" where
  "torn r \<longleftrightarrow> r \<noteq> [] \<and>
     (length r < recordHeader \<or> unat (get_le32 r) = 0
      \<or> length (drop recordHeader r) < unat (get_le32 r)
      \<or> crc32c (take (unat (get_le32 r)) (drop recordHeader r)) \<noteq> get_le32 (drop 4 r))"

fun replay_payloads :: "(bytes \<Rightarrow> 's \<Rightarrow> 'e + 's) \<Rightarrow> bytes list \<Rightarrow> 's \<Rightarrow> 'e + 's" where
  "replay_payloads replay [] s = Inr s"
| "replay_payloads replay (p # ps) s =
     (case replay p s of Inl e \<Rightarrow> Inl e | Inr s' \<Rightarrow> replay_payloads replay ps s')"

lemma length_wal_record [simp]: "length (wal_record p) = recordHeader + length p"
  by (simp add: wal_record_def recordHeader_def)

lemma wal_record_nonempty [simp]: "wal_record p \<noteq> []"
  by (metis length_wal_record add_is_0 list.size(3) recordHeader_def zero_neq_numeral)

lemma replay_loop_end: "replay_loop os_ok None replay lst f (length f) s = Inr (s, length f)"
  by (subst replay_loop.simps) (simp add: Let_def)

lemma replay_loop_torn:
  "torn t \<Longrightarrow> replay_loop os_ok None replay lst (pre @ t) (length pre) s = truncateTorn os_ok False lst (length pre) s"
  by (subst replay_loop.simps) (auto simp: torn_def Let_def)

lemma replay_loop_record:
  assumes "wf_payload p"
  shows "replay_loop os_ok None replay lst (pre @ wal_record p @ r) (length pre) s =
    (case replay p s of
       Inl e \<Rightarrow> Inl (ErrReplay e)
     | Inr s' \<Rightarrow> replay_loop os_ok None replay lst (pre @ wal_record p @ r) (length pre + length (wal_record p)) s')"
proof -
  have n: "unat (word_of_nat (length p) :: u32) = length p"
    using assms by (simp add: wf_payload_def unat_of_nat)
  define rest where "rest = wal_record p @ r"
  have h: "length rest = recordHeader + length p + length r" by (simp add: rest_def)
  have l: "unat (get_le32 rest) = length p"
    using n by (simp add: rest_def wal_record_def)
  have c: "get_le32 (drop 4 rest) = crc32c p"
    by (simp add: rest_def wal_record_def)
  have b: "drop recordHeader rest = p @ r"
    by (simp add: rest_def wal_record_def recordHeader_def)
  have "rest \<noteq> []" by (simp add: rest_def)
  then show ?thesis
    unfolding rest_def [symmetric]
    using assms h l c b
    by (subst replay_loop.simps) (simp add: Let_def wf_payload_def add.assoc split: sum.splits)
qed

lemma replay_loop_records:
  "list_all wf_payload ps \<Longrightarrow> t = [] \<or> torn t \<Longrightarrow>
   replay_loop os_ok None replay lst (pre @ wal_bytes ps @ t) (length pre) s =
    (case replay_payloads replay ps s of
       Inl e \<Rightarrow> Inl (ErrReplay e)
     | Inr s' \<Rightarrow> (if t = [] then Inr (s', length pre + length (wal_bytes ps))
                 else truncateTorn os_ok False lst (length pre + length (wal_bytes ps)) s'))"
proof (induction ps arbitrary: pre s)
  case Nil
  then show ?case
    using replay_loop_end [of replay lst pre s] by (auto simp: wal_bytes_def replay_loop_torn)
next
  case (Cons p ps)
  have e: "pre @ wal_bytes (p # ps) @ t = pre @ wal_record p @ (wal_bytes ps @ t)"
    by (simp add: wal_bytes_def)
  have e': "pre @ wal_record p @ (wal_bytes ps @ t) = (pre @ wal_record p) @ wal_bytes ps @ t"
    by simp
  have IH: "replay_loop os_ok None replay lst ((pre @ wal_record p) @ wal_bytes ps @ t) (length (pre @ wal_record p)) s' =
    (case replay_payloads replay ps s' of
       Inl e \<Rightarrow> Inl (ErrReplay e)
     | Inr s'' \<Rightarrow> (if t = [] then Inr (s'', length (pre @ wal_record p) + length (wal_bytes ps))
                 else truncateTorn os_ok False lst (length (pre @ wal_record p) + length (wal_bytes ps)) s''))" for s'
    using Cons.IH [of "pre @ wal_record p" s'] Cons.prems by simp
  have "wf_payload p" using Cons.prems by simp
  then show ?case
    unfolding e
    by (subst replay_loop_record)
      (use IH in \<open>auto simp: wal_bytes_def add.assoc split: sum.splits\<close>)
qed

text \<open>A record cut anywhere but at its end is torn.\<close>

lemma torn_prefix:
  assumes "wf_payload p" and "n < length (wal_record p)"
  shows "take n (wal_record p) = [] \<or> torn (take n (wal_record p))"
proof (cases "n < recordHeader")
  case True
  then show ?thesis by (auto simp: torn_def)
next
  case False
  have len: "unat (word_of_nat (length p) :: u32) = length p"
    using assms(1) by (simp add: wf_payload_def unat_of_nat)
  have "get_le32 (take n (wal_record p)) = word_of_nat (length p)"
    using False by (simp add: wal_record_def recordHeader_def)
  then have "length (drop recordHeader (take n (wal_record p))) < unat (get_le32 (take n (wal_record p)))"
    using assms False len by simp
  moreover have "take n (wal_record p) \<noteq> []" using False by (simp add: recordHeader_def)
  ultimately show ?thesis unfolding torn_def by blast
qed

lemma take_wal_bytes:
  assumes "list_all wf_payload ps"
  shows "\<exists>k t. take n (wal_bytes ps) = wal_bytes (take k ps) @ t \<and> k \<le> length ps \<and> (t = [] \<or> torn t)
    \<and> (k = length ps \<or> n < length (wal_bytes (take (Suc k) ps)))"
  using assms
proof (induction ps arbitrary: n)
  case Nil
  then show ?case by (auto simp: wal_bytes_def)
next
  case (Cons p ps)
  show ?case
  proof (cases "n < length (wal_record p)")
    case True
    then have "take n (wal_bytes (p # ps)) = take n (wal_record p)" by (simp add: wal_bytes_def)
    then have "take n (wal_bytes (p # ps)) = wal_bytes (take 0 (p # ps)) @ take n (wal_record p)"
      by (simp add: wal_bytes_def)
    moreover have "n < length (wal_bytes (take (Suc 0) (p # ps)))" using True by (simp add: wal_bytes_def)
    ultimately show ?thesis
      using torn_prefix [OF _ True] Cons.prems by (intro exI [of _ 0] exI [of _ "take n (wal_record p)"]) auto
  next
    case False
    obtain k t where kt: "take (n - length (wal_record p)) (wal_bytes ps) = wal_bytes (take k ps) @ t"
      "k \<le> length ps" "t = [] \<or> torn t"
      "k = length ps \<or> n - length (wal_record p) < length (wal_bytes (take (Suc k) ps))"
      using Cons.IH [of "n - length (wal_record p)"] Cons.prems by auto
    have "take n (wal_bytes (p # ps)) = wal_bytes (take (Suc k) (p # ps)) @ t"
      using False kt(1) by (simp add: wal_bytes_def)
    moreover have "Suc k = length (p # ps) \<or> n < length (wal_bytes (take (Suc (Suc k)) (p # ps)))"
      using kt(4) False by (auto simp: wal_bytes_def)
    ultimately show ?thesis using kt(2,3) by (intro exI [of _ "Suc k"] exI [of _ t]) auto
  qed
qed

section \<open>The log a directory holds\<close>

text \<open>
  \<open>wal_holds w L\<close>: the directory of \<open>w\<close> is the list \<open>L\<close> of segments with their payloads, in
  increasing order of segment number, the current segment last. \<open>wal_log L\<close> is the log that
  replay hands to its callback.
\<close>

type_synonym wal_segments = "(nat \<times> bytes list) list"

definition enc_dir :: "wal_segments \<Rightarrow> wal_dir" where
  "enc_dir L = map (\<lambda>(seg, ps). (seg, wal_bytes ps)) L"

definition wal_log :: "wal_segments \<Rightarrow> (nat \<times> bytes) list" where
  "wal_log L = concat (map (\<lambda>(seg, ps). map (Pair seg) ps) L)"

definition wf_segments :: "wal_segments \<Rightarrow> bool" where
  "wf_segments L \<longleftrightarrow> sorted_wrt (<) (map fst L) \<and> list_all (\<lambda>(seg, ps). list_all wf_payload ps) L"

definition wal_holds :: "WAL \<Rightarrow> wal_segments \<Rightarrow> bool" where
  "wal_holds w L \<longleftrightarrow> w_dir w = enc_dir L \<and> wf_segments L \<and> L \<noteq> [] \<and> fst (last L) = w_seg w"

definition wal_ok :: "WAL \<Rightarrow> bool" where
  "wal_ok w \<longleftrightarrow> \<not> w_closed w \<and> \<not> w_appendErr w \<and> \<not> w_syncErr w \<and> \<not> w_fileClosed w"

fun replay_log :: "(nat \<Rightarrow> bytes \<Rightarrow> 's \<Rightarrow> 'e + 's) \<Rightarrow> (nat \<times> bytes) list \<Rightarrow> 's \<Rightarrow> 'e + 's" where
  "replay_log replay [] s = Inr s"
| "replay_log replay ((seg, p) # xs) s =
     (case replay seg p s of Inl e \<Rightarrow> Inl e | Inr s' \<Rightarrow> replay_log replay xs s')"

lemma replay_log_append:
  "replay_log replay (xs @ ys) s =
     (case replay_log replay xs s of Inl e \<Rightarrow> Inl e | Inr s' \<Rightarrow> replay_log replay ys s')"
  by (induction replay xs s rule: replay_log.induct) (auto split: sum.splits)

lemma replay_log_segment: "replay_log replay (map (Pair seg) ps) s = replay_payloads (replay seg) ps s"
  by (induction ps arbitrary: s) (auto split: sum.splits)

lemma replaySegment_bytes:
  assumes "list_all wf_payload ps" and "t = [] \<or> torn t" and "t \<noteq> [] \<longrightarrow> lst"
  shows "replaySegment os_ok replay seg lst (wal_bytes ps @ t) s =
    (case replay_payloads (replay seg) ps s of
       Inl e \<Rightarrow> Inl (ErrReplay e) | Inr s' \<Rightarrow> Inr (s', wal_bytes ps))"
  using replay_loop_records [OF assms(1,2), of "replay seg" lst "[]" s] assms(3)
  by (auto simp: replaySegment_def truncateTorn_def split: sum.splits)

lemma enc_dir_simps [simp]:
  "enc_dir [] = []" "enc_dir (x # L) = (fst x, wal_bytes (snd x)) # enc_dir L"
  "enc_dir (L @ M) = enc_dir L @ enc_dir M" "map fst (enc_dir L) = map fst L"
  "length (enc_dir L) = length L"
  by (auto simp: enc_dir_def split: prod.splits)

lemma dom_enc_dir [simp]: "fst ` set (enc_dir L) = fst ` set L"
  by (metis enc_dir_simps(4) set_map)

lemma dir_file_mid: "seg \<notin> fst ` set P \<Longrightarrow> dir_file (P @ (seg, f) # Q) seg = f"
  by (simp add: dir_file_def map_add_def map_of_eq_None_iff [THEN iffD2])

lemma dir_write_absent: "seg \<notin> fst ` set P \<Longrightarrow> dir_write P seg f = P"
  by (induction P) (auto simp: dir_write_def)

lemma dir_write_mid:
  "seg \<notin> fst ` set P \<Longrightarrow> seg \<notin> fst ` set Q \<Longrightarrow> dir_write (P @ (seg, g) # Q) seg f = P @ (seg, f) # Q"
  using dir_write_absent [of seg P f] dir_write_absent [of seg Q f]
  by (simp add: dir_write_def)

lemma wal_log_simps [simp]:
  "wal_log [] = []" "wal_log ((seg, ps) # L) = map (Pair seg) ps @ wal_log L"
  "wal_log (L @ M) = wal_log L @ wal_log M"
  by (auto simp: wal_log_def)

lemma replay_all_segments:
  assumes "wf_segments (P @ L @ [(seg, ps)])" and "t = [] \<or> torn t"
  shows "replay_all os_ok replay (map fst L @ [seg]) (enc_dir (P @ L) @ [(seg, wal_bytes ps @ t)]) s =
    (case replay_log replay (wal_log (L @ [(seg, ps)])) s of
       Inl e \<Rightarrow> Inl (ErrReplay e) | Inr s' \<Rightarrow> Inr (s', enc_dir (P @ L @ [(seg, ps)])))"
  using assms
proof (induction L arbitrary: P s)
  case Nil
  have nin: "seg \<notin> fst ` set (enc_dir P)"
    using Nil.prems by (auto simp: wf_segments_def sorted_wrt_append)
  have "list_all wf_payload ps" using Nil.prems by (simp add: wf_segments_def)
  then show ?case
    using Nil.prems(2) nin replaySegment_bytes [of ps t True replay seg s]
    by (auto simp: dir_file_mid dir_write_mid [where Q = "[]", simplified] replay_log_segment split: sum.splits)
next
  case (Cons x L)
  obtain a qs where x: "x = (a, qs)" by (cases x)
  have nin: "a \<notin> fst ` set (enc_dir P)" "a \<notin> fst ` set (enc_dir L @ [(seg, wal_bytes ps @ t)])"
    using Cons.prems(1) by (auto simp: x wf_segments_def sorted_wrt_append)
  have qs: "list_all wf_payload qs" using Cons.prems(1) by (simp add: x wf_segments_def)
  have IH: "replay_all os_ok replay (map fst L @ [seg]) (enc_dir P @ (a, wal_bytes qs) # enc_dir L @ [(seg, wal_bytes ps @ t)]) s' =
    (case replay_log replay (wal_log (L @ [(seg, ps)])) s' of
       Inl e \<Rightarrow> Inl (ErrReplay e) | Inr s'' \<Rightarrow> Inr (s'', enc_dir (P @ (x # L) @ [(seg, ps)])))" for s'
    using Cons.IH [of "P @ [x]" s'] Cons.prems by (simp add: x split: sum.splits)
  show ?case
    using nin IH replaySegment_bytes [OF qs, of "[]" False replay a s]
    by (auto simp: x dir_file_mid dir_write_mid replay_log_append replay_log_segment split: sum.splits)
qed

lemma listSegments_sorted: "sorted_wrt (<) (map fst d) \<Longrightarrow> listSegments d = map fst d"
  unfolding listSegments_def by (rule sorted_sort_id) (simp add: strict_sorted_iff)

lemma OpenWAL_segments:
  assumes "wf_segments (L @ [(seg, ps)])" and "t = [] \<or> torn t"
  shows "OpenWAL (enc_dir L @ [(seg, wal_bytes ps @ t)]) sz sync replay s os_ok =
    (case replay_log replay (wal_log (L @ [(seg, ps)])) s of
       Inl e \<Rightarrow> Inl (ErrReplay e)
     | Inr s' \<Rightarrow> Inr (s', \<lparr>w_dir = enc_dir (L @ [(seg, ps), (seg + 1, [])]),
         w_segmentSize = (if sz = 0 then 67108864 else sz), w_syncAlways = sync, w_seg = seg + 1,
         w_size = 0, w_dirty = False, w_closed = False, w_appendErr = False, w_syncErr = False, w_fileClosed = False\<rparr>))"
proof -
  have sorted: "sorted_wrt (<) (map fst (enc_dir L @ [(seg, wal_bytes ps @ t)]))"
    using assms(1) by (simp add: wf_segments_def)
  have fresh: "Suc seg \<notin> fst ` set L"
    using assms(1) by (fastforce simp: wf_segments_def sorted_wrt_append)
  show ?thesis
    using assms replay_all_segments [of "[]" L seg ps t replay s] fresh listSegments_sorted [OF sorted]
    by (auto simp: OpenWAL_def Let_def openSegment_def os_ok_def wal_bytes_def split: sum.splits)
qed

section \<open>Operations on the log\<close>

text \<open>What the next open would hand to its callback.\<close>

definition wal_content :: "WAL \<Rightarrow> (nat \<times> bytes) list" where
  "wal_content w =
     (case replay_all os_ok (\<lambda>seg p acc. Inr (acc @ [(seg, p)]) :: unit + (nat \<times> bytes) list)
             (listSegments (w_dir w)) (w_dir w) [] of
        Inl e \<Rightarrow> [] | Inr (acc, d) \<Rightarrow> acc)"

definition wal_inv :: "WAL \<Rightarrow> bool" where
  "wal_inv w \<longleftrightarrow> wal_ok w \<and> (\<exists>L. wal_holds w L)"

lemma replay_log_collect:
  "replay_log (\<lambda>seg p acc. Inr (acc @ [(seg, p)]) :: 'e + (nat \<times> bytes) list) xs acc = Inr (acc @ xs)"
  by (induction xs arbitrary: acc) auto

lemma replay_payloads_collect:
  "replay_payloads (\<lambda>p acc. Inr (acc @ [(seg, p)]) :: 'e + (nat \<times> bytes) list) ps acc = Inr (acc @ map (Pair seg) ps)"
  by (induction ps arbitrary: acc) auto

lemma torn_nonempty: "torn t \<Longrightarrow> t \<noteq> []"
  by (simp add: torn_def)

lemma wal_holds_last:
  assumes "wal_holds w L"
  obtains M ps where "L = M @ [(w_seg w, ps)]" "w_dir w = enc_dir M @ [(w_seg w, wal_bytes ps)]"
    "wf_segments L" "w_seg w \<notin> fst ` set M"
proof -
  from assms have "L \<noteq> []" by (simp add: wal_holds_def)
  then obtain M a ps where L: "L = M @ [(a, ps)]" by (metis rev_exhaust surj_pair)
  with assms have a: "a = w_seg w" by (simp add: wal_holds_def)
  show thesis
    by (rule that [of M ps]) (use assms L a in \<open>auto simp: wal_holds_def wf_segments_def sorted_wrt_append\<close>)
qed

lemma wal_content_holds: "wal_holds w L \<Longrightarrow> wal_content w = wal_log L"
proof -
  assume h: "wal_holds w L"
  then obtain M ps where L: "L = M @ [(w_seg w, ps)]" "w_dir w = enc_dir M @ [(w_seg w, wal_bytes ps)]" "wf_segments L"
    by (rule wal_holds_last)
  have "listSegments (w_dir w) = map fst M @ [w_seg w]"
    using listSegments_sorted [of "w_dir w"] L by (simp add: wf_segments_def)
  then show ?thesis
    using L replay_all_segments [of "[]" M "w_seg w" ps "[]"
      "\<lambda>seg p acc. Inr (acc @ [(seg, p)]) :: unit + (nat \<times> bytes) list" "[]"]
    by (simp add: wal_content_def replay_log_collect)
qed

lemma syncLocked_ok: "wal_ok w \<Longrightarrow> syncLocked w os_ok = (None, w\<lparr>w_dirty := False\<rparr>)"
  by (simp add: syncLocked_def wal_ok_def os_ok_def)

lemma openSegment_holds:
  assumes "wal_holds w L"
  shows "openSegment w (w_seg w + 1) os_ok = (None, w\<lparr>w_dir := w_dir w @ [(w_seg w + 1, [])], w_seg := w_seg w + 1, w_size := 0, w_fileClosed := False\<rparr>)"
    and "wal_holds (w\<lparr>w_dir := w_dir w @ [(w_seg w + 1, [])], w_seg := w_seg w + 1, w_size := 0, w_fileClosed := False\<rparr>) (L @ [(w_seg w + 1, [])])"
proof -
  from assms obtain M ps where L: "L = M @ [(w_seg w, ps)]" "w_dir w = enc_dir M @ [(w_seg w, wal_bytes ps)]" "wf_segments L"
    by (rule wal_holds_last)
  have lt: "\<forall>x \<in> fst ` set M. x < w_seg w" using L by (auto simp: wf_segments_def sorted_wrt_append)
  then show "openSegment w (w_seg w + 1) os_ok = (None, w\<lparr>w_dir := w_dir w @ [(w_seg w + 1, [])], w_seg := w_seg w + 1, w_size := 0, w_fileClosed := False\<rparr>)"
    using L by (auto simp: openSegment_def os_ok_def)
  show "wal_holds (w\<lparr>w_dir := w_dir w @ [(w_seg w + 1, [])], w_seg := w_seg w + 1, w_size := 0, w_fileClosed := False\<rparr>) (L @ [(w_seg w + 1, [])])"
    using L lt by (auto simp: wal_holds_def wf_segments_def sorted_wrt_append wal_bytes_def)
qed

lemma rotateLocked_ok:
  assumes "wal_holds w L" and "wal_ok w"
  shows "\<exists>w'. rotateLocked w os_ok = (None, w') \<and> wal_ok w' \<and> w_seg w' = w_seg w + 1
    \<and> w_syncAlways w' = w_syncAlways w \<and> wal_holds w' (L @ [(w_seg w + 1, [])])"
proof -
  define v where "v = w\<lparr>w_dirty := False, w_fileClosed := True\<rparr>"
  have v: "wal_holds v L" "w_seg v = w_seg w" "w_syncAlways v = w_syncAlways w"
    using assms by (simp_all add: v_def wal_holds_def)
  have "rotateLocked w os_ok = openSegment v (w_seg v + 1) os_ok"
    using assms(2) by (simp add: rotateLocked_def syncLocked_ok v_def) (simp add: wal_ok_def)
  then show ?thesis
    using assms(2) v(2,3) openSegment_holds [OF v(1)] by (simp add: wal_ok_def v_def)
qed

lemma WAL_write_ok:
  assumes "wal_holds w (M @ [(w_seg w, qs)])" and "wal_ok w" and "list_all wf_payload ps"
  shows "\<exists>w'. WAL_write w (concat (map wal_record ps)) os_ok = (None, w') \<and> wal_ok w' \<and> w_seg w' = w_seg w
    \<and> w_syncAlways w' = w_syncAlways w \<and> wal_holds w' (M @ [(w_seg w, qs @ ps)])"
proof -
  have d: "w_dir w = enc_dir M @ [(w_seg w, wal_bytes qs)]" and n: "w_seg w \<notin> fst ` set (enc_dir M)"
    using assms(1) by (auto simp: wal_holds_def wf_segments_def sorted_wrt_append)
  show ?thesis
    using assms n dir_write_mid [OF n, of "[]"]
    by (auto simp: WAL_write_def os_ok_def d dir_file_mid wal_ok_def wal_holds_def wf_segments_def
        sorted_wrt_append wal_bytes_def)
qed

lemma WAL_Append_ok:
  assumes h: "wal_holds w L" and ok: "wal_ok w" and ps: "list_all wf_payload ps"
  shows "\<exists>w' L'. WAL_Append w ps os_ok = (Inr (w_seg w'), w') \<and> wal_ok w' \<and> wal_holds w' L'
    \<and> w_seg w \<le> w_seg w' \<and> wal_log L' = wal_log L @ map (Pair (w_seg w')) ps
    \<and> (w_syncAlways w \<longrightarrow> \<not> w_dirty w')"
proof -
  have "\<exists>v K. (if w_size w \<ge> w_segmentSize w then rotateLocked w os_ok else (None, w)) = (None, v)
    \<and> wal_ok v \<and> wal_holds v K \<and> w_seg w \<le> w_seg v \<and> wal_log K = wal_log L \<and> w_syncAlways v = w_syncAlways w"
  proof (cases "w_size w \<ge> w_segmentSize w")
    case True
    obtain w' where "rotateLocked w os_ok = (None, w')" "wal_ok w'" "w_seg w' = w_seg w + 1"
      "w_syncAlways w' = w_syncAlways w" "wal_holds w' (L @ [(w_seg w + 1, [])])"
      using rotateLocked_ok [OF h ok] by blast
    with True show ?thesis by (intro exI [of _ w'] exI [of _ "L @ [(w_seg w + 1, [])]"]) simp
  next
    case False
    with h ok show ?thesis by auto
  qed
  then obtain v K where v: "(if w_size w \<ge> w_segmentSize w then rotateLocked w os_ok else (None, w)) = (None, v)"
      "wal_ok v" "wal_holds v K" "w_seg w \<le> w_seg v" "wal_log K = wal_log L" "w_syncAlways v = w_syncAlways w" by blast
  obtain M qs where K: "K = M @ [(w_seg v, qs)]" using v(3) by (rule wal_holds_last)
  obtain u where u: "WAL_write v (concat (map wal_record ps)) os_ok = (None, u)" "wal_ok u" "w_seg u = w_seg v"
      "w_syncAlways u = w_syncAlways v" "wal_holds u (M @ [(w_seg v, qs @ ps)])"
    using WAL_write_ok [of v M qs ps] v K ps by blast
  have ne: "[] \<notin> set ps" using ps by (auto simp: list_all_iff wf_payload_def)
  let ?u = "if w_syncAlways w then u\<lparr>w_dirty := False\<rparr> else u"
  have "WAL_Append w ps os_ok = (Inr (w_seg ?u), ?u)"
    using ne ok u v(1,6)
    by (auto simp: WAL_Append_def wal_ok_def Let_def syncLocked_def os_ok_def split: if_splits)
  moreover have "wal_ok ?u" "wal_holds ?u (M @ [(w_seg v, qs @ ps)])"
    using u by (auto simp: wal_ok_def wal_holds_def)
  moreover have "wal_log (M @ [(w_seg v, qs @ ps)]) = wal_log L @ map (Pair (w_seg v)) ps"
    using v(5) K by simp
  ultimately show ?thesis using u(3) v(4) by (intro exI [of _ ?u] exI) auto
qed

section \<open>The log interface\<close>

text \<open>
  What the engine and the Raft log rely on: an append adds its payloads at the end, all in
  one segment, a rotation only changes the current segment, and discarding old segments
  keeps everything in the newer ones.
\<close>

locale record_log =
  fixes append :: "'w \<Rightarrow> bytes list \<Rightarrow> 'w" and rotate :: "'w \<Rightarrow> 'w" and discard :: "'w \<Rightarrow> nat \<Rightarrow> 'w"
    and current :: "'w \<Rightarrow> nat" and content :: "'w \<Rightarrow> (nat \<times> bytes) list" and inv :: "'w \<Rightarrow> bool"
  assumes inv_append: "inv w \<Longrightarrow> list_all wf_payload ps \<Longrightarrow> inv (append w ps)"
    and content_append: "inv w \<Longrightarrow> list_all wf_payload ps \<Longrightarrow>
      content (append w ps) = content w @ map (Pair (current (append w ps))) ps"
    and current_append: "inv w \<Longrightarrow> list_all wf_payload ps \<Longrightarrow> current w \<le> current (append w ps)"
    and inv_rotate: "inv w \<Longrightarrow> inv (rotate w)"
    and content_rotate: "inv w \<Longrightarrow> content (rotate w) = content w"
    and current_rotate: "inv w \<Longrightarrow> current (rotate w) = current w + 1"
    and content_bound: "inv w \<Longrightarrow> (seg, p) \<in> set (content w) \<Longrightarrow> seg \<le> current w"
    and inv_discard: "inv w \<Longrightarrow> seg \<le> current w \<Longrightarrow> inv (discard w seg)"
    and current_discard: "inv w \<Longrightarrow> seg \<le> current w \<Longrightarrow> current (discard w seg) = current w"
    and content_discard: "inv w \<Longrightarrow> seg \<le> current w \<Longrightarrow>
      content (discard w seg) = filter (\<lambda>(s, p). seg \<le> s) (content w)"
begin

lemma appends:
  "inv w \<Longrightarrow> list_all (list_all wf_payload) pss \<Longrightarrow>
   inv (foldl append w pss) \<and> map snd (content (foldl append w pss)) = map snd (content w) @ concat pss"
proof (induction pss arbitrary: w)
  case Nil
  then show ?case by simp
next
  case (Cons ps pss)
  have i: "inv (append w ps)" using Cons.prems by (intro inv_append) auto
  have "map snd (content (append w ps)) = map snd (content w) @ ps"
    using Cons.prems by (simp add: content_append comp_def)
  with Cons.IH [OF i] Cons.prems show ?case by simp
qed

text \<open>
  The checkpoint idiom of both clients: rotate, append to the fresh segment, drop the old
  segments. Exactly what was appended after the rotation remains.
\<close>

lemma checkpoint:
  assumes "inv w" and "list_all wf_payload ps"
  shows "content (discard (append (rotate w) ps) (current (rotate w))) =
    map (Pair (current (append (rotate w) ps))) ps"
proof -
  let ?r = "rotate w" let ?a = "append ?r ps"
  have r: "inv ?r" "current ?r = current w + 1" using assms by (simp_all add: inv_rotate current_rotate)
  have a: "inv ?a" "current ?r \<le> current ?a" "content ?a = content w @ map (Pair (current ?a)) ps"
    using assms r current_append [OF r(1) assms(2)] by (simp_all add: inv_append content_append content_rotate)
  have "filter (\<lambda>(s, p). current ?r \<le> s) (content w) = []"
    using content_bound [OF assms(1)] r(2) by (fastforce simp: filter_empty_conv)
  moreover have "filter (\<lambda>(s, p). current ?r \<le> s) (map (Pair (current ?a)) ps) = map (Pair (current ?a)) ps"
    using a(2) by (auto simp: filter_id_conv)
  ultimately show ?thesis using a content_discard [OF a(1,2)] by simp
qed

end

definition wal_append :: "WAL \<Rightarrow> bytes list \<Rightarrow> WAL" where
  "wal_append w ps = snd (WAL_Append w ps os_ok)"

definition wal_rotate :: "WAL \<Rightarrow> WAL" where
  "wal_rotate w = snd (WAL_Rotate w os_ok)"

definition wal_discard :: "WAL \<Rightarrow> nat \<Rightarrow> WAL" where
  "wal_discard w seg = w\<lparr>w_dir := filter (\<lambda>(s, f). \<not> s < seg) (w_dir w)\<rparr>"

lemma wal_append_holds:
  assumes "wal_holds w L" and "wal_ok w" and "list_all wf_payload ps"
  shows "\<exists>L'. wal_ok (wal_append w ps) \<and> wal_holds (wal_append w ps) L' \<and> w_seg w \<le> w_seg (wal_append w ps)
    \<and> wal_log L' = wal_log L @ map (Pair (w_seg (wal_append w ps))) ps"
  using WAL_Append_ok [OF assms] by (auto simp: wal_append_def)

lemma wal_rotate_holds:
  assumes "wal_holds w L" and "wal_ok w"
  shows "wal_ok (wal_rotate w) \<and> wal_holds (wal_rotate w) (L @ [(w_seg w + 1, [])]) \<and> w_seg (wal_rotate w) = w_seg w + 1"
  using rotateLocked_ok [OF assms] by (auto simp: wal_rotate_def WAL_Rotate_def)

lemma wal_log_bound: "wal_holds w L \<Longrightarrow> (seg, p) \<in> set (wal_log L) \<Longrightarrow> seg \<le> w_seg w"
  by (erule wal_holds_last) (auto simp: wal_log_def wf_segments_def sorted_wrt_append split: prod.splits)

lemma filter_wal_log: "wal_log (filter (\<lambda>(s, ps). seg \<le> s) L) = filter (\<lambda>(s, p). seg \<le> s) (wal_log L)"
  by (induction L) (auto simp: wal_log_def filter_map comp_def filter_id_conv filter_empty_conv)

lemma wal_discard_holds:
  assumes "wal_holds w L" and "seg \<le> w_seg w"
  shows "wal_holds (wal_discard w seg) (filter (\<lambda>(s, ps). seg \<le> s) L)"
proof -
  from assms(1) obtain M ps where L: "L = M @ [(w_seg w, ps)]" "w_dir w = enc_dir M @ [(w_seg w, wal_bytes ps)]" "wf_segments L"
    by (rule wal_holds_last)
  have "filter (\<lambda>(s, f). \<not> s < seg) (enc_dir L) = enc_dir (filter (\<lambda>(s, ps). seg \<le> s) L)"
    by (auto simp: enc_dir_def filter_map comp_def not_less split_def)
  moreover have "wf_segments (filter (\<lambda>(s, ps). seg \<le> s) L)"
    using L(3) by (auto simp: wf_segments_def list_all_iff sorted_wrt_map intro: sorted_wrt_filter)
  ultimately show ?thesis
    using assms L by (auto simp: wal_holds_def wal_discard_def)
qed

text \<open>
  Whatever fails, \<open>DeleteBefore\<close> leaves the directory without the segments below some number, which is the one it was given
  when nothing failed.
\<close>

lemma sorted_takeWhile_less: "sorted (xs :: nat list) \<Longrightarrow> set (takeWhile (\<lambda>s. s < k) xs) = {s \<in> set xs. s < k}"
  by (induction xs) auto

lemma filter_fst_cong: "(\<And>s. s \<in> fst ` set d \<Longrightarrow> P s = Q s) \<Longrightarrow> filter (\<lambda>(s, f). P s) d = filter (\<lambda>(s, f). Q s) d"
  by (rule filter_cong) force+

lemma DeleteBefore_fields:
  "w_seg (snd (WAL_DeleteBefore w seg os)) = w_seg w" "\<exists>d. snd (WAL_DeleteBefore w seg os) = w\<lparr>w_dir := d\<rparr>"
proof -
  show ex: "\<exists>d. snd (WAL_DeleteBefore w seg os) = w\<lparr>w_dir := d\<rparr>"
    by (cases "os_delete os") (auto simp: WAL_DeleteBefore_def Let_def intro: exI [of _ "w_dir w"])
  then show "w_seg (snd (WAL_DeleteBefore w seg os)) = w_seg w" by auto
qed

lemma DeleteBefore_ok: "os_delete os = DelOk \<Longrightarrow> WAL_DeleteBefore w seg os = (None, wal_discard w seg)"
proof -
  assume "os_delete os = DelOk"
  moreover have "set (takeWhile (\<lambda>s. s < seg) (listSegments (w_dir w))) = {s \<in> fst ` set (w_dir w). s < seg}"
    by (subst sorted_takeWhile_less) (simp_all add: listSegments_def)
  then have "filter (\<lambda>(s, f). s \<notin> set (takeWhile (\<lambda>s. s < seg) (listSegments (w_dir w)))) (w_dir w) = filter (\<lambda>(s, f). \<not> s < seg) (w_dir w)"
    by (intro filter_fst_cong) simp
  ultimately show ?thesis by (simp add: WAL_DeleteBefore_def Let_def wal_discard_def)
qed

lemma DeleteBefore_discards:
  assumes "sorted_wrt (<) (map fst (w_dir w))"
  obtains k where "k \<le> seg" and "snd (WAL_DeleteBefore w seg os) = wal_discard w k"
proof -
  define old where "old = takeWhile (\<lambda>s. s < seg) (listSegments (w_dir w))"
  have ls: "listSegments (w_dir w) = map fst (w_dir w)" using assms by (rule listSegments_sorted)
  have old: "sorted_wrt (<) old" "set old = {s \<in> fst ` set (w_dir w). s < seg}"
    using assms sorted_takeWhile_less [of "map fst (w_dir w)" seg]
    by (auto simp: old_def ls strict_sorted_iff intro: sorted_wrt_takeWhile distinct_takeWhile sorted_takeWhile)
  show thesis
  proof (cases "\<exists>n. os_delete os = DelRemove n \<and> n < length old")
    case True
    then obtain n where n: "os_delete os = DelRemove n" "n < length old" by blast
    have split: "old = take n old @ old ! n # drop (Suc n) old" using n(2) by (rule id_take_nth_drop)
    have "s \<in> set (take n old) \<longleftrightarrow> s \<in> set old \<and> s < old ! n" for s
      using old(1) by (subst (asm) split, subst (2) split) (auto simp: sorted_wrt_append)
    then have "filter (\<lambda>(s, f). s \<notin> set (take n old)) (w_dir w) = filter (\<lambda>(s, f). \<not> s < old ! n) (w_dir w)"
      using nth_mem [OF n(2)] old(2) by (intro filter_fst_cong) auto
    then have "snd (WAL_DeleteBefore w seg os) = wal_discard w (old ! n)"
      using n by (simp add: WAL_DeleteBefore_def Let_def wal_discard_def old_def [symmetric])
    moreover have "old ! n \<le> seg" using nth_mem [OF n(2)] old(2) by auto
    ultimately show ?thesis by (intro that)
  next
    case False
    then consider "os_delete os = DelList" | "os_delete os = DelOk" | n where "os_delete os = DelRemove n" "length old \<le> n"
      by (cases "os_delete os") auto
    then show ?thesis
    proof cases
      case 1
      then show ?thesis using that [of 0] by (simp add: WAL_DeleteBefore_def Let_def wal_discard_def)
    next
      case 2
      then show ?thesis using that [of seg] DeleteBefore_ok [of os w seg] by simp
    next
      case 3
      then have "snd (WAL_DeleteBefore w seg os) = snd (WAL_DeleteBefore w seg os_ok)"
        by (simp add: WAL_DeleteBefore_def Let_def old_def [symmetric])
      then show ?thesis using that [of seg] DeleteBefore_ok [of os_ok w seg] by simp
    qed
  qed
qed

interpretation wl: record_log wal_append wal_rotate wal_discard w_seg wal_content wal_inv
proof
  fix w :: WAL and ps :: "bytes list" and seg :: nat and p :: bytes
  assume inv: "wal_inv w"
  then obtain L where L: "wal_holds w L" "wal_ok w" by (auto simp: wal_inv_def)
  note c = wal_content_holds [OF L(1)]
  show "wal_inv (wal_rotate w)" using wal_rotate_holds [OF L] by (auto simp: wal_inv_def)
  show "wal_content (wal_rotate w) = wal_content w"
    using wal_rotate_holds [OF L] c by (auto dest: wal_content_holds)
  show "w_seg (wal_rotate w) = w_seg w + 1" using wal_rotate_holds [OF L] by simp
  show "(seg, p) \<in> set (wal_content w) \<Longrightarrow> seg \<le> w_seg w" using wal_log_bound [OF L(1)] c by simp
  show "wal_inv (wal_append w ps)" if "list_all wf_payload ps"
    using wal_append_holds [OF L that] by (auto simp: wal_inv_def)
  show "wal_content (wal_append w ps) = wal_content w @ map (Pair (w_seg (wal_append w ps))) ps" if "list_all wf_payload ps"
    using wal_append_holds [OF L that] c by (auto dest: wal_content_holds)
  show "w_seg w \<le> w_seg (wal_append w ps)" if "list_all wf_payload ps"
    using wal_append_holds [OF L that] by auto
  show "wal_inv (wal_discard w seg)" if "seg \<le> w_seg w"
    using wal_discard_holds [OF L(1) that] L(2) by (auto simp: wal_inv_def wal_ok_def wal_discard_def)
  show "w_seg (wal_discard w seg) = w_seg w" by (simp add: wal_discard_def)
  show "wal_content (wal_discard w seg) = filter (\<lambda>(s, p). seg \<le> s) (wal_content w)" if "seg \<le> w_seg w"
    using wal_content_holds [OF wal_discard_holds [OF L(1) that]] c by (simp add: filter_wal_log)
qed

section \<open>Properties\<close>

text \<open>A fresh directory with one segment, the state after the first open.\<close>

definition fresh_wal :: "nat \<Rightarrow> bool \<Rightarrow> WAL" where
  "fresh_wal sz sync = \<lparr>w_dir = [(1, [])], w_segmentSize = sz, w_syncAlways = sync, w_seg = 1, w_size = 0,
     w_dirty = False, w_closed = False, w_appendErr = False, w_syncErr = False, w_fileClosed = False\<rparr>"

lemma fresh_wal_inv: "wal_inv (fresh_wal sz sync)"
  unfolding wal_inv_def wal_holds_def
  by (rule conjI, simp add: fresh_wal_def wal_ok_def, rule exI [of _ "[(1, [])]"])
    (simp add: fresh_wal_def wf_segments_def wal_bytes_def)

text \<open>
  C20: nothing acknowledged is lost. After any sequence of successful appends, with the segment
  rotations they cause, reopening the directory hands the replay callback everything that was
  in the log before followed by every appended payload, in order.
\<close>

theorem wal_reopen_replays_appends:
  assumes "wal_inv w" and "list_all (list_all wf_payload) pss"
  shows "\<exists>w'. OpenWAL (w_dir (foldl wal_append w pss)) sz sync (\<lambda>seg p acc. Inr (acc @ [p])) [] os_ok
    = (Inr (map snd (wal_content w) @ concat pss, w') :: unit open_error + bytes list \<times> WAL)"
proof -
  let ?v = "foldl wal_append w pss"
  have v: "wal_inv ?v" "map snd (wal_content ?v) = map snd (wal_content w) @ concat pss"
    using wl.appends [OF assms] by simp_all
  then obtain L where L: "wal_holds ?v L" by (auto simp: wal_inv_def)
  obtain M ps where M: "L = M @ [(w_seg ?v, ps)]" "w_dir ?v = enc_dir M @ [(w_seg ?v, wal_bytes ps)]" "wf_segments L"
    using L by (rule wal_holds_last)
  have collect: "replay_log (\<lambda>seg p acc. Inr (acc @ [p]) :: unit + bytes list) xs acc = Inr (acc @ map snd xs)" for xs acc
    by (induction xs arbitrary: acc) auto
  show ?thesis
    using OpenWAL_segments [of M "w_seg ?v" ps "[]" sz sync "\<lambda>seg p acc. Inr (acc @ [p]) :: unit + bytes list" "[]"]
      M v(2) wal_content_holds [OF L] collect by simp
qed

theorem wal_reopen_replays_appends_witness:
  "\<exists>w'. OpenWAL (w_dir (foldl wal_append (fresh_wal 20 True) [[[7], [8, 9]], [[10]]])) 20 True
      (\<lambda>seg p acc. Inr (acc @ [p])) [] os_ok
    = (Inr (map snd (wal_content (fresh_wal 20 True)) @ concat [[[7], [8, 9]], [[10]]], w')
       :: unit open_error + bytes list \<times> WAL)"
  by (rule wal_reopen_replays_appends [OF fresh_wal_inv]) (simp add: wf_payload_def)

text \<open>
  C21: a crash that leaves the newest segment cut at an arbitrary byte \<open>n\<close> loses only a tail of
  whole records: the open succeeds, replays the older segments and a prefix of the newest one,
  truncates the file to that prefix, and the prefix includes every record that lies within
  the first \<open>n\<close> bytes.
\<close>

theorem wal_torn_tail_truncated:
  assumes "wf_segments (L @ [(seg, ps)])"
  shows "\<exists>k w'. OpenWAL (enc_dir L @ [(seg, take n (wal_bytes ps))]) sz sync (\<lambda>seg p acc. Inr (acc @ [(seg, p)])) [] os_ok
      = (Inr (wal_log (L @ [(seg, take k ps)]), w') :: unit open_error + (nat \<times> bytes) list \<times> WAL)
    \<and> w_dir w' = enc_dir (L @ [(seg, take k ps), (seg + 1, [])])
    \<and> (\<forall>j \<le> length ps. length (wal_bytes (take j ps)) \<le> n \<longrightarrow> j \<le> k)"
proof -
  have ps: "list_all wf_payload ps" using assms by (simp add: wf_segments_def)
  obtain k t where k: "take n (wal_bytes ps) = wal_bytes (take k ps) @ t" "k \<le> length ps" "t = [] \<or> torn t"
      "k = length ps \<or> n < length (wal_bytes (take (Suc k) ps))"
    using take_wal_bytes [OF ps, of n] by blast
  have wf: "wf_segments (L @ [(seg, take k ps)])"
    using assms by (auto simp: wf_segments_def list_all_iff dest: in_set_takeD)
  have mono: "length (wal_bytes (take i ps)) \<le> length (wal_bytes (take j ps))" if "i \<le> j" for i j
  proof -
    have "take j ps = take i ps @ take (j - i) (drop i ps)"
      using that by (metis le_add_diff_inverse take_add)
    then show ?thesis by (simp add: wal_bytes_def)
  qed
  have "j \<le> k" if "j \<le> length ps" "length (wal_bytes (take j ps)) \<le> n" for j
  proof (rule ccontr)
    assume "\<not> j \<le> k"
    with that k(4) mono [of "Suc k" j] show False by auto
  qed
  then show ?thesis
    using OpenWAL_segments [OF wf k(3), of sz sync "\<lambda>seg p acc. Inr (acc @ [(seg, p)]) :: unit + (nat \<times> bytes) list" "[]"]
      k(1) by (auto simp: replay_log_collect)
qed

theorem wal_torn_tail_truncated_witness:
  "\<exists>k w'. OpenWAL (enc_dir [(1, [[5]])] @ [(2, take 14 (wal_bytes [[6], [7, 8]]))]) 64 True
        (\<lambda>seg p acc. Inr (acc @ [(seg, p)])) [] os_ok
      = (Inr (wal_log ([(1, [[5]])] @ [(2, take k [[6], [7, 8]])]), w') :: unit open_error + (nat \<times> bytes) list \<times> WAL)
    \<and> w_dir w' = enc_dir ([(1, [[5]])] @ [(2, take k [[6], [7, 8]]), (2 + 1, [])])
    \<and> (\<forall>j \<le> length [[6 :: u8], [7, 8]]. length (wal_bytes (take j [[6], [7, 8]])) \<le> 14 \<longrightarrow> j \<le> k)"
  by (rule wal_torn_tail_truncated) (simp add: wf_segments_def wf_payload_def)

lemma replay_all_prefix:
  assumes "wf_segments (P @ L)" and "segs \<noteq> []" and "fst ` set D \<inter> fst ` set (P @ L) = {}"
  shows "replay_all os_ok replay (map fst L @ segs) (enc_dir (P @ L) @ D) s =
    (case replay_log replay (wal_log L) s of
       Inl e \<Rightarrow> Inl (ErrReplay e) | Inr s' \<Rightarrow> replay_all os_ok replay segs (enc_dir (P @ L) @ D) s')"
  using assms
proof (induction L arbitrary: P s)
  case Nil
  then show ?case by simp
next
  case (Cons x L)
  obtain a qs where x: "x = (a, qs)" by (cases x)
  have "a \<notin> fst ` set L" "a \<notin> fst ` set D"
    using Cons.prems(1,3) by (auto simp: x wf_segments_def sorted_wrt_append)
  then have nin: "a \<notin> fst ` set (enc_dir L @ D)" by (simp add: image_Un)
  have ninP: "a \<notin> fst ` set (enc_dir P)"
    using Cons.prems(1) by (auto simp: x wf_segments_def sorted_wrt_append)
  have qs: "list_all wf_payload qs" using Cons.prems(1) by (simp add: x wf_segments_def)
  have IH: "replay_all os_ok replay (map fst L @ segs) (enc_dir P @ (a, wal_bytes qs) # enc_dir L @ D) s' =
    (case replay_log replay (wal_log L) s' of
       Inl e \<Rightarrow> Inl (ErrReplay e) | Inr s'' \<Rightarrow> replay_all os_ok replay segs (enc_dir (P @ x # L) @ D) s'')" for s'
    using Cons.IH [of "P @ [x]" s'] Cons.prems by (simp add: x split: sum.splits)
  show ?case
    using nin ninP IH replaySegment_bytes [OF qs, of "[]" False replay a s] Cons.prems(2)
    by (auto simp: x dir_file_mid dir_write_mid replay_log_append replay_log_segment split: sum.splits)
qed

text \<open>
  C22: damage in any segment but the newest refuses the open with \<open>ErrCorrupt\<close>, whatever the
  later segments hold; history is never silently dropped from the middle.
\<close>

theorem wal_older_damage_refused:
  assumes "wf_segments (L @ [(seg, ps)])" and "torn t" and "D \<noteq> []"
    and "sorted_wrt (<) (map fst L @ seg # map fst D)"
  shows "OpenWAL (enc_dir L @ (seg, wal_bytes ps @ t) # D) sz sync (\<lambda>seg p acc. Inr (acc @ [(seg, p)])) [] os_ok
    = (Inl (WalErr ErrCorrupt) :: unit open_error + (nat \<times> bytes) list \<times> WAL)"
proof -
  let ?cb = "\<lambda>seg p acc. Inr (acc @ [(seg, p)]) :: unit + (nat \<times> bytes) list"
  let ?d = "enc_dir L @ (seg, wal_bytes ps @ t) # D"
  have wf: "wf_segments L" "list_all wf_payload ps" using assms(1) by (auto simp: wf_segments_def sorted_wrt_append)
  have nin: "seg \<notin> fst ` set (enc_dir L)" using assms(4) by (auto simp: sorted_wrt_append)
  have "fst ` set ((seg, wal_bytes ps @ t) # D) \<inter> fst ` set ([] @ L) = {}"
    using assms(4) by (fastforce simp: sorted_wrt_append)
  then have "replay_all os_ok ?cb (map fst L @ seg # map fst D) ?d [] = replay_all os_ok ?cb (seg # map fst D) ?d (wal_log L)"
    using replay_all_prefix [of "[]" L "seg # map fst D" "(seg, wal_bytes ps @ t) # D" ?cb "[]"] wf
    by (simp add: replay_log_collect)
  moreover have "replay_all os_ok ?cb (seg # map fst D) ?d (wal_log L) = Inl (WalErr ErrCorrupt)"
    using replay_loop_records [OF wf(2), of t "?cb seg" False "[]" "wal_log L"] assms(2,3) nin
    by (simp add: replaySegment_def dir_file_mid truncateTorn_def torn_nonempty replay_payloads_collect)
  moreover have "listSegments ?d = map fst L @ seg # map fst D"
    using listSegments_sorted [of ?d] assms(4) by simp
  ultimately show ?thesis by (simp add: OpenWAL_def Let_def)
qed

theorem wal_older_damage_refused_witness:
  "OpenWAL (enc_dir [(1, [[5]])] @ (2, wal_bytes [[6]] @ [1, 2, 3]) # [(3, wal_bytes [[9]])]) 64 True
      (\<lambda>seg p acc. Inr (acc @ [(seg, p)])) [] os_ok
    = (Inl (WalErr ErrCorrupt) :: unit open_error + (nat \<times> bytes) list \<times> WAL)"
  by (rule wal_older_damage_refused) (simp_all add: wf_segments_def wf_payload_def torn_def recordHeader_def)

text \<open>
  C23: after a write into the current segment that failed part way, the log accepts nothing more: every later append and
  rotation returns an error and leaves the files alone, and the next open replays the log as it was before the failed
  append, followed by at most some leading records of that append. The append did not have to rotate first.
\<close>

theorem wal_failed_write_poisons:
  assumes "wal_holds w L" and "wal_ok w" and "list_all wf_payload ps"
    and "w_size w < w_segmentSize w" and "os_write os = Some n"
  shows "\<exists>w'. WAL_Append w ps os = (Inl ErrAppend, w')
    \<and> (\<forall>qs os'. (\<exists>e. WAL_Append w' qs os' = (Inl e, w')) \<and> WAL_Rotate w' os' = (Inl ErrAppend, w'))
    \<and> (\<exists>k w''. OpenWAL (w_dir w') sz sync (\<lambda>seg p acc. Inr (acc @ [(seg, p)])) [] os_ok
      = (Inr (wal_log L @ map (Pair (w_seg w)) (take k ps), w'') :: unit open_error + (nat \<times> bytes) list \<times> WAL))"
proof -
  obtain M qs where M: "L = M @ [(w_seg w, qs)]" "w_dir w = enc_dir M @ [(w_seg w, wal_bytes qs)]" "wf_segments L"
      "w_seg w \<notin> fst ` set M"
    using assms(1) by (rule wal_holds_last)
  define w' where "w' = w\<lparr>w_dir := enc_dir M @ [(w_seg w, wal_bytes qs @ take n (wal_bytes ps))], w_appendErr := True\<rparr>"
  have ne: "[] \<notin> set ps" using assms(3) by (auto simp: list_all_iff wf_payload_def)
  have "WAL_Append w ps os = (Inl ErrAppend, w')"
    using assms(2,4,5) ne M dir_write_mid [of "w_seg w" "enc_dir M" "[]"]
    by (simp add: WAL_Append_def WAL_write_def wal_ok_def dir_file_mid w'_def wal_bytes_def)
  moreover have "\<exists>e. WAL_Append w' rs os' = (Inl e, w')" for rs os'
    by (auto simp: WAL_Append_def w'_def)
  moreover have "WAL_Rotate w' os' = (Inl ErrAppend, w')" for os'
    by (simp add: WAL_Rotate_def rotateLocked_def w'_def)
  moreover have "\<exists>k w''. OpenWAL (w_dir w') sz sync (\<lambda>seg p acc. Inr (acc @ [(seg, p)])) [] os_ok
      = (Inr (wal_log L @ map (Pair (w_seg w)) (take k ps), w'') :: unit open_error + (nat \<times> bytes) list \<times> WAL)"
  proof -
    obtain k t where k: "take n (wal_bytes ps) = wal_bytes (take k ps) @ t" "t = [] \<or> torn t"
      using take_wal_bytes [OF assms(3), of n] by blast
    have "wf_segments (M @ [(w_seg w, qs @ take k ps)])"
      using M(1,3) assms(3) by (auto simp: wf_segments_def list_all_iff dest: in_set_takeD)
    from OpenWAL_segments [OF this k(2), of sz sync "\<lambda>seg p acc. Inr (acc @ [(seg, p)]) :: unit + (nat \<times> bytes) list" "[]"]
    show ?thesis
      using M(1) k(1) by (auto simp: w'_def replay_log_collect wal_bytes_def)
  qed
  ultimately show ?thesis by blast
qed

theorem wal_failed_write_poisons_witness:
  "\<exists>w'. WAL_Append (fresh_wal 64 True) [[1, 2], [3]] (os_ok\<lparr>os_write := Some 5\<rparr>) = (Inl ErrAppend, w')
    \<and> (\<forall>qs os'. (\<exists>e. WAL_Append w' qs os' = (Inl e, w')) \<and> WAL_Rotate w' os' = (Inl ErrAppend, w'))
    \<and> (\<exists>k w''. OpenWAL (w_dir w') 64 True (\<lambda>seg p acc. Inr (acc @ [(seg, p)])) [] os_ok
      = (Inr (wal_log [(1, [])] @ map (Pair (w_seg (fresh_wal 64 True))) (take k [[1, 2], [3]]), w'')
         :: unit open_error + (nat \<times> bytes) list \<times> WAL))"
  by (rule wal_failed_write_poisons [where n = 5])
    (simp_all add: fresh_wal_def wal_holds_def wal_ok_def wf_segments_def wf_payload_def wal_bytes_def)

end
