(* ===== verification/Db.thy ===== *)
theory Db
  imports Version Wal
begin

text \<open>
  The storage engine (\<open>src/storage/db.go\<close> and \<open>src/storage/compaction.go\<close>): opening with recovery, group
  commit, reads, flush, compaction, export and restore. A step of the model is what the code does under
  its locks, with the answers of the operating system as arguments: \<open>os\<close> for the log, a flag for the
  write of a table file and of the manifest. The directory is part of the state: the table files by
  number, the manifest, and the log's segments. Background goroutines are the functions they call.
\<close>

section \<open>State\<close>

datatype db_error =
    EStorage storage_error | EWal wal_error | EManifest manifest_error | EBatch batch_error | EOs

record Options =
  o_memtableSize :: int
  o_blockSize :: int
  o_syncAlways :: bool

definition withDefaults :: "Options \<Rightarrow> Options" where
  "withDefaults o' =
     o'\<lparr>o_memtableSize := (if o_memtableSize o' \<le> 0 then 4194304 else o_memtableSize o'),
        o_blockSize := (if o_blockSize o' \<le> 0 then 4096 else o_blockSize o')\<rparr>"

definition maxImmutables :: nat where "maxImmutables = 2"

record db =
  d_opts :: Options
  d_wal :: WAL
  d_files :: "(u64 \<times> bytes) list"
  d_manifest :: "bytes option"
  d_current :: version
  d_nextNum :: u64
  d_closed :: bool
  d_bgErr :: "db_error option"
  d_seq :: u64
  d_flushes :: u64
  d_compactions :: u64
  d_flushedSeq :: u64

record Stats =
  st_flushes :: u64
  st_compactions :: u64
  st_tables :: nat

section \<open>Opening\<close>

text \<open>\<open>removeStrayTables\<close>: table files the manifest does not name are left over from a crash.\<close>

definition removeStrayTables :: "(u64 \<times> bytes) list \<Rightarrow> manifest \<Rightarrow> (u64 \<times> bytes) list" where
  "removeStrayTables files man = filter (\<lambda>f. fst f \<in> tm_num ` set (m_tables man)) files"

fun open_tables :: "(u64 \<times> bytes) list \<Rightarrow> tableMeta list \<Rightarrow> db_error + table list" where
  "open_tables files [] = Inr []"
| "open_tables files (m # ms) =
     (case map_of files (tm_num m) of
        None \<Rightarrow> Inl EOs
      | Some b \<Rightarrow>
          (case openTable m b of
             Inl e \<Rightarrow> Inl (EStorage e)
           | Inr t \<Rightarrow> (case open_tables files ms of Inl e \<Rightarrow> Inl e | Inr ts \<Rightarrow> Inr (t # ts))))"

text \<open>The state of the recovery callback: the memtables rebuilt so far, the highest sequence, the random source.\<close>

record recovery =
  rc_tables :: "memtable list"
  rc_seq :: u64
  rc_rand :: "u64 list"

fun put_ops :: "memtable \<Rightarrow> u64 \<Rightarrow> batchOp list \<Rightarrow> memtable" where
  "put_ops m s [] = m"
| "put_ops m s (op # ops) = put_ops (memtable_put m s (op_kind op) (op_key op) (op_value op)) (s + 1) ops"

definition rand_next :: "u64 list \<Rightarrow> u64" where
  "rand_next rs = (case rs of [] \<Rightarrow> 0 | r # _ \<Rightarrow> r)"

definition replay_record :: "u64 \<Rightarrow> nat \<Rightarrow> bytes \<Rightarrow> recovery \<Rightarrow> batch_error + recovery" where
  "replay_record logNum' seg payload rc =
     (if word_of_nat seg < logNum' then Inr rc
      else case decodeBatch payload of
             Inl e \<Rightarrow> Inl e
           | Inr (seq, b) \<Rightarrow>
               let fresh = (rc_tables rc = [] \<or> mt_seg (last (rc_tables rc)) \<noteq> seg);
                   cur = (if fresh then newMemtable (rand_next (rc_rand rc)) seg else last (rc_tables rc));
                   old = (if fresh then rc_tables rc else butlast (rc_tables rc));
                   lst = seq + word_of_nat (length (b_ops b)) - 1
               in Inr \<lparr>rc_tables = old @ [put_ops cur seq (b_ops b)],
                       rc_seq = (if lst > rc_seq rc then lst else rc_seq rc),
                       rc_rand = (if fresh then tl (rc_rand rc) else rc_rand rc)\<rparr>)"

definition Open :: "Options \<Rightarrow> (u64 \<times> bytes) list \<Rightarrow> bytes option \<Rightarrow> wal_dir \<Rightarrow> u64 list \<Rightarrow> os_answer \<Rightarrow> db_error + db" where
  "Open opts0 files man_file segs rand os =
     (let opts = withDefaults opts0
      in case readManifest man_file of
           Inl e \<Rightarrow> Inl (EManifest e)
         | Inr man \<Rightarrow>
             let files' = removeStrayTables files man
             in case open_tables files' (m_tables man) of
                  Inl e \<Rightarrow> Inl e
                | Inr tables \<Rightarrow>
                    (case OpenWAL segs (nat (o_memtableSize opts * 4)) (o_syncAlways opts) (replay_record (logNum man))
                            \<lparr>rc_tables = [], rc_seq = lastSeq man, rc_rand = rand\<rparr> os of
                       Inl (WalErr e) \<Rightarrow> Inl (EWal e)
                     | Inl (ErrReplay e) \<Rightarrow> Inl (EBatch e)
                     | Inr (rc, wal) \<Rightarrow>
                         (case WAL_DeleteBefore wal (unat (logNum man)) os of
                            (Some e, _) \<Rightarrow> Inl (EWal e)
                          | (None, wal') \<Rightarrow>
                         let active = newMemtable (rand_next (rc_rand rc)) (w_seg wal')
                         in Inr \<lparr>d_opts = opts, d_wal = wal', d_files = files', d_manifest = man_file,
                                 d_current = newVersion active (rc_tables rc) tables,
                                 d_nextNum = nextNum man, d_closed = False, d_bgErr = None, d_seq = rc_seq rc,
                                 d_flushes = 0, d_compactions = 0, d_flushedSeq = lastSeq man\<rparr>)))"

section \<open>Writing\<close>

definition install :: "db \<Rightarrow> version \<Rightarrow> db" where
  "install d v = d\<lparr>d_current := v\<rparr>"

text \<open>\<open>makeRoom\<close>: None while it waits for the flusher.\<close>

definition makeRoom :: "db \<Rightarrow> os_answer \<Rightarrow> (db_error option \<times> db) option" where
  "makeRoom d os =
     (if d_closed d then Some (Some (EStorage ErrClosed), d)
      else if d_bgErr d \<noteq> None then Some (d_bgErr d, d)
      else if int (mt_size (v_mem (d_current d))) < o_memtableSize (d_opts d) then Some (None, d)
      else if length (v_imm (d_current d)) \<ge> maxImmutables then None
      else case WAL_Rotate (d_wal d) os of
             (Inl e, w) \<Rightarrow> Some (Some (EWal e), d\<lparr>d_wal := w\<rparr>)
           | (Inr _, w) \<Rightarrow> Some (None, d\<lparr>d_wal := w\<rparr>))"

fun encode_group :: "u64 \<Rightarrow> Batch list \<Rightarrow> bytes list" where
  "encode_group seq [] = []"
| "encode_group seq (b # bs) = Batch_encode b [] (seq + 1) # encode_group (seq + word_of_nat (length (b_ops b))) bs"

definition group_ops :: "Batch list \<Rightarrow> batchOp list" where
  "group_ops bs = concat (map b_ops bs)"

text \<open>The memtable of the log segment that took the records, installed if the log has moved on.\<close>

definition follow_segment :: "db \<Rightarrow> nat \<Rightarrow> u64 \<Rightarrow> db" where
  "follow_segment d seg rnd =
     (if seg \<noteq> mt_seg (v_mem (d_current d)) then install d (withMemtable (d_current d) (newMemtable rnd seg)) else d)"

definition put_group :: "db \<Rightarrow> Batch list \<Rightarrow> db" where
  "put_group d bs =
     d\<lparr>d_current := (d_current d)\<lparr>v_mem := put_ops (v_mem (d_current d)) (d_seq d + 1) (group_ops bs)\<rparr>,
       d_seq := d_seq d + word_of_nat (length (group_ops bs))\<rparr>"

definition db_commit :: "db \<Rightarrow> Batch list \<Rightarrow> u64 \<Rightarrow> os_answer \<Rightarrow> os_answer \<Rightarrow> (db_error option \<times> db) option" where
  "db_commit d grp rnd os1 os2 =
     (let payloads = encode_group (d_seq d) grp
      in case makeRoom d os1 of
           None \<Rightarrow> None
         | Some (Some e, d1) \<Rightarrow> Some (Some e, d1)
         | Some (None, d1) \<Rightarrow>
             (case WAL_Append (d_wal d1) payloads os2 of
                (Inl e, w) \<Rightarrow> Some (Some (EWal e), d1\<lparr>d_wal := w\<rparr>)
              | (Inr seg, w) \<Rightarrow> Some (None, put_group (follow_segment (d1\<lparr>d_wal := w\<rparr>) seg rnd) grp)))"

text \<open>
  \<open>Write\<close> rejects what it will not queue; the writer at the head of the queue commits every queued batch as
  one group, so \<open>grp\<close> is the queue with the caller's batch at its head.
\<close>

definition db_Write :: "db \<Rightarrow> Batch list \<Rightarrow> u64 \<Rightarrow> os_answer \<Rightarrow> os_answer \<Rightarrow> (db_error option \<times> db) option" where
  "db_Write d grp rnd os1 os2 =
     (if Batch_Len (hd grp) = 0 then Some (None, d)
      else if \<exists>op \<in> set (b_ops (hd grp)). op_key op = [] then Some (Some (EStorage ErrEmptyKey), d)
      else db_commit d grp rnd os1 os2)"

definition db_Put :: "db \<Rightarrow> bytes \<Rightarrow> bytes \<Rightarrow> u64 \<Rightarrow> os_answer \<Rightarrow> os_answer \<Rightarrow> (db_error option \<times> db) option" where
  "db_Put d key val = db_Write d [Batch_Put emptyBatch key val]"

definition db_Delete :: "db \<Rightarrow> bytes \<Rightarrow> u64 \<Rightarrow> os_answer \<Rightarrow> os_answer \<Rightarrow> (db_error option \<times> db) option" where
  "db_Delete d key = db_Write d [Batch_Delete emptyBatch key]"

section \<open>Reading\<close>

definition acquire :: "db \<Rightarrow> storage_error + version \<times> u64" where
  "acquire d = (if d_closed d then Inl ErrClosed else Inr (d_current d, d_seq d))"

definition result :: "bytes \<times> bool \<times> bool \<Rightarrow> storage_error + bytes" where
  "result r = (case r of (val, _, deleted) \<Rightarrow> if deleted then Inl ErrNotFound else Inr val)"

definition found :: "bytes \<times> bool \<times> bool \<Rightarrow> bool" where
  "found r = fst (snd r)"

fun get_mems :: "memtable list \<Rightarrow> bytes \<Rightarrow> u64 \<Rightarrow> (storage_error + bytes) option" where
  "get_mems [] key seq = None"
| "get_mems (m # ms) key seq =
     (if found (memtable_get m key seq) then Some (result (memtable_get m key seq)) else get_mems ms key seq)"

fun get_tables :: "table list \<Rightarrow> bytes \<Rightarrow> u64 \<Rightarrow> (storage_error + bytes) option" where
  "get_tables [] key seq = Some (Inl ErrNotFound)"
| "get_tables (t # ts) key seq =
     (case table_get t key seq of
        None \<Rightarrow> None
      | Some (Inl e) \<Rightarrow> Some (Inl e)
      | Some (Inr r) \<Rightarrow> if found r then Some (result r) else get_tables ts key seq)"

text \<open>\<open>Get\<close>: None is a panic inside a malformed table.\<close>

definition db_Get :: "db \<Rightarrow> bytes \<Rightarrow> (storage_error + bytes) option" where
  "db_Get d key =
     (case acquire d of
        Inl e \<Rightarrow> Some (Inl e)
      | Inr (v, seq) \<Rightarrow>
          (case get_mems (v_mem v # rev (v_imm v)) key seq of
             Some r \<Rightarrow> Some r
           | None \<Rightarrow> get_tables (v_tables v) key seq))"

definition closedIter :: "child dbIter" where
  "closedIter = \<lparr>di_seq = 0, di_m = None, di_end = None, di_k = [], di_val = [], di_last = [], di_err = Some ErrClosed\<rparr>"

definition db_Scan :: "db \<Rightarrow> bytes \<Rightarrow> bytes option \<Rightarrow> child dbIter" where
  "db_Scan d start end' =
     (case acquire d of
        Inl e \<Rightarrow> closedIter
      | Inr (v, seq) \<Rightarrow> newDbIter child_ops (version_children v) seq start end')"

definition db_Export :: "db \<Rightarrow> storage_error + bytes" where
  "db_Export d =
     (case acquire d of
        Inl e \<Rightarrow> Inl e
      | Inr (v, seq) \<Rightarrow>
          exportIter (merge_ops child_ops) (children_size (version_children v)) seq (nat (o_blockSize (d_opts d)))
            (newMergeIter (version_children v)))"

definition db_Stats :: "db \<Rightarrow> Stats" where
  "db_Stats d = \<lparr>st_flushes = d_flushes d, st_compactions = d_compactions d, st_tables = length (v_tables (d_current d))\<rparr>"

section \<open>Flush\<close>

definition allocNum :: "db \<Rightarrow> u64 \<times> db" where
  "allocNum d = (d_nextNum d, d\<lparr>d_nextNum := d_nextNum d + 1\<rparr>)"

definition db_fail :: "db \<Rightarrow> db_error \<Rightarrow> db" where
  "db_fail d e = (if d_bgErr d = None then d\<lparr>d_bgErr := Some e\<rparr> else d)"

text \<open>
  \<open>writeTableFiltered\<close>: \<open>io\<close> tells whether the file could be written and synced; a failed or an empty table
  leaves no file behind.
\<close>

definition writeTableFiltered ::
  "db \<Rightarrow> 'it internalIter \<Rightarrow> nat \<Rightarrow> 'it \<Rightarrow> bool \<Rightarrow> bool \<Rightarrow> (db_error + table option) \<times> db" where
  "writeTableFiltered d ops fuel it dropTombstones io =
     (let (num, d1) = allocNum d
      in if \<not> io then (Inl EOs, d1)
         else case write_stream ops fuel num (nat (o_blockSize (d_opts d))) dropTombstones it of
                Inl e \<Rightarrow> (Inl (EStorage e), d1)
              | Inr (meta, b) \<Rightarrow>
                  if tm_count meta = 0 then (Inr None, d1)
                  else (case openTable meta b of
                          Inl e \<Rightarrow> (Inl (EStorage e), d1\<lparr>d_files := (num, b) # d_files d1\<rparr>)
                        | Inr t \<Rightarrow> (Inr (Some t), d1\<lparr>d_files := (num, b) # d_files d1\<rparr>)))"

definition writeManifest :: "db \<Rightarrow> manifest \<Rightarrow> bool \<Rightarrow> db_error option \<times> db" where
  "writeManifest d man io = (if io then (None, d\<lparr>d_manifest := Some (manifest_encode man)\<rparr>) else (Some EOs, d))"

text \<open>The old segments go after the new version is installed; a failure there is reported with the version in place.\<close>

definition delete_segments :: "db \<Rightarrow> nat \<Rightarrow> os_answer \<Rightarrow> db_error option \<times> db" where
  "delete_segments d seg os = (case WAL_DeleteBefore (d_wal d) seg os of (e, w) \<Rightarrow> (map_option EWal e, d\<lparr>d_wal := w\<rparr>))"

definition db_flush :: "db \<Rightarrow> memtable \<Rightarrow> bool \<Rightarrow> bool \<Rightarrow> os_answer \<Rightarrow> db_error option \<times> db" where
  "db_flush d m io_table io_man os =
     (if v_imm (d_current d) = [] \<or> hd (v_imm (d_current d)) \<noteq> m then (None, d)
      else case writeTableFiltered d child_ops (child_size (mem_child m)) (mem_child m) False io_table of
             (Inl e, d1) \<Rightarrow> (Some e, d1)
           | (Inr t, d1) \<Rightarrow>
               let fs = (if mt_maxSeq m > d_flushedSeq d1 then mt_maxSeq m else d_flushedSeq d1);
                   man = \<lparr>nextNum = d_nextNum d1, lastSeq = fs, logNum = word_of_nat (mt_seg m + 1),
                          m_tables = (case t of None \<Rightarrow> [] | Some t \<Rightarrow> [tb_meta t]) @ map tb_meta (v_tables (d_current d1))\<rparr>
               in (case writeManifest (d1\<lparr>d_flushedSeq := fs\<rparr>) man io_man of
                     (Some e, d2) \<Rightarrow> (Some e, d2)
                   | (None, d2) \<Rightarrow>
                       let d3 = install d2 (withFlushed (d_current d2) m t)
                       in delete_segments (d3\<lparr>d_flushes := d_flushes d3 + 1\<rparr>) (mt_seg m + 1) os))"

text \<open>One turn of \<open>flushLoop\<close>: None when it waits or has ended; a failure stops all later writes.\<close>

definition flush_turn :: "db \<Rightarrow> bool \<Rightarrow> bool \<Rightarrow> os_answer \<Rightarrow> db option" where
  "flush_turn d io_table io_man os =
     (if d_closed d \<or> v_imm (d_current d) = [] then None
      else case db_flush d (hd (v_imm (d_current d))) io_table io_man os of
             (None, d') \<Rightarrow> Some d'
           | (Some e, d') \<Rightarrow> Some (db_fail d' e))"

section \<open>Compaction\<close>

definition minRun :: nat where "minRun = 4"
definition maxTables :: nat where "maxTables = 10"

definition similarSize :: "u64 \<Rightarrow> u64 \<Rightarrow> bool" where
  "similarSize a b \<longleftrightarrow> b \<le> 2 * a \<and> a \<le> 2 * b"

definition run_length :: "table \<Rightarrow> table list \<Rightarrow> nat" where
  "run_length t ts = Suc (length (takeWhile (\<lambda>u. similarSize (tm_size (tb_meta t)) (tm_size (tb_meta u))) ts))"

function best_run :: "table list \<Rightarrow> table list \<Rightarrow> table list" where
  "best_run best [] = best"
| "best_run best (t # ts) =
     (let n = run_length t ts; run = take n (t # ts)
      in best_run (if n \<ge> minRun \<and> n \<ge> length best then run else best) (drop n (t # ts)))"
  by pat_completeness auto
termination
  by (relation "measure (\<lambda>(b, ts). length ts)") (auto simp: run_length_def)

fun cheapest_window :: "table list option \<Rightarrow> u64 \<Rightarrow> table list \<Rightarrow> table list option" where
  "cheapest_window best bestSum [] = best"
| "cheapest_window best bestSum (t # ts) =
     (if length (t # ts) < minRun then best
      else let w = take minRun (t # ts); s = sum_list (map (\<lambda>u. tm_size (tb_meta u)) w)
        in if best = None \<or> s < bestSum then cheapest_window (Some w) s ts else cheapest_window best bestSum ts)"

text \<open>\<open>pickCompaction\<close>: the empty list is nil.\<close>

definition pickCompaction :: "table list \<Rightarrow> table list" where
  "pickCompaction tables =
     (let best = best_run [] tables
      in if best \<noteq> [] \<or> length tables \<le> maxTables then best
         else case cheapest_window None 0 tables of None \<Rightarrow> [] | Some w \<Rightarrow> w)"

definition oldestSegment :: "version \<Rightarrow> nat" where
  "oldestSegment v = (if v_imm v \<noteq> [] then mt_seg (hd (v_imm v)) else mt_seg (v_mem v))"

fun compacted_metas :: "table list \<Rightarrow> table option \<Rightarrow> table list \<Rightarrow> tableMeta list" where
  "compacted_metas inputs out [] = []"
| "compacted_metas inputs out (t # ts) =
     (if isInput t inputs
      then (case out of
              Some o' \<Rightarrow> (if t = hd inputs then tb_meta o' # compacted_metas inputs out ts else compacted_metas inputs out ts)
            | None \<Rightarrow> compacted_metas inputs out ts)
      else tb_meta t # compacted_metas inputs out ts)"

definition compactLocked :: "db \<Rightarrow> table list \<Rightarrow> bool \<Rightarrow> bool \<Rightarrow> db_error option \<times> db" where
  "compactLocked d inputs io_table io_man =
     (let tables = v_tables (d_current d); bottom = (last inputs = last tables); children = map tab_child inputs
      in case writeTableFiltered d (merge_ops child_ops) (children_size children) (newMergeIter children) bottom io_table of
           (Inl e, d1) \<Rightarrow> (Some e, d1)
         | (Inr out, d1) \<Rightarrow>
             let man = \<lparr>nextNum = d_nextNum d1, lastSeq = d_flushedSeq d1,
                        logNum = word_of_nat (oldestSegment (d_current d1)), m_tables = compacted_metas inputs out tables\<rparr>
             in (case writeManifest d1 man io_man of
                   (Some e, d2) \<Rightarrow> (Some e, d2)
                 | (None, d2) \<Rightarrow>
                     let d3 = install d2 (withCompacted (d_current d2) inputs out)
                     in (None, d3\<lparr>d_compactions := d_compactions d3 + 1,
                           d_files := filter (\<lambda>f. fst f \<notin> (\<lambda>t. tm_num (tb_meta t)) ` set inputs) (d_files d3)\<rparr>)))"

definition compact :: "db \<Rightarrow> table list \<Rightarrow> bool \<Rightarrow> bool \<Rightarrow> db_error option \<times> db" where
  "compact d inputs io_table io_man =
     (if \<not> isInput (hd inputs) (v_tables (d_current d)) then (None, d) else compactLocked d inputs io_table io_man)"

definition compact_turn :: "db \<Rightarrow> bool \<Rightarrow> bool \<Rightarrow> db option" where
  "compact_turn d io_table io_man =
     (let inputs = pickCompaction (v_tables (d_current d))
      in if d_closed d \<or> inputs = [] then None
         else case compact d inputs io_table io_man of
                (None, d') \<Rightarrow> Some d'
              | (Some e, d') \<Rightarrow> Some (db_fail d' e))"

section \<open>Restore and close\<close>

record restore_scan =
  rs_meta :: tableMeta
  rs_maxSeq :: u64

definition restore_body :: "bytes \<Rightarrow> bytes \<Rightarrow> restore_scan \<Rightarrow> restore_scan" where
  "restore_body ik val s =
     (let m = rs_meta s; q = fst (snd (splitInternalKey ik))
      in \<lparr>rs_meta = m\<lparr>tm_smallest := (if tm_count m = 0 then ik else tm_smallest m), tm_largest := ik, tm_count := tm_count m + 1\<rparr>,
          rs_maxSeq = (if q > rs_maxSeq s then q else rs_maxSeq s)\<rparr>)"

definition restore_install :: "db \<Rightarrow> table \<Rightarrow> tableMeta \<Rightarrow> u64 \<Rightarrow> nat \<Rightarrow> u64 \<Rightarrow> bool \<Rightarrow> os_answer \<Rightarrow> db_error option \<times> db" where
  "restore_install d t meta maxSeq seg rnd io_man os =
     (let d1 = d\<lparr>d_seq := (if maxSeq > d_seq d then maxSeq else d_seq d), d_flushedSeq := maxSeq\<rparr>;
          man = \<lparr>nextNum = d_nextNum d1, lastSeq = maxSeq, logNum = word_of_nat seg,
                 m_tables = (if tm_count meta > 0 then [meta] else [])\<rparr>
      in case writeManifest d1 man io_man of
           (Some e, d2) \<Rightarrow> (Some e, d2)
         | (None, d2) \<Rightarrow>
             delete_segments (d2\<lparr>d_current := newVersion (newMemtable rnd seg) [] (if tm_count meta > 0 then [t\<lparr>tb_meta := meta\<rparr>] else []),
                       d_files := filter (\<lambda>f. tm_count meta > 0 \<and> fst f = tm_num meta) (d_files d2)\<rparr>) seg os)"

definition db_Restore :: "db \<Rightarrow> bytes \<Rightarrow> u64 \<Rightarrow> bool \<Rightarrow> os_answer \<Rightarrow> bool \<Rightarrow> db_error option \<times> db" where
  "db_Restore d r rnd io_table os io_man =
     (let (num, d1) = allocNum d; meta0 = \<lparr>tm_num = num, tm_size = word_of_nat (length r), tm_count = 0, tm_smallest = [], tm_largest = []\<rparr>
      in if \<not> io_table then (Some EOs, d1)
         else case openTable meta0 r of
                Inl e \<Rightarrow> (Some (EStorage e), d1)
              | Inr t \<Rightarrow>
                  (case iter_loop table_ops restore_body (length r) (it_seekToFirst table_ops (Some (table_iter t)))
                          \<lparr>rs_meta = meta0, rs_maxSeq = 0\<rparr> of
                     (it, s) \<Rightarrow>
                       (case it_close table_ops it of
                          Some e \<Rightarrow> (Some (EStorage e), d1)
                        | None \<Rightarrow>
                            (case WAL_Rotate (d_wal d1) os of
                               (Inl e, w) \<Rightarrow> (Some (EWal e), d1\<lparr>d_wal := w, d_files := (num, r) # d_files d1\<rparr>)
                             | (Inr seg, w) \<Rightarrow>
                                 restore_install (d1\<lparr>d_wal := w, d_files := (num, r) # d_files d1\<rparr>) t (rs_meta s) (rs_maxSeq s) seg rnd io_man os))))"

definition db_Close :: "db \<Rightarrow> os_answer \<Rightarrow> wal_error option \<times> db" where
  "db_Close d os =
     (if d_closed d then (None, d)
      else case WAL_Close (d_wal d) os of (e, w) \<Rightarrow> (e, d\<lparr>d_closed := True, d_wal := w\<rparr>))"

end
