(* ===== verification/Memdb.thy ===== *)
theory Memdb
  imports Db
begin

text \<open>
  The in-memory engine of the simulator (\<open>src/storage/memdb.go\<close>): one memtable behind the same interface,
  sharing the snapshot format with the engine of theory Db.
\<close>

section \<open>Model\<close>

record memDB =
  md_mem :: memtable
  md_seq :: u64
  md_seed :: u64
  md_closed :: bool

definition NewMemory :: "u64 \<Rightarrow> memDB" where
  "NewMemory seed = \<lparr>md_mem = newMemtable seed 0, md_seq = 0, md_seed = seed, md_closed = False\<rparr>"

definition memDB_Get :: "memDB \<Rightarrow> bytes \<Rightarrow> storage_error + bytes" where
  "memDB_Get d key =
     (if md_closed d then Inl ErrClosed
      else let r = memtable_get (md_mem d) key (md_seq d) in if found r then result r else Inl ErrNotFound)"

definition memDB_Write :: "memDB \<Rightarrow> Batch \<Rightarrow> storage_error option \<times> memDB" where
  "memDB_Write d b =
     (if md_closed d then (Some ErrClosed, d)
      else (None, d\<lparr>md_mem := put_ops (md_mem d) (md_seq d + 1) (b_ops b), md_seq := md_seq d + word_of_nat (length (b_ops b))\<rparr>))"

definition memDB_Put :: "memDB \<Rightarrow> bytes \<Rightarrow> bytes \<Rightarrow> storage_error option \<times> memDB" where
  "memDB_Put d key val = memDB_Write d (Batch_Put emptyBatch key val)"

definition memDB_Delete :: "memDB \<Rightarrow> bytes \<Rightarrow> storage_error option \<times> memDB" where
  "memDB_Delete d key = memDB_Write d (Batch_Delete emptyBatch key)"

definition memDB_Scan :: "memDB \<Rightarrow> bytes \<Rightarrow> bytes option \<Rightarrow> child dbIter" where
  "memDB_Scan d start end' =
     (if md_closed d then closedIter else newDbIter child_ops [mem_child (md_mem d)] (md_seq d) start end')"

definition memDB_Export :: "memDB \<Rightarrow> storage_error + bytes" where
  "memDB_Export d = exportIter child_ops (child_size (mem_child (md_mem d))) (md_seq d) 4096 (mem_child (md_mem d))"

definition memdb_restore_body :: "bytes \<Rightarrow> bytes \<Rightarrow> memtable \<times> u64 \<Rightarrow> memtable \<times> u64" where
  "memdb_restore_body ik val s =
     (case splitInternalKey ik of
        (user, q, kind) \<Rightarrow> (memtable_put (fst s) q kind user val, if q > snd s then q else snd s))"

definition memDB_Restore :: "memDB \<Rightarrow> bytes \<Rightarrow> storage_error option \<times> memDB" where
  "memDB_Restore d r =
     (case openTableBytes r of
        Inl e \<Rightarrow> (Some e, d)
      | Inr t \<Rightarrow>
          (case iter_loop table_ops memdb_restore_body (length r) (it_seekToFirst table_ops (Some (table_iter t)))
                  (newMemtable (md_seed d) 0, 0) of
             (it, mem, maxSeq) \<Rightarrow>
               (case it_close table_ops it of
                  Some e \<Rightarrow> (Some e, d)
                | None \<Rightarrow> (None, d\<lparr>md_mem := mem, md_seq := (if maxSeq > md_seq d then maxSeq else md_seq d)\<rparr>))))"

definition memDB_Close :: "memDB \<Rightarrow> memDB" where
  "memDB_Close d = d\<lparr>md_closed := True\<rparr>"

end
