(* ===== verification/Db_Refine.thy ===== *)
theory Db_Refine
  imports Memdb
begin

text \<open>
  The engine as a map. The abstraction of an engine is the function from user keys to values that its
  tiers define, newest tier first; \<open>Get\<close> answers from it, a committed group updates it by its operations
  in order, and neither a flush nor a compaction changes it.
\<close>

section \<open>The interface of the children and of their merge\<close>

fun child_entries :: "child \<Rightarrow> entry list" where
  "child_entries (MemIt x) = si_entries x"
| "child_entries (TabIt x) = ti_entries x"

fun child_rest :: "child \<Rightarrow> entry list" where
  "child_rest (MemIt x) = si_rest x"
| "child_rest (TabIt x) = ti_rest x"

fun child_inv :: "child \<Rightarrow> bool" where
  "child_inv (MemIt x) = si_inv x"
| "child_inv (TabIt x) = ti_inv x"

lemma child_ops_simps [simp]:
  "it_seekToFirst child_ops (MemIt x) = MemIt (it_seekToFirst skiplist_ops x)"
  "it_seekToFirst child_ops (TabIt y) = TabIt (it_seekToFirst table_ops y)"
  "it_seek child_ops k (MemIt x) = MemIt (it_seek skiplist_ops k x)"
  "it_seek child_ops k (TabIt y) = TabIt (it_seek table_ops k y)"
  "it_valid child_ops (MemIt x) = it_valid skiplist_ops x" "it_valid child_ops (TabIt y) = it_valid table_ops y"
  "it_next child_ops (MemIt x) = MemIt (it_next skiplist_ops x)" "it_next child_ops (TabIt y) = TabIt (it_next table_ops y)"
  "it_key child_ops (MemIt x) = it_key skiplist_ops x" "it_key child_ops (TabIt y) = it_key table_ops y"
  "it_value child_ops (MemIt x) = it_value skiplist_ops x" "it_value child_ops (TabIt y) = it_value table_ops y"
  "it_close child_ops (MemIt x) = it_close skiplist_ops x" "it_close child_ops (TabIt y) = it_close table_ops y"
  by (simp_all add: child_ops_def)

interpretation chi: internal_iter child_ops child_entries child_rest child_inv
proof (unfold_locales, goal_cases)
  case (1 c) then show ?case by (cases c) (auto intro: sli.entries_sorted tbi.entries_sorted)
next
  case (2 c e) then show ?case by (cases c) (auto intro: sli.entries_wf tbi.entries_wf)
next
  case (3 c) then show ?case by (cases c) (auto intro: sli.rest_sub tbi.rest_sub)
next
  case (4 c) then show ?case using sli.first tbi.first by (cases c) auto
next
  case (5 c k) then show ?case using sli.seek tbi.seek by (cases c) auto
next
  case (6 c) then show ?case using sli.valid tbi.valid by (cases c) auto
next
  case (7 c) then show ?case using sli.step tbi.step by (cases c) auto
next
  case (8 c) then show ?case using sli.current tbi.current by (cases c) auto
next
  case (9 c) then show ?case using sli.close tbi.close by (cases c) auto
qed

interpretation mrg: internal_iter "merge_ops child_ops" "merge_entries child_entries" "merge_entries child_rest"
  "merge_inv child_ops child_entries child_rest child_inv"
  by (rule chi.merge_internal_iter)

section \<open>Tiers and lookups\<close>

definition for_key :: "bytes \<Rightarrow> entry \<Rightarrow> bool" where
  "for_key k e \<longleftrightarrow> userKey (fst e) = k"

definition tiers :: "version \<Rightarrow> entry list list" where
  "tiers v = mt_entries (v_mem v) # map mt_entries (rev (v_imm v)) @ map table_entries (v_tables v)"

definition val_of :: "entry option \<Rightarrow> bytes option" where
  "val_of x = (case x of None \<Rightarrow> None | Some e \<Rightarrow> if key_kind (fst e) = kindDelete then None else Some (snd e))"

definition tiers_map :: "entry list list \<Rightarrow> bytes \<Rightarrow> bytes option" where
  "tiers_map ts k = val_of (find (for_key k) (concat ts))"

definition db_abs :: "db \<Rightarrow> bytes \<Rightarrow> bytes option" where
  "db_abs d = tiers_map (tiers (d_current d))"

definition table_good :: "table \<Rightarrow> bool" where
  "table_good t \<longleftrightarrow> (\<exists>cs. tb_ok t cs \<and> (\<forall>x \<in> set (concat cs). engine_key (fst x)))"

definition table_num :: "table \<Rightarrow> u64" where
  "table_num t = tm_num (tb_meta t)"

definition newer :: "entry list \<Rightarrow> entry list \<Rightarrow> bool" where
  "newer T U \<longleftrightarrow> (\<forall>e \<in> set T. \<forall>f \<in> set U. userKey (fst e) = userKey (fst f) \<longrightarrow> key_seq (fst f) < key_seq (fst e))"

definition tier_ok :: "u64 \<Rightarrow> entry list \<Rightarrow> bool" where
  "tier_ok seq T \<longleftrightarrow> sorted_entries T \<and> (\<forall>e \<in> set T. engine_key (fst e) \<and> key_seq (fst e) \<le> seq \<and> userKey (fst e) \<noteq> [])"

definition db_inv :: "db \<Rightarrow> bool" where
  "db_inv d \<longleftrightarrow>
     (\<forall>m \<in> set (v_mem (d_current d) # v_imm (d_current d)). mt_inv m)
     \<and> (\<forall>t \<in> set (v_tables (d_current d)). table_good t)
     \<and> distinct (map table_num (v_tables (d_current d))) \<and> (\<forall>t \<in> set (v_tables (d_current d)). table_num t < d_nextNum d)
     \<and> sorted_wrt (<) (map mt_seg (v_imm (d_current d) @ [v_mem (d_current d)])) \<and> mt_seg (v_mem (d_current d)) \<le> w_seg (d_wal d)
     \<and> unat (d_seq d) < 2 ^ 56 \<and> mt_maxSeq (v_mem (d_current d)) \<le> d_seq d
     \<and> (\<forall>T \<in> set (tiers (d_current d)). tier_ok (d_seq d) T)
     \<and> sorted_wrt newer (tiers (d_current d))"

lemma find_append: "find P (xs @ ys) = (case find P xs of None \<Rightarrow> find P ys | Some x \<Rightarrow> Some x)"
  by (induction xs) auto

lemma find_hd_filter: "find P xs = (case filter P xs of [] \<Rightarrow> None | x # _ \<Rightarrow> Some x)"
  by (induction xs) auto

lemma table_good_entries: "table_good t \<Longrightarrow> sorted_entries (table_entries t) \<and> (\<forall>e \<in> set (table_entries t). engine_key (fst e))"
proof -
  assume "table_good t"
  then obtain cs where cs: "tb_ok t cs" "\<forall>x \<in> set (concat cs). engine_key (fst x)" unfolding table_good_def by blast
  have "sorted_entries (concat cs)" using tb_ok_simps(1) [OF cs(1)] unfolding table_ok_def by blast
  then show ?thesis unfolding table_entries_ok [OF cs(1)] using cs(2) by blast
qed

lemma newest_all_visible:
  "(\<forall>e \<in> set T. key_seq (fst e) \<le> seq) \<Longrightarrow> newest_version k seq T = find (for_key k) T"
  by (induction T) (auto simp: newest_version_def is_version_def for_key_def)

section \<open>Get\<close>

definition lookup_result :: "bytes option \<Rightarrow> storage_error + bytes" where
  "lookup_result x = (case x of None \<Rightarrow> Inl ErrNotFound | Some v \<Rightarrow> Inr v)"

lemma found_version: "found (version_result x) \<longleftrightarrow> x \<noteq> None"
  by (auto simp: found_def version_result_def split: option.splits)

lemma result_version: "result (version_result (Some e)) = lookup_result (val_of (Some e))"
  by (simp add: result_def version_result_def lookup_result_def val_of_def)

lemma get_mems_find:
  assumes "\<forall>m \<in> set ms. mt_inv m \<and> (\<forall>e \<in> set (mt_entries m). key_seq (fst e) \<le> seq)" and "unat seq < 2 ^ 56"
  shows "get_mems ms k seq = map_option (\<lambda>e. lookup_result (val_of (Some e))) (find (for_key k) (concat (map mt_entries ms)))"
  using assms(1)
proof (induction ms)
  case (Cons m ms)
  have g: "memtable_get m k seq = version_result (find (for_key k) (mt_entries m))"
    using memtable_get_newest [of m seq k] newest_all_visible [of "mt_entries m" seq k] Cons.prems assms(2) by simp
  show ?case
  proof (cases "find (for_key k) (mt_entries m)")
    case None
    then show ?thesis using Cons g by (simp add: found_version find_append)
  next
    case (Some e)
    then show ?thesis using g by (simp add: found_version find_append result_version)
  qed
qed simp

lemma get_tables_find:
  assumes "\<forall>t \<in> set ts. table_good t \<and> (\<forall>e \<in> set (table_entries t). key_seq (fst e) \<le> seq)" and "unat seq < 2 ^ 56"
  shows "get_tables ts k seq = Some (lookup_result (val_of (find (for_key k) (concat (map table_entries ts)))))"
  using assms(1)
proof (induction ts)
  case Nil
  then show ?case by (simp add: lookup_result_def val_of_def)
next
  case (Cons t ts)
  obtain cs where cs: "tb_ok t cs" "\<forall>x \<in> set (concat cs). engine_key (fst x)" using Cons.prems by (auto simp: table_good_def)
  have g: "table_get t k seq = Some (Inr (version_result (find (for_key k) (table_entries t))))"
    using table_get_newest [OF cs assms(2), of k] newest_all_visible [of "table_entries t" seq k] table_entries_ok [OF cs(1)] Cons.prems
    by simp
  show ?case
  proof (cases "find (for_key k) (table_entries t)")
    case None
    then show ?thesis using Cons g by (simp add: found_version find_append)
  next
    case (Some e)
    then show ?thesis using g by (simp add: found_version find_append result_version)
  qed
qed

lemma db_Get_abs:
  assumes inv: "db_inv d" and "\<not> d_closed d"
  shows "db_Get d k = Some (lookup_result (db_abs d k))"
proof -
  let ?v = "d_current d"
  have ok: "tier_ok (d_seq d) T" if "T \<in> set (tiers ?v)" for T using inv that by (simp add: db_inv_def)
  have m: "\<forall>m \<in> set (v_mem ?v # rev (v_imm ?v)). mt_inv m \<and> (\<forall>e \<in> set (mt_entries m). key_seq (fst e) \<le> d_seq d)"
    using inv ok by (fastforce simp: db_inv_def tiers_def tier_ok_def)
  have t: "\<forall>t \<in> set (v_tables ?v). table_good t \<and> (\<forall>e \<in> set (table_entries t). key_seq (fst e) \<le> d_seq d)"
    using inv ok by (fastforce simp: db_inv_def tiers_def tier_ok_def)
  have q: "unat (d_seq d) < 2 ^ 56" using inv by (simp add: db_inv_def)
  have c: "concat (tiers ?v) = concat (map mt_entries (v_mem ?v # rev (v_imm ?v))) @ concat (map table_entries (v_tables ?v))"
    by (simp add: tiers_def)
  show ?thesis
  proof (cases "find (for_key k) (concat (map mt_entries (v_mem ?v # rev (v_imm ?v))))")
    case None
    then show ?thesis
      using assms(2) get_mems_find [OF m q, of k] get_tables_find [OF t q, of k]
      unfolding db_Get_def acquire_def db_abs_def tiers_map_def c find_append by simp
  next
    case (Some e)
    then show ?thesis
      using assms(2) get_mems_find [OF m q, of k]
      unfolding db_Get_def acquire_def db_abs_def tiers_map_def c find_append by simp
  qed
qed

section \<open>Writes\<close>

definition apply_op :: "(bytes \<Rightarrow> bytes option) \<Rightarrow> batchOp \<Rightarrow> bytes \<Rightarrow> bytes option" where
  "apply_op f op = f(op_key op := if op_kind op = kindDelete then None else Some (op_value op))"

definition ops_ok :: "batchOp list \<Rightarrow> bool" where
  "ops_ok ops \<longleftrightarrow> (\<forall>op \<in> set ops. (op_kind op = kindDelete \<or> op_kind op = kindPut) \<and> op_key op \<noteq> [])"

lemma trailer_less: "key_seq a < key_seq b \<Longrightarrow> key_trailer a < key_trailer b"
proof -
  assume "key_seq a < key_seq b"
  then have "unat (key_seq a) < unat (key_seq b)" by (simp add: word_less_nat_alt)
  moreover have "unat (key_kind a) < 256" using unsigned_less [of "key_kind a"] by simp
  ultimately show ?thesis unfolding word_less_nat_alt unat_key_trailer by linarith
qed

lemma newer_not_before:
  "userKey (fst a) = userKey (fst b) \<Longrightarrow> key_seq (fst a) < key_seq (fst b) \<Longrightarrow> \<not> entry_before a (fst b)"
  using trailer_less [of "fst a" "fst b"] by (auto simp: entry_before_def compareInternalKey_def Let_def)

lemma find_insert_newest:
  assumes "\<forall>x \<in> set es. userKey (fst x) = userKey (fst e) \<longrightarrow> \<not> entry_before x (fst e)"
  shows "find (for_key k) (insert_entry e es) = (if for_key k e then Some e else find (for_key k) es)"
  using assms by (induction es) (auto simp: for_key_def)

lemma word_Suc_seq:
  fixes q :: u64
  assumes "unat q + Suc n < 2 ^ 56"
  shows "unat (q + 1) = unat q + 1" "unat (q + 1) + n < 2 ^ 56" "q < q + 1"
proof -
  show u: "unat (q + 1) = unat q + 1" using assms by (subst unat_add_lem [THEN iffD1]) simp_all
  then show "unat (q + 1) + n < 2 ^ 56" "q < q + 1" using assms by (simp_all add: word_less_nat_alt)
qed

lemma put_one:
  assumes m: "mt_inv m" and t: "tier_ok q (mt_entries m)" and q: "mt_maxSeq m \<le> q" "unat q + 1 < 2 ^ 56"
    and op: "op_kind op = kindDelete \<or> op_kind op = kindPut" "op_key op \<noteq> []"
  defines "m' \<equiv> memtable_put m (q + 1) (op_kind op) (op_key op) (op_value op)"
  shows "mt_inv m'" "tier_ok (q + 1) (mt_entries m')" "mt_maxSeq m' \<le> q + 1" "mt_seg m' = mt_seg m"
    "tiers_map (mt_entries m' # rest) = apply_op (tiers_map (mt_entries m # rest)) op"
    "newer (mt_entries m) U \<Longrightarrow> tier_ok q U \<Longrightarrow> newer (mt_entries m') U"
proof -
  let ?e = "op_entry (q + 1) (op_kind op) (op_key op) (op_value op)"
  have s: "unat (q + 1) < 2 ^ 56" "q < q + 1" "unat (q + 1) = unat q + 1" using word_Suc_seq [of q 0] q(2) by simp_all
  show m': "mt_inv m'" unfolding m'_def using mt_inv_put [OF m s(1)] op(1) by blast
  have es: "mt_entries m' = insert_entry ?e (mt_entries m)" unfolding m'_def by (rule mt_entries_put [OF m])
  have e: "userKey (fst ?e) = op_key op" "key_seq (fst ?e) = q + 1" "key_kind (fst ?e) = op_kind op" "engine_key (fst ?e)"
    using s(1) op(1) by (auto simp: op_entry_def)
  have old: "key_seq (fst x) \<le> q" "key_seq (fst x) < q + 1" if "x \<in> set (mt_entries m)" for x
    using t that s(2) by (auto simp: tier_ok_def)
  show "tier_ok (q + 1) (mt_entries m')"
    unfolding tier_ok_def using mt_entries_sorted [OF m'] t e op(2) old(2) by (auto simp: es tier_ok_def intro: less_imp_le)
  show "mt_maxSeq m' \<le> q + 1" "mt_seg m' = mt_seg m"
    using le_less_trans [OF q(1) s(2)] by (simp_all add: m'_def memtable_put_def Let_def)
  have f: "find (for_key k) (mt_entries m') = (if k = op_key op then Some ?e else find (for_key k) (mt_entries m))" for k
  proof -
    have "\<forall>x \<in> set (mt_entries m). userKey (fst x) = userKey (fst ?e) \<longrightarrow> \<not> entry_before x (fst ?e)"
      using newer_not_before [of _ ?e] old(2) unfolding e(2) by blast
    from find_insert_newest [OF this, of k] show ?thesis unfolding es for_key_def e(1) by auto
  qed
  have v: "snd ?e = (if op_kind op = kindDelete then [] else op_value op)"
    using op(1) by (auto simp: op_entry_def kindPut_def kindDelete_def)
  show "tiers_map (mt_entries m' # rest) = apply_op (tiers_map (mt_entries m # rest)) op"
    by (rule ext) (simp add: tiers_map_def find_append f apply_op_def val_of_def e(3) v)
  show "newer (mt_entries m') U" if "newer (mt_entries m) U" "tier_ok q U"
    using that e(1,2) s(2) unfolding newer_def tier_ok_def es by (auto intro: le_less_trans)
qed

definition mem_step :: "u64 \<Rightarrow> memtable \<Rightarrow> u64 \<Rightarrow> memtable \<Rightarrow> batchOp list \<Rightarrow> bool" where
  "mem_step q m q' m' ops \<longleftrightarrow>
     mt_inv m' \<and> tier_ok q' (mt_entries m') \<and> mt_maxSeq m' \<le> q' \<and> mt_seg m' = mt_seg m
     \<and> (\<forall>rest. tiers_map (mt_entries m' # rest) = foldl apply_op (tiers_map (mt_entries m # rest)) ops)
     \<and> (\<forall>U. newer (mt_entries m) U \<longrightarrow> tier_ok q U \<longrightarrow> newer (mt_entries m') U)"

lemma tier_ok_mono: "tier_ok q U \<Longrightarrow> q \<le> q' \<Longrightarrow> tier_ok q' U"
  by (auto simp: tier_ok_def)

lemma mem_step_trans:
  "mem_step q m q1 m1 ops1 \<Longrightarrow> mem_step q1 m1 q2 m2 ops2 \<Longrightarrow> q \<le> q1 \<Longrightarrow> mem_step q m q2 m2 (ops1 @ ops2)"
  unfolding mem_step_def using tier_ok_mono by (metis foldl_append)

lemma put_ops_refines:
  assumes "mt_inv m" "tier_ok q (mt_entries m)" "mt_maxSeq m \<le> q" "unat q + length ops < 2 ^ 56" "ops_ok ops"
  shows "mem_step q m (q + word_of_nat (length ops)) (put_ops m (q + 1) ops) ops"
  using assms
proof (induction ops arbitrary: m q)
  case Nil
  then show ?case by (simp add: mem_step_def)
next
  case (Cons op ops)
  define m1 where "m1 = memtable_put m (q + 1) (op_kind op) (op_key op) (op_value op)"
  have p: "unat q + 1 < 2 ^ 56" "op_kind op = kindDelete \<or> op_kind op = kindPut" "op_key op \<noteq> []"
      "unat (q + 1) + length ops < 2 ^ 56" "ops_ok ops" "q < q + 1"
    using Cons.prems word_Suc_seq [of q "length ops"] by (auto simp: ops_ok_def)
  note one = put_one [OF Cons.prems(1-3) p(1-3), folded m1_def]
  have "mem_step q m (q + 1) m1 [op]" using one by (simp add: mem_step_def)
  moreover have "mem_step (q + 1) m1 (q + 1 + word_of_nat (length ops)) (put_ops m1 (q + 1 + 1) ops) ops"
    by (rule Cons.IH [OF one(1-3) p(4,5)])
  ultimately have "mem_step q m (q + 1 + word_of_nat (length ops)) (put_ops m1 (q + 1 + 1) ops) ([op] @ ops)"
    using mem_step_trans p(6) by (meson less_imp_le)
  then show ?case by (simp add: m1_def add.assoc)
qed

lemma follow_segment_tiers:
  assumes inv: "db_inv d" and seg: "w_seg (d_wal d) = seg"
  shows "db_inv (follow_segment d seg rnd)" "db_abs (follow_segment d seg rnd) = db_abs d"
    "d_seq (follow_segment d seg rnd) = d_seq d" "mt_seg (v_mem (d_current (follow_segment d seg rnd))) = seg"
    "d_closed (follow_segment d seg rnd) = d_closed d"
proof -
  let ?v = "d_current d"
  show "d_seq (follow_segment d seg rnd) = d_seq d" "d_closed (follow_segment d seg rnd) = d_closed d"
    "mt_seg (v_mem (d_current (follow_segment d seg rnd))) = seg"
    by (simp_all add: follow_segment_def install_def withMemtable_def newVersion_def newMemtable_def)
  have t: "tiers (withMemtable ?v (newMemtable rnd seg)) = [] # tiers ?v"
    by (simp add: tiers_def withMemtable_def newVersion_def)
  show "db_abs (follow_segment d seg rnd) = db_abs d"
    using t by (auto simp: db_abs_def follow_segment_def install_def tiers_map_def)
  show "db_inv (follow_segment d seg rnd)"
  proof (cases "seg \<noteq> mt_seg (v_mem ?v)")
    case True
    then have f: "d_current (follow_segment d seg rnd) = withMemtable ?v (newMemtable rnd seg)" "d_seq (follow_segment d seg rnd) = d_seq d"
        "d_wal (follow_segment d seg rnd) = d_wal d" "d_nextNum (follow_segment d seg rnd) = d_nextNum d"
      by (simp_all add: follow_segment_def install_def)
    have w: "v_mem (withMemtable ?v (newMemtable rnd seg)) = newMemtable rnd seg" "v_imm (withMemtable ?v (newMemtable rnd seg)) = v_imm ?v @ [v_mem ?v]"
        "v_tables (withMemtable ?v (newMemtable rnd seg)) = v_tables ?v"
      by (simp_all add: withMemtable_def newVersion_def)
    have n: "mt_seg (newMemtable rnd seg) = seg" "mt_maxSeq (newMemtable rnd seg) = 0" by (simp_all add: newMemtable_def)
    have lt: "mt_seg (v_mem ?v) < seg" using inv seg True by (auto simp: db_inv_def)
    have segs: "sorted_wrt (<) (map mt_seg ((v_imm ?v @ [v_mem ?v]) @ [newMemtable rnd seg]))"
      using inv lt by (auto simp: db_inv_def sorted_wrt_append n)
    have tk: "tier_ok (d_seq d) []" by (simp add: tier_ok_def sorted_entries_def)
    have nw: "newer [] U" for U by (simp add: newer_def)
    show ?thesis unfolding db_inv_def f t w
      using inv segs tk nw seg by (simp add: db_inv_def n)
  qed (use inv in \<open>simp add: follow_segment_def\<close>)
qed

lemma put_group_tiers:
  assumes inv: "db_inv d" and ops: "ops_ok (group_ops bs)" and sq: "unat (d_seq d) + length (group_ops bs) < 2 ^ 56"
  shows "db_inv (put_group d bs)" "db_abs (put_group d bs) = foldl apply_op (db_abs d) (group_ops bs)"
    "d_closed (put_group d bs) = d_closed d"
proof -
  let ?v = "d_current d" and ?n = "word_of_nat (length (group_ops bs)) :: u64"
  define m' where "m' = put_ops (v_mem ?v) (d_seq d + 1) (group_ops bs)"
  define rest where "rest = map mt_entries (rev (v_imm ?v)) @ map table_entries (v_tables ?v)"
  have st: "mem_step (d_seq d) (v_mem ?v) (d_seq d + ?n) m' (group_ops bs)"
    unfolding m'_def by (rule put_ops_refines) (use inv ops sq in \<open>auto simp: db_inv_def tiers_def\<close>)
  have t: "tiers ?v = mt_entries (v_mem ?v) # rest" by (simp add: tiers_def rest_def)
  have t': "tiers (d_current (put_group d bs)) = mt_entries m' # rest"
    by (simp add: put_group_def tiers_def m'_def rest_def)
  show "db_abs (put_group d bs) = foldl apply_op (db_abs d) (group_ops bs)"
    unfolding db_abs_def t t' using st by (simp add: mem_step_def)
  show "d_closed (put_group d bs) = d_closed d" by (simp add: put_group_def)
  have u: "unat (d_seq d + ?n) = unat (d_seq d) + length (group_ops bs)"
    using sq by (simp add: unat_word_ariths unat_of_nat)
  have le: "d_seq d \<le> d_seq d + ?n" using u by (simp add: word_le_nat_alt)
  have rest: "tier_ok (d_seq d) U \<and> newer (mt_entries (v_mem ?v)) U" if "U \<in> set rest" for U
    using inv that by (auto simp: db_inv_def t)
  show "db_inv (put_group d bs)"
    unfolding db_inv_def t'
    using inv st u sq rest tier_ok_mono [OF _ le] by (auto simp: db_inv_def t put_group_def m'_def [symmetric] mem_step_def)
qed

lemma WAL_seg_mono:
  "WAL_Rotate w os = (r, w') \<Longrightarrow> w_seg w \<le> w_seg w'"
  "WAL_Append w ps os = (r, w') \<Longrightarrow> w_seg w \<le> w_seg w' \<and> (\<forall>seg. r = Inr seg \<longrightarrow> seg = w_seg w')"
  by (auto simp: WAL_Rotate_def WAL_Append_def rotateLocked_def syncLocked_def openSegment_def WAL_write_def Let_def
      split: if_splits option.splits sum.splits prod.splits)

lemma db_inv_wal: "db_inv d \<Longrightarrow> w_seg (d_wal d) \<le> w_seg w \<Longrightarrow> db_inv (d\<lparr>d_wal := w\<rparr>)"
  by (simp add: db_inv_def)

lemma makeRoom_keeps:
  "makeRoom d os = Some (e, d') \<Longrightarrow> db_inv d \<Longrightarrow> db_inv d' \<and> db_abs d' = db_abs d \<and> d_seq d' = d_seq d \<and> d_closed d' = d_closed d"
  using WAL_seg_mono(1) [of "d_wal d" os]
  by (auto simp: makeRoom_def db_abs_def split: if_splits sum.splits prod.splits intro: db_inv_wal)

lemma db_commit_refines:
  assumes c: "db_commit d bs rnd os1 os2 = Some (e, d')" and inv: "db_inv d"
    and ops: "ops_ok (group_ops bs)" and sq: "unat (d_seq d) + length (group_ops bs) < 2 ^ 56"
  shows "db_inv d' \<and> d_closed d' = d_closed d \<and> db_abs d' = (if e = None then foldl apply_op (db_abs d) (group_ops bs) else db_abs d)"
proof -
  obtain e1 d1 where m: "makeRoom d os1 = Some (e1, d1)" using c by (auto simp: db_commit_def Let_def split: option.splits)
  have k: "db_inv d1" "db_abs d1 = db_abs d" "d_seq d1 = d_seq d" "d_closed d1 = d_closed d" using makeRoom_keeps [OF m inv] by auto
  show ?thesis
  proof (cases e1)
    case (Some x)
    then show ?thesis using c m k by (auto simp: db_commit_def Let_def)
  next
    case None
    obtain r w where a: "WAL_Append (d_wal d1) (encode_group (d_seq d) bs) os2 = (r, w)" by (cases "WAL_Append (d_wal d1) (encode_group (d_seq d) bs) os2")
    have i1: "db_inv (d1\<lparr>d_wal := w\<rparr>)" using db_inv_wal k(1) WAL_seg_mono(2) [OF a] by blast
    have ab: "db_abs (d1\<lparr>d_wal := w\<rparr>) = db_abs d" using k(2) by (simp add: db_abs_def)
    show ?thesis
    proof (cases r)
      case (Inl x)
      then show ?thesis using c m None a i1 ab k(4) by (auto simp: db_commit_def Let_def)
    next
      case (Inr seg)
      have sg: "w_seg (d_wal (d1\<lparr>d_wal := w\<rparr>)) = seg" using WAL_seg_mono(2) [OF a] Inr by simp
      have d': "d' = put_group (follow_segment (d1\<lparr>d_wal := w\<rparr>) seg rnd) bs" "e = None"
        using c m None a Inr by (auto simp: db_commit_def Let_def)
      note f = follow_segment_tiers [OF i1 sg, of rnd]
      have "unat (d_seq (follow_segment (d1\<lparr>d_wal := w\<rparr>) seg rnd)) + length (group_ops bs) < 2 ^ 56" using f(3) k(3) sq by simp
      from put_group_tiers [OF f(1) ops this] show ?thesis using d' f(2,5) ab k(4) by simp
    qed
  qed
qed

lemma db_Write_refines:
  assumes c: "db_Write d bs rnd os1 os2 = Some (e, d')" and inv: "db_inv d"
    and ops: "ops_ok (group_ops bs)" and sq: "unat (d_seq d) + length (group_ops bs) < 2 ^ 56" and ne: "bs \<noteq> []" "b_ops (hd bs) \<noteq> []"
  shows "db_inv d' \<and> d_closed d' = d_closed d \<and> db_abs d' = (if e = None then foldl apply_op (db_abs d) (group_ops bs) else db_abs d)"
proof -
  have "op_key op \<noteq> []" if "op \<in> set (b_ops (hd bs))" for op
    using ops that ne(1) by (cases bs) (auto simp: ops_ok_def group_ops_def)
  then have "db_commit d bs rnd os1 os2 = Some (e, d')"
    using c ne(2) by (auto simp: db_Write_def Batch_Len_def split: if_splits)
  then show ?thesis by (rule db_commit_refines [OF _ inv ops sq])
qed

section \<open>A new engine\<close>

lemma newMemtable_fields [simp]: "mt_size (newMemtable rnd seg) = 0" "mt_seg (newMemtable rnd seg) = seg" "mt_maxSeq (newMemtable rnd seg) = 0"
  by (simp_all add: newMemtable_def)

definition new_db :: "Options \<Rightarrow> u64 \<Rightarrow> db" where
  "new_db opts rnd =
     \<lparr>d_opts = withDefaults opts, d_wal = fresh_wal (nat (o_memtableSize (withDefaults opts) * 4)) (o_syncAlways opts),
      d_files = [], d_manifest = None, d_current = newVersion (newMemtable rnd 1) [] [], d_nextNum = 1, d_closed = False,
      d_bgErr = None, d_seq = 0, d_flushes = 0, d_compactions = 0, d_flushedSeq = 0\<rparr>"

lemma Open_new: "Open opts [] None [] rand os_ok = Inr (new_db opts (rand_next rand))"
proof -
  have "o_memtableSize (withDefaults opts) > 0" "o_syncAlways (withDefaults opts) = o_syncAlways opts" by (simp_all add: withDefaults_def)
  then show ?thesis
    by (simp add: Open_def readManifest_def removeStrayTables_def Let_def OpenWAL_def listSegments_def openSegment_def os_ok_def
        DeleteBefore_ok wal_discard_def new_db_def fresh_wal_def)
qed

lemma new_db_inv: "db_inv (new_db opts rnd)"
  by (simp add: db_inv_def new_db_def tiers_def newVersion_def tier_ok_def sorted_entries_def fresh_wal_def)

lemma new_db_abs: "db_abs (new_db opts rnd) = (\<lambda>k. None)"
  by (rule ext) (simp add: db_abs_def new_db_def tiers_def newVersion_def tiers_map_def val_of_def)

section \<open>Properties\<close>

text \<open>
  C3: a read sees exactly what was written. \<open>Write\<close> on an engine in a good state leaves it in a good state;
  when it reports success every later \<open>Get\<close> answers from the old contents with all operations of the group
  applied in order, puts binding and deletes unbinding, and when it reports an error from the contents
  before. The sequence numbers of the group must still fit in the 56 bits the keys keep of them.
\<close>

theorem write_then_get:
  assumes "db_inv d" and "\<not> d_closed d" and "db_Write d bs rnd os1 os2 = Some (e, d')"
    and "bs \<noteq> []" and "b_ops (hd bs) \<noteq> []" and "ops_ok (group_ops bs)" and "unat (d_seq d) + length (group_ops bs) < 2 ^ 56"
  shows "db_inv d' \<and> (\<forall>k. db_Get d' k = Some (lookup_result
           (if e = None then foldl apply_op (db_abs d) (group_ops bs) k else db_abs d k)))"
proof -
  have "db_inv d' \<and> d_closed d' = d_closed d \<and> db_abs d' = (if e = None then foldl apply_op (db_abs d) (group_ops bs) else db_abs d)"
    by (rule db_Write_refines [OF assms(3,1,6,7,4,5)])
  then show ?thesis using db_Get_abs [of d'] assms(2) by (cases e) simp_all
qed

theorem write_then_get_witness:
  "\<exists>d d1. Open \<lparr>o_memtableSize = 0, o_blockSize = 0, o_syncAlways = True\<rparr> [] None [] [] os_ok = Inr d
     \<and> db_Write d [Batch_Delete (Batch_Put (Batch_Put emptyBatch [1] [10]) [2] [20]) [1]] 0 os_ok os_ok = Some (None, d1)
     \<and> db_Get d1 [1] = Some (Inl ErrNotFound) \<and> db_Get d1 [2] = Some (Inr [20])"
proof -
  let ?o = "\<lparr>o_memtableSize = 0, o_blockSize = 0, o_syncAlways = True\<rparr>"
  let ?bs = "[Batch_Delete (Batch_Put (Batch_Put emptyBatch [1] [10]) [2] [20]) [1]]" and ?d = "new_db ?o 0"
  have o: "Open ?o [] None [] [] os_ok = Inr ?d" using Open_new [of ?o "[]"] by (simp add: rand_next_def)
  obtain d1 where w: "db_Write ?d ?bs 0 os_ok os_ok = Some (None, d1)"
    by (simp add: db_Write_def Batch_Len_def Batch_Delete_def Batch_Put_def emptyBatch_def db_commit_def makeRoom_def new_db_def withDefaults_def
        WAL_Append_def fresh_wal_def WAL_write_def os_ok_def Let_def syncLocked_def Batch_encode_def newVersion_def)
  have g: "group_ops ?bs = [\<lparr>op_kind = kindPut, op_key = [1], op_value = [10]\<rparr>, \<lparr>op_kind = kindPut, op_key = [2], op_value = [20]\<rparr>,
      \<lparr>op_kind = kindDelete, op_key = [1], op_value = []\<rparr>]"
    by (simp add: group_ops_def Batch_Delete_def Batch_Put_def emptyBatch_def)
  have "\<forall>k. db_Get d1 k = Some (lookup_result (if None = (None::db_error option) then foldl apply_op (db_abs ?d) (group_ops ?bs) k else db_abs ?d k))"
    using write_then_get [OF new_db_inv _ w] unfolding g
    by (simp add: new_db_def ops_ok_def Batch_Delete_def Batch_Put_def)
  then show ?thesis using o w unfolding g new_db_abs
    by (simp add: apply_op_def lookup_result_def kindPut_def kindDelete_def)
qed

end
