(* ===== verification/Db_Flush.thy ===== *)
theory Db_Flush
  imports Db_Refine
begin

text \<open>
  The background work keeps the contents: writing a stream into a table keeps the first entry of every
  user key, a flush puts the oldest immutable memtable in front of the tables, and a compaction replaces a
  run of adjacent tables by their merge, without the tombstones when nothing older is left below.
\<close>

section \<open>What a written table keeps\<close>

fun kept :: "bool \<Rightarrow> bytes \<Rightarrow> entry list \<Rightarrow> entry list" where
  "kept dr lst [] = []"
| "kept dr lst (e # es) =
     (if userKey (fst e) = lst then kept dr lst es
      else if dr \<and> key_kind (fst e) = kindDelete then kept dr (userKey (fst e)) es
      else e # kept dr (userKey (fst e)) es)"

lemma kept_in: "x \<in> set (kept dr lst es) \<Longrightarrow> x \<in> set es"
  by (induction es arbitrary: lst) (auto split: if_splits simp del: split_paired_All)

lemma length_kept: "length (kept dr lst es) \<le> length es"
  by (induction es arbitrary: lst) (auto intro: le_SucI)

lemma sorted_kept: "sorted_entries es \<Longrightarrow> sorted_entries (kept dr lst es)"
proof (induction es arbitrary: lst)
  case (Cons e es)
  then show ?case using kept_in [of _ dr "userKey (fst e)" es] by (auto simp: sorted_entries_def simp del: split_paired_All)
qed simp

lemma find_kept: "k \<noteq> lst \<Longrightarrow> find (for_key k) (kept False lst es) = find (for_key k) es"
proof (induction es arbitrary: lst)
  case (Cons e es)
  then show ?case by (cases "userKey (fst e) = k") (auto simp: for_key_def)
qed simp

lemma user_before: "bytes_compare (userKey (fst a)) (userKey (fst b)) < 0 \<Longrightarrow> entry_before a (fst b)"
  by (auto simp: entry_before_def compareInternalKey_def)

lemma find_none: "\<forall>x \<in> set xs. \<not> P x \<Longrightarrow> find P xs = None"
  by (induction xs) auto

lemma kept_gone:
  assumes "sorted_entries es" and "\<forall>e \<in> set es. \<not> bytes_compare (userKey (fst e)) k < 0"
  shows "find (for_key k) (kept dr k es) = None"
  using assms
proof (induction es)
  case (Cons e es)
  show ?case
  proof (cases "userKey (fst e) = k")
    case False
    have "userKey (fst x) \<noteq> k" if x: "x \<in> set es" for x
    proof
      assume "userKey (fst x) = k"
      moreover have "\<not> entry_before x (fst e)" using Cons.prems(1) x by (simp add: sorted_entries_def)
      moreover have "bytes_compare k (userKey (fst e)) < 0"
        using False Cons.prems(2) by (metis bytes_compare_total list.set_intros(1))
      ultimately show False using user_before by metis
    qed
    then have "\<forall>x \<in> set (kept dr (userKey (fst e)) es). \<not> for_key k x" using kept_in by (metis for_key_def)
    then have "find (for_key k) (kept dr (userKey (fst e)) es) = None" by (rule find_none)
    moreover have "\<not> for_key k e" using False by (simp add: for_key_def)
    ultimately show ?thesis using False by auto
  qed (use Cons in \<open>simp add: sorted_entries_def\<close>)
qed simp

lemma val_kept:
  assumes "sorted_entries es" and "k \<noteq> lst"
  shows "val_of (find (for_key k) (kept True lst es)) = val_of (find (for_key k) es)"
  using assms
proof (induction es arbitrary: lst)
  case (Cons e es)
  have s: "sorted_entries es" "\<And>x. x \<in> set es \<Longrightarrow> \<not> entry_before x (fst e)" using Cons.prems(1) by (simp_all add: sorted_entries_def)
  show ?case
  proof (cases "userKey (fst e) = k")
    case True
    have "\<forall>x \<in> set es. \<not> bytes_compare (userKey (fst x)) k < 0" using s(2) user_before True by metis
    then have "find (for_key k) (kept True k es) = None" by (rule kept_gone [OF s(1)])
    moreover have "for_key k e" using True by (simp add: for_key_def)
    ultimately show ?thesis using True Cons.prems(2) by (simp add: val_of_def)
  next
    case False
    moreover have "\<not> for_key k e" using False by (simp add: for_key_def)
    ultimately show ?thesis using Cons.IH [OF s(1)] Cons.prems(2) by simp
  qed
qed simp

lemma fold_write_body:
  "snd (fold (\<lambda>e. write_body dr (fst e) (snd e)) es (lst, w)) = add_all w (kept dr lst es)"
proof (induction es arbitrary: lst w)
  case (Cons e es)
  then show ?case by (auto simp: write_body_def splitInternalKey_conv add_all_def)
qed (simp add: add_all_def)

context internal_iter
begin

lemma write_stream_kept:
  assumes "inv it" and "length (entries it) \<le> fuel"
    and w: "w = add_all (newTableWriter num bs) (kept dr [] (entries it))"
  shows "write_stream ops fuel num bs dr it = Inr (fst (tableWriter_finish w), file_of w)"
proof -
  obtain it' s where l: "iter_loop ops (write_body dr) fuel (it_seekToFirst ops it) ([], newTableWriter num bs) = (it', s)"
    by (cases "iter_loop ops (write_body dr) fuel (it_seekToFirst ops it) ([], newTableWriter num bs)")
  have "inv it'" "snd s = w"
    using iter_loop_all [OF assms(1,2), of "write_body dr" "([], newTableWriter num bs)"] l fold_write_body [of dr "entries it" "[]" "newTableWriter num bs"]
    by (simp_all add: w)
  then show ?thesis using l close [of it'] by (cases s) (simp add: write_stream_def file_of_def split: prod.splits)
qed

end

lemma finish_num [simp]: "tm_num (fst (tableWriter_finish (add_all (newTableWriter num bs) es))) = num"
proof -
  have b: "tw_meta (snd (writeBlock w b)) = tw_meta w" for w b by (simp add: writeBlock_def Let_def)
  have f: "tw_meta (flushBlock w) = tw_meta w" for w by (simp add: flushBlock_def Let_def writeBlock_def)
  have p: "tw_meta (add_pending w) = tw_meta w" for w by (simp add: add_pending_def)
  have a: "tm_num (tw_meta (tableWriter_add w k v)) = tm_num (tw_meta w)" for w k v
    by (simp add: tableWriter_add_def Let_def count_entry_def f p)
  have "tm_num (tw_meta (add_all w es)) = tm_num (tw_meta w)" for w
    by (induction es arbitrary: w) (simp_all add: add_all_def a)
  moreover have "tm_num (fst (tableWriter_finish w)) = tm_num (tw_meta w)" for w
    by (simp add: tableWriter_finish_def Let_def case_prod_beta b f p)
  ultimately show ?thesis by (simp add: newTableWriter_def)
qed

section \<open>Writing a table\<close>

definition small_stream :: "entry list \<Rightarrow> bool" where
  "small_stream es \<longleftrightarrow> 10 * length es + 71 < 2 ^ 32 \<and> (\<forall>e \<in> set es. length (fst e) < 2 ^ 32)"

definition small_files :: "db \<Rightarrow> bool" where
  "small_files d \<longleftrightarrow> (\<forall>f \<in> set (d_files d). length (snd f) < 2 ^ 32)"

lemma meta_all: "meta_inv (fst (tableWriter_finish (add_all (newTableWriter num bs) es))) es"
proof -
  obtain cs cur where w: "tw_inv (add_all (newTableWriter num bs) es) cs cur" "concat cs @ cur = es"
      "meta_inv (tw_meta (add_all (newTableWriter num bs) es)) (concat cs @ cur)"
    using add_all_inv [of "newTableWriter num bs" "[]" "[]" es] tw_inv_new [of num bs] by auto
  show ?thesis using tableWriter_finish_inv [OF w(1,3)] w(2) by metis
qed

definition table_of :: "u64 \<Rightarrow> entry list \<Rightarrow> table option \<Rightarrow> bool" where
  "table_of num es out \<longleftrightarrow>
     (case out of None \<Rightarrow> es = [] | Some t \<Rightarrow> table_good t \<and> table_entries t = es \<and> table_num t = num)"

lemma small_kept: "small_stream es \<Longrightarrow> small_stream (kept dr lst es)"
  using length_kept [of dr lst es] kept_in [of _ dr lst es] by (auto simp: small_stream_def simp del: split_paired_All)

lemma engine_wf: "engine_key (fst e) \<Longrightarrow> wf_entry e"
  by (auto simp: engine_key_def wf_entry_def)

context internal_iter
begin

lemma writeTable_out:
  assumes it: "inv it" "length (entries it) \<le> fuel" and e: "\<forall>e \<in> set (entries it). engine_key (fst e)"
    and s: "small_stream (entries it)" and r: "writeTableFiltered d ops fuel it dr io = (Inr out, d1)"
    and f: "\<forall>b. (d_nextNum d, b) \<in> set (d_files d1) \<longrightarrow> length b < 2 ^ 32"
  shows "table_of (d_nextNum d) (kept dr [] (entries it)) out"
proof -
  let ?es = "kept dr [] (entries it)"
  let ?w = "add_all (newTableWriter (d_nextNum d) (nat (o_blockSize (d_opts d)))) ?es"
  let ?m = "fst (tableWriter_finish ?w)"
  have io: io using r by (auto simp: writeTableFiltered_def allocNum_def split: if_splits)
  have c: "tm_count ?m = word_of_nat (length ?es)" using meta_all by (simp add: meta_inv_def)
  have len: "length ?es < 2 ^ 32" using small_kept [OF s, of dr "[]"] by (simp add: small_stream_def)
  have z: "tm_count ?m = 0 \<longleftrightarrow> ?es = []" unfolding c using len by (auto simp: word_of_nat_eq_0_iff dest: dvd_imp_le)
  have ws: "write_stream ops fuel (d_nextNum d) (nat (o_blockSize (d_opts d))) dr it = Inr (?m, file_of ?w)"
    by (rule write_stream_kept [OF it refl])
  show ?thesis
  proof (cases "?es = []")
    case True
    then have "out = None" using r io ws z by (simp add: writeTableFiltered_def allocNum_def)
    then show ?thesis using True by (simp add: table_of_def)
  next
    case False
    then have "(d_nextNum d, file_of ?w) \<in> set (d_files d1)"
      using r io ws z by (auto simp: writeTableFiltered_def allocNum_def split: sum.splits)
    then have fl: "length (file_of ?w) < 2 ^ 32" using f by blast
    have k: "\<forall>x \<in> set ?es. engine_key (fst x)" using kept_in e by metis
    have "stream_ok ?es"
      using small_kept [OF s, of dr "[]"] sorted_kept [OF entries_sorted [OF it(1)]] k engine_wf
      by (auto simp: stream_ok_def small_stream_def simp del: split_paired_All)
    then obtain cs where cs: "tb_ok (opened_table ?m cs) cs" "concat cs = ?es" "openTable ?m (file_of ?w) = Inr (opened_table ?m cs)"
      using written_table [OF _ fl, of ?m] by blast
    then have "out = Some (opened_table ?m cs)" using r io ws z False by (simp add: writeTableFiltered_def allocNum_def)
    moreover have "table_good (opened_table ?m cs)" unfolding table_good_def using cs(1,2) k by metis
    ultimately show ?thesis using table_entries_ok [OF cs(1)] cs(2) by (simp add: table_of_def table_num_def opened_table_def)
  qed
qed

end

lemma writeTable_state:
  "writeTableFiltered d ops fuel it dr io = (r, d1) \<Longrightarrow> d1 = d\<lparr>d_nextNum := d_nextNum d + 1, d_files := d_files d1\<rparr>"
  by (auto simp: writeTableFiltered_def allocNum_def Let_def split: if_splits sum.splits prod.splits)

section \<open>Replacing tiers\<close>

definition out_tiers :: "table option \<Rightarrow> entry list list" where
  "out_tiers out = (case out of None \<Rightarrow> [] | Some t \<Rightarrow> [table_entries t])"

lemma out_tiers_of: "table_of num es out \<Longrightarrow> out_tiers out = (if out = None then [] else [es]) \<and> concat (out_tiers out) = es"
  by (auto simp: table_of_def out_tiers_def split: option.splits)

lemma replace_tiers:
  assumes "sorted_wrt newer (pre @ mid @ post)" and "\<forall>T \<in> set (pre @ mid @ post). tier_ok q T"
    and "set es \<subseteq> set (concat mid)" and "sorted_entries es" and "mid' = [] \<or> mid' = [es]"
  shows "sorted_wrt newer (pre @ mid' @ post) \<and> (\<forall>T \<in> set (pre @ mid' @ post). tier_ok q T)"
proof -
  have in_mid: "\<exists>T \<in> set mid. e \<in> set T" if "e \<in> set es" for e using assms(3) that by auto
  have "newer T es" if "T \<in> set pre" for T
    unfolding newer_def
  proof (intro ballI impI)
    fix e f assume ef: "e \<in> set T" "f \<in> set es" "userKey (fst e) = userKey (fst f)"
    obtain M where M: "M \<in> set mid" "f \<in> set M" using in_mid [OF ef(2)] by blast
    have "newer T M" using assms(1) that M(1) by (simp add: sorted_wrt_append)
    then show "key_seq (fst f) < key_seq (fst e)" using ef M(2) by (simp add: newer_def)
  qed
  moreover have "newer es U" if "U \<in> set post" for U
    unfolding newer_def
  proof (intro ballI impI)
    fix e f assume ef: "e \<in> set es" "f \<in> set U" "userKey (fst e) = userKey (fst f)"
    obtain M where M: "M \<in> set mid" "e \<in> set M" using in_mid [OF ef(1)] by blast
    have "newer M U" using assms(1) that M(1) by (simp add: sorted_wrt_append)
    then show "key_seq (fst f) < key_seq (fst e)" using ef M(2) by (simp add: newer_def)
  qed
  moreover have "tier_ok q es"
  proof -
    have "engine_key (fst e) \<and> key_seq (fst e) \<le> q \<and> userKey (fst e) \<noteq> []" if e: "e \<in> set es" for e
    proof -
      obtain M where "M \<in> set mid" "e \<in> set M" using in_mid [OF e] by blast
      moreover from this(1) have "tier_ok q M" using assms(2) by simp
      ultimately show ?thesis unfolding tier_ok_def by blast
    qed
    then show ?thesis using assms(4) unfolding tier_ok_def by blast
  qed
  ultimately show ?thesis using assms(1,2,5) by (auto simp: sorted_wrt_append)
qed

lemma replace_tiers_map:
  assumes "\<And>k. find (for_key k) (concat mid') = find (for_key k) (concat mid)"
  shows "tiers_map (pre @ mid' @ post) = tiers_map (pre @ mid @ post)"
  by (rule ext) (auto simp: tiers_map_def find_append assms split: option.splits)

lemma replace_last_tiers_map:
  assumes "\<And>k. val_of (find (for_key k) (concat mid')) = val_of (find (for_key k) (concat mid))"
  shows "tiers_map (pre @ mid') = tiers_map (pre @ mid)"
  by (rule ext) (auto simp: tiers_map_def find_append assms split: option.splits)

lemma find_kept_all:
  assumes "\<forall>e \<in> set es. userKey (fst e) \<noteq> []"
  shows "find (for_key k) (kept False [] es) = find (for_key k) es"
proof (cases "k = []")
  case True
  have "\<forall>e \<in> set es. \<not> for_key k e" using assms True by (simp add: for_key_def)
  moreover from this have "\<forall>e \<in> set (kept False [] es). \<not> for_key k e" using kept_in by metis
  ultimately show ?thesis by (simp only: find_none)
qed (rule find_kept)

lemma val_kept_all:
  assumes "\<forall>e \<in> set es. userKey (fst e) \<noteq> []" and "sorted_entries es"
  shows "val_of (find (for_key k) (kept True [] es)) = val_of (find (for_key k) es)"
proof (cases "k = []")
  case True
  have "\<forall>e \<in> set es. \<not> for_key k e" using assms True by (simp add: for_key_def)
  moreover from this have "\<forall>e \<in> set (kept True [] es). \<not> for_key k e" using kept_in by metis
  ultimately show ?thesis by (simp only: find_none)
qed (rule val_kept [OF assms(2)])

lemma db_inv_same:
  "db_inv d \<Longrightarrow> d_current d' = d_current d \<Longrightarrow> w_seg (d_wal d') = w_seg (d_wal d) \<Longrightarrow> d_seq d' = d_seq d \<Longrightarrow> d_nextNum d \<le> d_nextNum d'
    \<Longrightarrow> db_inv d'"
  by (auto simp: db_inv_def intro: less_le_trans)

section \<open>Flush\<close>

lemma mem_child_iter:
  assumes "mt_inv m"
  shows "child_inv (mem_child m)" "child_entries (mem_child m) = mt_entries m" "child_rest (mem_child m) = []"
    "length (mt_entries m) \<le> child_size (mem_child m)"
proof -
  have s: "sl_inv (mt_list m)" using assms by (simp add: mt_inv_def)
  show "child_inv (mem_child m)"
    using si_invI [OF s, of None "length (addresses_from (mt_list m) (skiplist_first (mt_list m)))"] addresses_from_None [of "mt_list m"]
    by (simp add: mem_child_def memtable_iter_def)
  show "child_entries (mem_child m) = mt_entries m" "child_rest (mem_child m) = []"
    using addresses_from_None by (simp_all add: mem_child_def memtable_iter_def si_entries_def si_rest_def mt_entries_def entries_from_def)
  obtain lv as where "sl_rep (s_nodes (mt_list m)) (s_height (mt_list m)) lv as" "sl_entries (mt_list m) = map (entry_of (s_nodes (mt_list m))) as"
    using s by (rule sl_invE)
  then show "length (mt_entries m) \<le> child_size (mem_child m)"
    using sl_rep_length by (simp add: mem_child_def memtable_iter_def mt_entries_def)
qed

lemma flush_version:
  assumes inv: "db_inv d" and imm: "v_imm (d_current d) = m # ms"
    and t: "table_of (d_nextNum d) (kept False [] (mt_entries m)) out" and n: "d_nextNum d < d_nextNum d + 1"
    and d': "d_current d' = withFlushed (d_current d) m out" "w_seg (d_wal d') = w_seg (d_wal d)" "d_seq d' = d_seq d"
      "d_nextNum d' = d_nextNum d + 1"
  shows "db_inv d' \<and> db_abs d' = db_abs d"
proof -
  let ?v = "d_current d" and ?es = "kept False [] (mt_entries m)"
  define pre where "pre = mt_entries (v_mem ?v) # map mt_entries (rev ms)"
  define post where "post = map table_entries (v_tables ?v)"
  have "m \<notin> set ms" using inv imm by (auto simp: db_inv_def)
  then have ms: "filter (\<lambda>x. x \<noteq> m) (m # ms) = ms" by (auto intro: filter_True)
  have v': "v_mem (withFlushed ?v m out) = v_mem ?v" "v_imm (withFlushed ?v m out) = ms"
      "v_tables (withFlushed ?v m out) = (case out of None \<Rightarrow> [] | Some t \<Rightarrow> [t]) @ v_tables ?v"
    using ms imm by (simp_all add: withFlushed_def newVersion_def split: option.splits)
  have t0: "tiers ?v = pre @ [mt_entries m] @ post" using imm by (simp add: tiers_def pre_def post_def)
  have t1: "tiers (withFlushed ?v m out) = pre @ out_tiers out @ post"
    by (simp add: tiers_def v' pre_def post_def out_tiers_def split: option.splits)
  have o: "out_tiers out = [] \<or> out_tiers out = [?es]" "concat (out_tiers out) = ?es" using out_tiers_of [OF t] by auto
  have ok: "sorted_wrt newer (pre @ [mt_entries m] @ post)" "\<forall>T \<in> set (pre @ [mt_entries m] @ post). tier_ok (d_seq d) T"
    using inv unfolding db_inv_def t0 by blast+
  have m: "tier_ok (d_seq d) (mt_entries m)" using ok(2) by simp
  have "sorted_wrt newer (pre @ out_tiers out @ post) \<and> (\<forall>T \<in> set (pre @ out_tiers out @ post). tier_ok (d_seq d) T)"
    by (rule replace_tiers [OF ok _ _ o(1)]) (use kept_in sorted_kept m in \<open>auto simp: tier_ok_def simp del: split_paired_All\<close>)
  moreover have "\<forall>t \<in> set (v_tables (withFlushed ?v m out)). table_good t \<and> table_num t < d_nextNum d + 1"
    using inv t n by (auto simp: v' db_inv_def table_of_def split: option.splits intro: less_trans)
  moreover have "distinct (map table_num (v_tables (withFlushed ?v m out)))"
    using inv t by (auto simp: v' db_inv_def table_of_def split: option.splits)
  ultimately have "db_inv d'" using inv imm by (simp add: db_inv_def d' t1 v')
  moreover have "tiers_map (pre @ out_tiers out @ post) = tiers_map (pre @ [mt_entries m] @ post)"
    by (rule replace_tiers_map) (use m in \<open>simp add: o(2) find_kept_all tier_ok_def\<close>)
  ultimately show ?thesis by (simp add: db_abs_def d' t0 t1)
qed

lemma delete_segments_fields:
  assumes "delete_segments d seg os = (e, d')"
  shows "d_current d' = d_current d" "w_seg (d_wal d') = w_seg (d_wal d)" "d_seq d' = d_seq d" "d_nextNum d' = d_nextNum d"
    "d_closed d' = d_closed d" "d_files d' = d_files d" "os_delete os = DelOk \<Longrightarrow> e = None"
  using assms DeleteBefore_fields(1) [of "d_wal d" seg os] DeleteBefore_ok [of os "d_wal d" seg]
  by (auto simp: delete_segments_def split: prod.splits)

lemma db_flush_keeps:
  assumes inv: "db_inv d" and r: "db_flush d m io1 io2 os = (e, d')" and n: "d_nextNum d < d_nextNum d + 1"
    and s: "small_stream (mt_entries m)" and f: "small_files d'"
  shows "db_inv d' \<and> db_abs d' = db_abs d \<and> d_closed d' = d_closed d"
proof (cases "v_imm (d_current d) = [] \<or> hd (v_imm (d_current d)) \<noteq> m")
  case True
  then show ?thesis using r inv by (simp add: db_flush_def)
next
  case False
  then obtain ms where imm: "v_imm (d_current d) = m # ms" by (cases "v_imm (d_current d)") auto
  have mi: "mt_inv m" using inv imm by (simp add: db_inv_def)
  obtain o1 d1 where w: "writeTableFiltered d child_ops (child_size (mem_child m)) (mem_child m) False io1 = (o1, d1)"
    by (cases "writeTableFiltered d child_ops (child_size (mem_child m)) (mem_child m) False io1")
  have d1: "d1 = d\<lparr>d_nextNum := d_nextNum d + 1, d_files := d_files d1\<rparr>" by (rule writeTable_state [OF w])
  have fields: "d_current d1 = d_current d" "d_wal d1 = d_wal d" "d_seq d1 = d_seq d" "d_closed d1 = d_closed d" "d_nextNum d1 = d_nextNum d + 1"
    by (subst d1, simp)+
  have same: "db_inv x \<and> db_abs x = db_abs d \<and> d_closed x = d_closed d"
    if "d_current x = d_current d" "d_wal x = d_wal d" "d_seq x = d_seq d" "d_closed x = d_closed d" "d_nextNum x = d_nextNum d + 1" for x
    using db_inv_same [OF inv, of x] that n by (simp add: db_abs_def)
  show ?thesis
  proof (cases o1)
    case (Inl x)
    then have "d' = d1" using r imm w by (simp add: db_flush_def)
    then show ?thesis using same fields by simp
  next
    case (Inr out)
    have "d_files d' = d_files d1"
      using r imm w Inr by (auto simp: db_flush_def Let_def writeManifest_def install_def split: if_splits dest: delete_segments_fields(6))
    then have f1: "\<forall>b. (d_nextNum d, b) \<in> set (d_files d1) \<longrightarrow> length b < 2 ^ 32" using f by (auto simp: small_files_def)
    have t: "table_of (d_nextNum d) (kept False [] (mt_entries m)) out"
      using chi.writeTable_out [OF mem_child_iter(1) [OF mi], of "child_size (mem_child m)" d False io1 out d1] mem_child_iter [OF mi] mi s w Inr f1
      by (simp add: mt_inv_def)
    show ?thesis
    proof (cases io2)
      case False
      then have "d_current d' = d_current d" "d_wal d' = d_wal d" "d_seq d' = d_seq d" "d_closed d' = d_closed d" "d_nextNum d' = d_nextNum d + 1"
        using r imm w Inr fields by (auto simp: db_flush_def Let_def writeManifest_def)
      then show ?thesis by (rule same)
    next
      case True
      then have "d_current d' = withFlushed (d_current d) m out" "w_seg (d_wal d') = w_seg (d_wal d)" "d_seq d' = d_seq d"
          "d_nextNum d' = d_nextNum d + 1" "d_closed d' = d_closed d"
        using r imm w Inr fields by (auto simp: db_flush_def Let_def writeManifest_def install_def dest: delete_segments_fields(1-5))
      then show ?thesis using flush_version [OF inv imm t n, of d'] by simp
    qed
  qed
qed

end
