(* ===== verification/Db_Compact.thy ===== *)
theory Db_Compact
  imports Db_Flush
begin

text \<open>
  Compaction (\<open>src/storage/compaction.go\<close>): the run that is picked is a stretch of age-adjacent tables, and
  replacing it by its merge keeps the contents of the engine. The last section puts writes, flushes and
  compactions together into executions of the engine.
\<close>

section \<open>Picking a run\<close>

definition run_of :: "table list \<Rightarrow> table list \<Rightarrow> bool" where
  "run_of tables run \<longleftrightarrow> minRun \<le> length run \<and> (\<exists>pre post. tables = pre @ run @ post)"

lemma run_length_le: "run_length t ts \<le> length (t # ts)"
  by (simp add: run_length_def length_takeWhile_le)

lemma best_run_run:
  "best = [] \<or> run_of (pre @ ts) best \<Longrightarrow> best_run best ts = [] \<or> run_of (pre @ ts) (best_run best ts)"
proof (induction best ts arbitrary: pre rule: best_run.induct)
  case (2 best t ts)
  let ?n = "run_length t ts" and ?ts = "t # ts"
  define b where "b = (if ?n \<ge> minRun \<and> ?n \<ge> length best then take ?n ?ts else best)"
  have split: "pre @ ?ts = (pre @ take ?n ?ts) @ drop ?n ?ts" by simp
  have "b = [] \<or> run_of (pre @ ?ts) b"
  proof (cases "?n \<ge> minRun \<and> ?n \<ge> length best")
    case True
    then have "minRun \<le> length (take ?n ?ts)" using run_length_le [of t ts] by simp
    moreover have "pre @ ?ts = pre @ take ?n ?ts @ drop ?n ?ts" by simp
    ultimately have "run_of (pre @ ?ts) (take ?n ?ts)" unfolding run_of_def by blast
    then show ?thesis using True by (simp only: b_def if_True simp_thms)
  next
    case False
    then show ?thesis using "2.prems" by (simp only: b_def if_False)
  qed
  moreover have eq: "best_run best ?ts = best_run b (drop ?n ?ts)" by (simp only: best_run.simps Let_def b_def)
  moreover have "best_run b (drop ?n ?ts) = [] \<or> run_of ((pre @ take ?n ?ts) @ drop ?n ?ts) (best_run b (drop ?n ?ts))"
    if "b = [] \<or> run_of ((pre @ take ?n ?ts) @ drop ?n ?ts) b"
    using that unfolding b_def by (rule "2.IH" [OF refl refl])
  ultimately show ?case unfolding split [symmetric] by simp
qed simp

lemma cheapest_window_run:
  "best = None \<or> (\<exists>w. best = Some w \<and> run_of (pre @ ts) w)
    \<Longrightarrow> cheapest_window best s ts = None \<or> (\<exists>w. cheapest_window best s ts = Some w \<and> run_of (pre @ ts) w)"
proof (induction ts arbitrary: best s pre)
  case (Cons t ts)
  let ?w = "take minRun (t # ts)"
  show ?case
  proof (cases "length (t # ts) < minRun")
    case False
    have "run_of (pre @ t # ts) ?w"
      unfolding run_of_def using False by (intro conjI exI [of _ pre] exI [of _ "drop minRun (t # ts)"]) simp_all
    then show ?thesis
      using False Cons.IH [of "Some ?w" "pre @ [t]"] Cons.IH [of best "pre @ [t]"] Cons.prems by (simp add: Let_def)
  qed (use Cons.prems in \<open>simp\<close>)
qed simp

definition run_size :: "table list \<Rightarrow> u64" where
  "run_size w = sum_list (map (\<lambda>u. tm_size (tb_meta u)) w)"

lemma cheapest_window_min:
  "cheapest_window best s ts = Some w \<Longrightarrow> (\<forall>b. best = Some b \<longrightarrow> s = run_size b)
    \<Longrightarrow> (best \<noteq> None \<longrightarrow> run_size w \<le> s) \<and> (\<forall>i. i + minRun \<le> length ts \<longrightarrow> run_size w \<le> run_size (take minRun (drop i ts)))"
proof (induction ts arbitrary: best s)
  case Nil
  then show ?case by (simp add: minRun_def)
next
  case (Cons t ts)
  let ?w = "take minRun (t # ts)"
  show ?case
  proof (cases "length (t # ts) < minRun")
    case False
    define best' where "best' = (if best = None \<or> run_size ?w < s then Some ?w else best)"
    define s' where "s' = (if best = None \<or> run_size ?w < s then run_size ?w else s)"
    have "cheapest_window best' s' ts = Some w"
      using Cons.prems(1) False by (auto simp: best'_def s'_def run_size_def Let_def split: if_splits)
    moreover have "\<forall>b. best' = Some b \<longrightarrow> s' = run_size b" using Cons.prems(2) by (simp add: best'_def s'_def)
    ultimately have IH: "best' \<noteq> None \<longrightarrow> run_size w \<le> s'"
        "\<forall>i. i + minRun \<le> length ts \<longrightarrow> run_size w \<le> run_size (take minRun (drop i ts))"
      using Cons.IH by blast+
    have le: "run_size w \<le> run_size ?w" "best \<noteq> None \<longrightarrow> run_size w \<le> s"
      using IH(1) by (auto simp: best'_def s'_def split: if_splits)
    have "run_size w \<le> run_size (take minRun (drop i (t # ts)))" if "i + minRun \<le> length (t # ts)" for i
      using IH(2) le(1) that by (cases i) simp_all
    then show ?thesis using le(2) by blast
  qed (use Cons.prems in \<open>simp\<close>)
qed

lemma cheapest_window_length:
  "cheapest_window best s ts = Some w \<Longrightarrow> (\<And>b. best = Some b \<Longrightarrow> length b = minRun) \<Longrightarrow> length w = minRun"
proof (induction ts arbitrary: best s)
  case (Cons t ts)
  let ?w = "take minRun (t # ts)"
  show ?case
  proof (cases "length (t # ts) < minRun")
    case False
    then have l: "length ?w = minRun" by simp
    have "cheapest_window (Some ?w) (run_size ?w) ts = Some w \<or> cheapest_window best s ts = Some w"
      using Cons.prems(1) False by (simp add: Let_def run_size_def split: if_splits)
    then show ?thesis
    proof
      assume "cheapest_window (Some ?w) (run_size ?w) ts = Some w"
      from Cons.IH [OF this] l show ?thesis by simp
    next
      assume "cheapest_window best s ts = Some w"
      from Cons.IH [OF this] Cons.prems(2) show ?thesis by simp
    qed
  qed (use Cons.prems in \<open>simp\<close>)
qed simp

lemma cheapest_window_some: "best \<noteq> None \<or> minRun \<le> length ts \<Longrightarrow> cheapest_window best s ts \<noteq> None"
proof (induction ts arbitrary: best s)
  case (Cons t ts)
  show ?case
  proof (cases "length (t # ts) < minRun")
    case False
    show ?thesis using False Cons.IH [of "Some (take minRun (t # ts))"] Cons.IH [of best] by (cases best) (simp_all add: Let_def)
  qed (use Cons.prems in \<open>simp\<close>)
qed (simp add: minRun_def)

lemma pickCompaction_run:
  "pickCompaction tables = [] \<or> run_of tables (pickCompaction tables)"
  "maxTables < length tables \<Longrightarrow> pickCompaction tables \<noteq> []"
proof -
  have b: "best_run [] tables = [] \<or> run_of tables (best_run [] tables)" using best_run_run [of "[]" "[]" tables] by simp
  have c: "cheapest_window None 0 tables = None \<or> (\<exists>w. cheapest_window None 0 tables = Some w \<and> run_of tables w)"
    using cheapest_window_run [of None "[]" tables 0] by simp
  show "pickCompaction tables = [] \<or> run_of tables (pickCompaction tables)"
    using b c by (auto simp: pickCompaction_def Let_def)
  assume n: "maxTables < length tables"
  then have "cheapest_window None 0 tables \<noteq> None" using cheapest_window_some [of None tables 0] by (simp add: minRun_def maxTables_def)
  then show "pickCompaction tables \<noteq> []"
    using n c by (auto simp: pickCompaction_def Let_def run_of_def minRun_def)
qed

section \<open>Merging a run\<close>

lemma tab_child_iter:
  assumes "table_good t"
  shows "child_inv (tab_child t)" "child_entries (tab_child t) = table_entries t" "child_rest (tab_child t) = []"
    "length (table_entries t) \<le> child_size (tab_child t)"
proof -
  obtain cs where cs: "tb_ok t cs" using assms by (auto simp: table_good_def)
  note on = ti_on_abs [OF ti_on_iter [OF cs]]
  have t: "ti_t (table_iter t) = t" by (simp add: table_iter_def split: sum.splits)
  show "child_inv (tab_child t)" "child_entries (tab_child t) = table_entries t" "child_rest (tab_child t) = []"
    using on table_entries_ok [OF cs] by (simp_all add: tab_child_def)
  show "length (table_entries t) \<le> child_size (tab_child t)"
    using length_concat_le_file [of cs] tb_ok_simps(2) [OF cs] table_entries_ok [OF cs] by (simp add: tab_child_def t)
qed

definition merged :: "table list \<Rightarrow> entry list" where
  "merged ts = sort_entries (concat (map table_entries ts))"

lemma merge_tables:
  assumes "\<forall>t \<in> set ts. table_good t"
  shows "merge_inv child_ops child_entries child_rest child_inv (newMergeIter (map tab_child ts))"
    "merge_entries child_entries (newMergeIter (map tab_child ts)) = merged ts"
    "length (merged ts) \<le> children_size (map tab_child ts)"
proof -
  show "merge_inv child_ops child_entries child_rest child_inv (newMergeIter (map tab_child ts))"
    by (rule chi.merge_new) (use assms tab_child_iter in auto)
  have "map child_entries (map tab_child ts) = map table_entries ts" using assms tab_child_iter(2) by simp
  then show "merge_entries child_entries (newMergeIter (map tab_child ts)) = merged ts"
    by (simp only: merge_entries_def newMergeIter_def merged_def mergeIter.simps)
  have "length (concat (map table_entries ts)) \<le> children_size (map tab_child ts)"
    using assms tab_child_iter(4) by (induction ts) (auto simp: children_size_def intro: add_mono)
  then show "length (merged ts) \<le> children_size (map tab_child ts)" by (simp add: merged_def)
qed

lemma find_sort:
  "sorted_wrt (\<lambda>a b. userKey (fst b) = userKey (fst a) \<longrightarrow> \<not> entry_before b (fst a)) es
    \<Longrightarrow> find (for_key k) (sort_entries es) = find (for_key k) es"
proof (induction es)
  case (Cons e es)
  have "\<forall>x \<in> set (sort_entries es). userKey (fst x) = userKey (fst e) \<longrightarrow> \<not> entry_before x (fst e)" using Cons.prems by simp
  from find_insert_newest [OF this, of k] show ?case using Cons by simp
qed simp

lemma tiers_age_sorted:
  assumes "sorted_wrt newer Ts" and "\<forall>T \<in> set Ts. sorted_entries T"
  shows "sorted_wrt (\<lambda>a b. userKey (fst b) = userKey (fst a) \<longrightarrow> \<not> entry_before b (fst a)) (concat Ts)"
  using assms
proof (induction Ts)
  case (Cons T Ts)
  have "sorted_wrt (\<lambda>a b. userKey (fst b) = userKey (fst a) \<longrightarrow> \<not> entry_before b (fst a)) T"
    using Cons.prems(2) unfolding sorted_entries_def by (auto elim: sorted_wrt_mono_rel [rotated])
  moreover have "\<not> entry_before b (fst a)" if "a \<in> set T" "b \<in> set (concat Ts)" "userKey (fst b) = userKey (fst a)" for a b
  proof -
    obtain U where "U \<in> set Ts" "b \<in> set U" using \<open>b \<in> set (concat Ts)\<close> by (auto simp only: set_concat)
    then show ?thesis using Cons.prems(1) that newer_not_before [of b a] by (auto simp: newer_def)
  qed
  ultimately show ?case using Cons by (simp add: sorted_wrt_append del: set_concat)
qed simp

section \<open>Installing the merge\<close>

lemma isInput_iff: "isInput t ts \<longleftrightarrow> t \<in> set ts"
  by (simp add: isInput_def list_ex_iff)

lemma replace_run_none: "set ts \<inter> set inputs = {} \<Longrightarrow> replace_run b inputs out ts = ts"
  by (induction ts) (auto simp: isInput_iff)

lemma replace_run_prefix: "set ts \<inter> set inputs = {} \<Longrightarrow> replace_run b inputs out (ts @ us) = ts @ replace_run b inputs out us"
  by (induction ts) (auto simp: isInput_iff)

lemma replace_run_done: "set ts \<subseteq> set inputs \<Longrightarrow> replace_run True inputs out (ts @ us) = replace_run True inputs out us"
  by (induction ts) (auto simp: isInput_iff split: option.splits)

lemma replace_run_all:
  assumes "distinct (pre @ inputs @ post)" and "inputs \<noteq> []"
  shows "replace_run False inputs out (pre @ inputs @ post) = pre @ (case out of None \<Rightarrow> [] | Some t \<Rightarrow> [t]) @ post"
proof -
  obtain i js where i: "inputs = i # js" using assms(2) by (cases inputs) auto
  have "replace_run False inputs out (inputs @ post) = (case out of None \<Rightarrow> [] | Some t \<Rightarrow> [t]) @ replace_run True inputs out (js @ post)"
    by (simp add: i isInput_iff split: option.splits)
  also have "replace_run True inputs out (js @ post) = post"
  proof -
    have "set post \<inter> set inputs = {}" "set js \<subseteq> set inputs" using assms(1) by (auto simp: i)
    then show ?thesis by (simp only: replace_run_done replace_run_none)
  qed
  finally show ?thesis using assms(1) replace_run_prefix [of pre inputs False out "inputs @ post"] by auto
qed

lemma compact_version:
  assumes inv: "db_inv d" and tabs: "v_tables (d_current d) = older @ inputs @ post" and ne: "inputs \<noteq> []"
    and t: "table_of (d_nextNum d) (kept (post = []) [] (merged inputs)) out" and n: "d_nextNum d < d_nextNum d + 1"
    and d': "d_current d' = withCompacted (d_current d) inputs out" "w_seg (d_wal d') = w_seg (d_wal d)" "d_seq d' = d_seq d"
      "d_nextNum d' = d_nextNum d + 1"
  shows "db_inv d' \<and> db_abs d' = db_abs d"
proof -
  let ?v = "d_current d" and ?es = "kept (post = []) [] (merged inputs)" and ?out = "case out of None \<Rightarrow> [] | Some t \<Rightarrow> [t]"
  define pre where "pre = mt_entries (v_mem ?v) # map mt_entries (rev (v_imm ?v)) @ map table_entries older"
  define mid where "mid = map table_entries inputs"
  define low where "low = map table_entries post"
  have nums: "distinct (map table_num (older @ inputs @ post))" "\<forall>t \<in> set (older @ inputs @ post). table_good t \<and> table_num t < d_nextNum d"
    using inv unfolding db_inv_def tabs by blast+
  have v': "v_mem (withCompacted ?v inputs out) = v_mem ?v" "v_imm (withCompacted ?v inputs out) = v_imm ?v"
      "v_tables (withCompacted ?v inputs out) = older @ ?out @ post"
    using replace_run_all [of older inputs post out] nums(1) ne distinct_map [of table_num "older @ inputs @ post"] by (simp_all add: withCompacted_def newVersion_def tabs)
  have t0: "tiers ?v = pre @ mid @ low" by (simp add: tiers_def pre_def mid_def low_def tabs)
  have t1: "tiers (withCompacted ?v inputs out) = pre @ out_tiers out @ low"
    by (simp add: tiers_def v' pre_def low_def out_tiers_def split: option.splits)
  have o: "out_tiers out = [] \<or> out_tiers out = [?es]" "concat (out_tiers out) = ?es" using out_tiers_of [OF t] by auto
  have ok: "sorted_wrt newer (pre @ mid @ low)" "\<forall>T \<in> set (pre @ mid @ low). tier_ok (d_seq d) T"
    using inv unfolding db_inv_def t0 by blast+
  have m: "\<forall>T \<in> set mid. tier_ok (d_seq d) T" "sorted_wrt newer mid" using ok by (simp_all add: sorted_wrt_append)
  have es: "\<forall>e \<in> set (concat mid). wf_entry e \<and> userKey (fst e) \<noteq> []" using m(1) engine_wf unfolding tier_ok_def set_concat by blast
  have mg: "merged inputs = sort_entries (concat mid)" by (simp add: merged_def mid_def)
  have so: "sorted_entries (merged inputs)" unfolding mg using sorted_sort_entries es by blast
  have fd: "find (for_key k) (merged inputs) = find (for_key k) (concat mid)" for k
    unfolding mg by (rule find_sort [OF tiers_age_sorted [OF m(2)]]) (use m(1) in \<open>simp add: tier_ok_def\<close>)
  have em: "\<forall>e \<in> set (merged inputs). userKey (fst e) \<noteq> []" unfolding mg set_sort_entries using es by blast
  have se: "set ?es \<subseteq> set (concat mid)" using kept_in mg by (metis set_sort_entries subsetI)
  have "sorted_wrt newer (pre @ out_tiers out @ low) \<and> (\<forall>T \<in> set (pre @ out_tiers out @ low). tier_ok (d_seq d) T)"
    by (rule replace_tiers [OF ok se sorted_kept [OF so] o(1)])
  moreover have "\<forall>t \<in> set (older @ ?out @ post). table_good t \<and> table_num t < d_nextNum d + 1"
    using nums(2) t n by (auto simp: table_of_def split: option.splits intro: less_trans)
  moreover have "distinct (map table_num (older @ ?out @ post))"
    using nums t by (auto simp: table_of_def split: option.splits)
  ultimately have "db_inv d'" using inv by (simp add: db_inv_def d' t1 v')
  moreover have "tiers_map (pre @ out_tiers out @ low) = tiers_map (pre @ mid @ low)"
  proof (cases "post = []")
    case True
    have "val_of (find (for_key k) (concat (out_tiers out))) = val_of (find (for_key k) (concat mid))" for k
      unfolding o(2) fd [symmetric] using val_kept_all [OF em so, of k] True by (simp only: simp_thms)
    then have "tiers_map (pre @ out_tiers out) = tiers_map (pre @ mid)" by (rule replace_last_tiers_map)
    then show ?thesis using True by (simp add: low_def)
  next
    case False
    have "find (for_key k) (concat (out_tiers out)) = find (for_key k) (concat mid)" for k
      unfolding o(2) fd [symmetric] using find_kept_all [OF em, of k] False by (simp only: simp_thms)
    then show ?thesis by (rule replace_tiers_map)
  qed
  ultimately show ?thesis by (simp add: db_abs_def d' t0 t1)
qed

lemma small_merged: "small_stream (merged ts) \<longleftrightarrow> small_stream (concat (map table_entries ts))"
  by (simp add: small_stream_def merged_def del: set_concat)

lemma compactLocked_keeps:
  assumes inv: "db_inv d" and r: "compactLocked d inputs io1 io2 = (e, d')" and n: "d_nextNum d < d_nextNum d + 1"
    and tabs: "v_tables (d_current d) = older @ inputs @ post" and ne: "inputs \<noteq> []"
    and s: "small_stream (concat (map table_entries inputs))" and f: "small_files d'"
  shows "db_inv d' \<and> db_abs d' = db_abs d \<and> d_closed d' = d_closed d"
proof -
  let ?c = "map tab_child inputs" and ?b = "last inputs = last (v_tables (d_current d))"
  have good: "\<forall>t \<in> set inputs. table_good t" and nums: "distinct (map table_num (older @ inputs @ post))"
    and lt: "\<forall>t \<in> set inputs. table_num t < d_nextNum d"
    using inv tabs by (simp_all add: db_inv_def)
  have di: "distinct (older @ inputs @ post)" using nums distinct_map by blast
  have b: "?b \<longleftrightarrow> post = []"
  proof (cases "post = []")
    case False
    have "last inputs \<noteq> last post"
    proof
      assume "last inputs = last post"
      then have "last post \<in> set inputs \<inter> set post" using last_in_set [OF ne] last_in_set [OF False] by simp
      moreover have "set inputs \<inter> set post = {}" using di by simp
      ultimately show False by simp
    qed
    then show ?thesis using False by (simp add: tabs)
  qed (use ne in \<open>simp add: tabs\<close>)
  obtain o1 d1 where w: "writeTableFiltered d (merge_ops child_ops) (children_size ?c) (newMergeIter ?c) ?b io1 = (o1, d1)"
    by (cases "writeTableFiltered d (merge_ops child_ops) (children_size ?c) (newMergeIter ?c) ?b io1")
  have d1: "d1 = d\<lparr>d_nextNum := d_nextNum d + 1, d_files := d_files d1\<rparr>" by (rule writeTable_state [OF w])
  have fields: "d_current d1 = d_current d" "d_wal d1 = d_wal d" "d_seq d1 = d_seq d" "d_closed d1 = d_closed d" "d_nextNum d1 = d_nextNum d + 1"
    by (subst d1, simp)+
  have same: "db_inv x \<and> db_abs x = db_abs d \<and> d_closed x = d_closed d"
    if "d_current x = d_current d" "d_wal x = d_wal d" "d_seq x = d_seq d" "d_closed x = d_closed d" "d_nextNum x = d_nextNum d + 1" for x
    using db_inv_same [OF inv, of x] that n by (simp add: db_abs_def)
  have d'e: "d' = snd (compactLocked d inputs io1 io2)" using r by simp
  show ?thesis
  proof (cases o1)
    case (Inl x)
    then have "d' = d1" unfolding d'e using w by (simp add: compactLocked_def Let_def)
    then show ?thesis using same fields by simp
  next
    case (Inr out)
    show ?thesis
    proof (cases io2)
      case False
      then have "d' = d1" unfolding d'e using w Inr by (simp add: compactLocked_def Let_def writeManifest_def)
      then show ?thesis using same fields by simp
    next
      case True
      have fl: "d_files d' = filter (\<lambda>f. fst f \<notin> table_num ` set inputs) (d_files d1)"
          and d': "d_current d' = withCompacted (d_current d) inputs out" "w_seg (d_wal d') = w_seg (d_wal d)" "d_seq d' = d_seq d"
          "d_nextNum d' = d_nextNum d + 1" "d_closed d' = d_closed d"
        unfolding d'e by (simp_all add: compactLocked_def Let_def w Inr True writeManifest_def install_def table_num_def fields)
      have "d_nextNum d \<notin> table_num ` set inputs" using lt by auto
      then have f1: "\<forall>b. (d_nextNum d, b) \<in> set (d_files d1) \<longrightarrow> length b < 2 ^ 32"
        using f unfolding small_files_def fl by auto
      have en: "\<forall>e \<in> set (merged inputs). engine_key (fst e)"
        unfolding merged_def set_sort_entries set_concat set_map using good table_good_entries by blast
      have "table_of (d_nextNum d) (kept ?b [] (merged inputs)) out"
        using mrg.writeTable_out [OF merge_tables(1) [OF good], of "children_size ?c" d ?b io1 out d1] merge_tables(2,3) [OF good] en s w Inr f1
        by (simp add: small_merged)
      then show ?thesis using compact_version [OF inv tabs ne _ n d'(1-4)] d'(5) unfolding b by simp
    qed
  qed
qed

lemma db_fail_keeps: "db_inv d \<Longrightarrow> db_inv (db_fail d e) \<and> db_abs (db_fail d e) = db_abs d \<and> d_closed (db_fail d e) = d_closed d"
  using db_inv_same [of d "db_fail d e"] by (simp add: db_fail_def db_abs_def)

lemma db_fail_files: "small_files (db_fail d e) \<longleftrightarrow> small_files d"
  by (simp add: db_fail_def small_files_def)

definition flush_fits :: "db \<Rightarrow> bool" where
  "flush_fits d \<longleftrightarrow> d_nextNum d < d_nextNum d + 1 \<and> (\<forall>m \<in> set (v_imm (d_current d)). small_stream (mt_entries m))"

definition compact_fits :: "db \<Rightarrow> bool" where
  "compact_fits d \<longleftrightarrow> d_nextNum d < d_nextNum d + 1 \<and> small_stream (concat (map table_entries (v_tables (d_current d))))"

lemma flush_turn_keeps:
  assumes "db_inv d" and "flush_turn d io1 io2 os = Some d'" and "flush_fits d" and "small_files d'"
  shows "db_inv d' \<and> db_abs d' = db_abs d \<and> d_closed d' = d_closed d"
proof -
  let ?m = "hd (v_imm (d_current d))"
  have ne: "v_imm (d_current d) \<noteq> []" using assms(2) by (auto simp: flush_turn_def split: if_splits)
  obtain e d1 where f: "db_flush d ?m io1 io2 os = (e, d1)" by (cases "db_flush d ?m io1 io2 os")
  have d': "d' = (case e of None \<Rightarrow> d1 | Some x \<Rightarrow> db_fail d1 x)"
    using assms(2) f by (auto simp: flush_turn_def split: if_splits option.splits)
  then have "small_files d1" using assms(4) by (auto simp: db_fail_files split: option.splits)
  then have "db_inv d1 \<and> db_abs d1 = db_abs d \<and> d_closed d1 = d_closed d"
    using db_flush_keeps [OF assms(1) f] assms(3) ne by (simp add: flush_fits_def)
  then show ?thesis using d' db_fail_keeps [of d1] by (cases e) simp_all
qed

lemma small_stream_sub: "small_stream es \<Longrightarrow> length es' \<le> length es \<Longrightarrow> set es' \<subseteq> set es \<Longrightarrow> small_stream es'"
  by (auto simp: small_stream_def simp del: split_paired_All)

lemma compact_turn_keeps:
  assumes "db_inv d" and "compact_turn d io1 io2 = Some d'" and "compact_fits d" and "small_files d'"
  shows "db_inv d' \<and> db_abs d' = db_abs d \<and> d_closed d' = d_closed d"
proof -
  define i where "i = pickCompaction (v_tables (d_current d))"
  have ne: "i \<noteq> []" using assms(2) by (auto simp: compact_turn_def Let_def i_def split: if_splits)
  then obtain older post where tabs: "v_tables (d_current d) = older @ i @ post"
    using pickCompaction_run(1) [of "v_tables (d_current d)"] by (auto simp: run_of_def i_def)
  obtain e d1 where c: "compact d i io1 io2 = (e, d1)" by (cases "compact d i io1 io2")
  have "hd i \<in> set (v_tables (d_current d))" using ne by (simp add: tabs)
  then have l: "compactLocked d i io1 io2 = (e, d1)" using c by (simp add: compact_def isInput_iff)
  have d': "d' = (case e of None \<Rightarrow> d1 | Some x \<Rightarrow> db_fail d1 x)"
    using assms(2) c by (auto simp: compact_turn_def Let_def i_def [symmetric] split: if_splits option.splits)
  then have f: "small_files d1" using assms(4) by (auto simp: db_fail_files split: option.splits)
  have sub: "small_stream (concat (map table_entries i))"
  proof (rule small_stream_sub)
    show "small_stream (concat (map table_entries (v_tables (d_current d))))" using assms(3) by (simp add: compact_fits_def)
  qed (auto simp: tabs)
  have "db_inv d1 \<and> db_abs d1 = db_abs d \<and> d_closed d1 = d_closed d"
    using compactLocked_keeps [OF assms(1) l _ tabs ne sub f] assms(3) by (simp add: compact_fits_def)
  then show ?thesis using d' db_fail_keeps [of d1] by (cases e) simp_all
qed

end
