(* ===== verification/Engine.thy ===== *)
theory Engine
  imports Db_Compact
begin

text \<open>
  Executions of the storage engine: any interleaving of group commits, successful or not, with turns of
  the flusher and of the compactor, each with its own answers of the operating system. Every read answers
  from the map that the acknowledged operations define.
\<close>

section \<open>Executions\<close>

text \<open>
  \<open>engine_run d0 ops d\<close>: an engine that started as \<open>d0\<close> has become \<open>d\<close> and has acknowledged the operations \<open>ops\<close>,
  in this order. The side conditions are the sizes the file format has room for.
\<close>

definition write_fits :: "db \<Rightarrow> Batch list \<Rightarrow> bool" where
  "write_fits d bs \<longleftrightarrow> bs \<noteq> [] \<and> b_ops (hd bs) \<noteq> [] \<and> ops_ok (group_ops bs) \<and> unat (d_seq d) + length (group_ops bs) < 2 ^ 56"

inductive engine_run :: "db \<Rightarrow> batchOp list \<Rightarrow> db \<Rightarrow> bool" where
  start: "engine_run d0 [] d0"
| acknowledged: "engine_run d0 ops d \<Longrightarrow> write_fits d bs \<Longrightarrow> db_Write d bs rnd os1 os2 = Some (None, d') \<Longrightarrow>
    engine_run d0 (ops @ group_ops bs) d'"
| refused: "engine_run d0 ops d \<Longrightarrow> write_fits d bs \<Longrightarrow> db_Write d bs rnd os1 os2 = Some (Some e, d') \<Longrightarrow>
    engine_run d0 ops d'"
| flushed: "engine_run d0 ops d \<Longrightarrow> flush_fits d \<Longrightarrow> flush_turn d io1 io2 os = Some d' \<Longrightarrow> small_files d' \<Longrightarrow>
    engine_run d0 ops d'"
| compacted: "engine_run d0 ops d \<Longrightarrow> compact_fits d \<Longrightarrow> compact_turn d io1 io2 = Some d' \<Longrightarrow> small_files d' \<Longrightarrow>
    engine_run d0 ops d'"

lemma engine_run_refines:
  assumes "engine_run d0 ops d" and "db_inv d0" and "\<not> d_closed d0"
  shows "db_inv d \<and> \<not> d_closed d \<and> db_abs d = foldl apply_op (db_abs d0) ops"
  using assms
proof (induction rule: engine_run.induct)
  case (start d0)
  then show ?case by simp
next
  case (acknowledged d0 ops d bs rnd os1 os2 d')
  have i: "db_inv d" "\<not> d_closed d" "db_abs d = foldl apply_op (db_abs d0) ops" using acknowledged by simp_all
  have "db_inv d' \<and> d_closed d' = d_closed d \<and> db_abs d' = foldl apply_op (db_abs d) (group_ops bs)"
    using db_Write_refines [OF acknowledged(3) i(1)] acknowledged(2) by (simp add: write_fits_def)
  then show ?case using i(2,3) by simp
next
  case (refused d0 ops d bs rnd os1 os2 e d')
  have i: "db_inv d" "\<not> d_closed d" "db_abs d = foldl apply_op (db_abs d0) ops" using refused by simp_all
  have "db_inv d' \<and> d_closed d' = d_closed d \<and> db_abs d' = db_abs d"
    using db_Write_refines [OF refused(3) i(1)] refused(2) by (simp add: write_fits_def)
  then show ?case using i(2,3) by simp
next
  case (flushed d0 ops d io1 io2 os d')
  have i: "db_inv d" "\<not> d_closed d" "db_abs d = foldl apply_op (db_abs d0) ops" using flushed by simp_all
  show ?case using flush_turn_keeps [OF i(1) flushed(3,2,4)] i(2,3) by simp
next
  case (compacted d0 ops d io1 io2 d')
  have i: "db_inv d" "\<not> d_closed d" "db_abs d = foldl apply_op (db_abs d0) ops" using compacted by simp_all
  show ?case using compact_turn_keeps [OF i(1) compacted(3,2,4)] i(2,3) by simp
qed

section \<open>Properties\<close>

text \<open>
  C2: what a new engine serves. After any execution of an engine opened on an empty directory, through
  commits, refused commits, flushes and compactions, \<open>Get\<close> answers for every key with the value of the last
  acknowledged operation on it: the value put, or not found after a delete or if there was none.
\<close>

theorem engine_serves_acknowledged:
  assumes "Open opts [] None [] rand os_ok = Inr d0" and "engine_run d0 ops d"
  shows "db_inv d \<and> (\<forall>k. db_Get d k = Some (lookup_result (foldl apply_op (\<lambda>k. None) ops k)))"
proof -
  have d0: "d0 = new_db opts (rand_next rand)" using assms(1) Open_new by simp
  have "\<not> d_closed d0" by (simp add: d0 new_db_def)
  then have "db_inv d \<and> \<not> d_closed d \<and> db_abs d = foldl apply_op (\<lambda>k. None) ops"
    using engine_run_refines [OF assms(2)] new_db_inv new_db_abs d0 by simp
  then show ?thesis using db_Get_abs [of d] by simp
qed

theorem engine_serves_acknowledged_witness:
  "\<exists>d0 d1 d2. Open \<lparr>o_memtableSize = 1, o_blockSize = 0, o_syncAlways = True\<rparr> [] None [] [] os_ok = Inr d0
     \<and> db_Put d0 [1] [10] 0 os_ok os_ok = Some (None, d1)
     \<and> db_Delete d1 [1] 0 os_ok (os_ok\<lparr>os_write := Some 3\<rparr>) = Some (Some (EWal ErrAppend), d2)
     \<and> db_Get d2 [1] = Some (Inr [10]) \<and> db_Get d2 [2] = Some (Inl ErrNotFound)"
proof -
  let ?o = "\<lparr>o_memtableSize = 1, o_blockSize = 0, o_syncAlways = True\<rparr>"
  let ?b1 = "Batch_Put emptyBatch [1] [10]" and ?b2 = "Batch_Delete emptyBatch [1]"
  define d0 where "d0 = new_db ?o 0"
  have o: "Open ?o [] None [] [] os_ok = Inr d0" using Open_new [of ?o "[]"] by (simp add: rand_next_def d0_def)
  define w where "w = (fresh_wal 4 True)\<lparr>w_dir := [(1, wal_record (Batch_encode ?b1 [] 1))], w_size := length (wal_record (Batch_encode ?b1 [] 1))\<rparr>"
  define d1 where "d1 = put_group (follow_segment (d0\<lparr>d_wal := w\<rparr>) 1 0) [?b1]"
  have w1: "db_Write d0 [?b1] 0 os_ok os_ok = Some (None, d1)"
    by (simp add: d1_def w_def db_Write_def Batch_Len_def Batch_Put_def emptyBatch_def db_commit_def makeRoom_def d0_def new_db_def withDefaults_def
        WAL_Append_def fresh_wal_def WAL_write_def os_ok_def Let_def syncLocked_def Batch_encode_def newVersion_def dir_write_def dir_file_def)
  have f: "d_closed d1 = False" "d_bgErr d1 = None" "d_opts d1 = ?o\<lparr>o_blockSize := 4096\<rparr>" "v_imm (d_current d1) = []" "d_wal d1 = w"
      "d_seq d1 = 1" "mt_size (v_mem (d_current d1)) > 0"
    by (simp_all add: d1_def put_group_def follow_segment_def d0_def new_db_def newVersion_def withDefaults_def group_ops_def Batch_Put_def emptyBatch_def
        memtable_put_def Let_def)
  obtain d2 where w2: "db_Write d1 [?b2] 0 os_ok (os_ok\<lparr>os_write := Some 3\<rparr>) = Some (Some (EWal ErrAppend), d2)"
    using f(7) by (simp add: db_Write_def Batch_Len_def Batch_Delete_def emptyBatch_def db_commit_def makeRoom_def f(1-6) maxImmutables_def w_def fresh_wal_def
        WAL_Rotate_def rotateLocked_def openSegment_def WAL_Append_def WAL_write_def os_ok_def Let_def syncLocked_def Batch_encode_def)
  have "write_fits d0 [?b1]" "write_fits d1 [?b2]"
    by (simp_all add: write_fits_def f d0_def new_db_def group_ops_def Batch_Put_def Batch_Delete_def emptyBatch_def ops_ok_def)
  then have "engine_run d0 ([] @ group_ops [?b1]) d2" using w1 w2 by (blast intro: engine_run.intros)
  from engine_serves_acknowledged [OF o this]
  have "db_Get d2 k = Some (lookup_result (foldl apply_op (\<lambda>k. None) (group_ops [?b1]) k))" for k by simp
  then show ?thesis using o w1 w2
    by (simp add: db_Put_def db_Delete_def group_ops_def Batch_Put_def emptyBatch_def apply_op_def kindPut_def kindDelete_def lookup_result_def)
qed

definition sized_table :: "u64 \<Rightarrow> table" where
  "sized_table n = \<lparr>tb_meta = \<lparr>tm_num = n, tm_size = n, tm_count = 1, tm_smallest = [], tm_largest = []\<rparr>, tb_data = [], tb_index = [], tb_bloom = []\<rparr>"

definition tables_of_growing_size :: "table list" where
  "tables_of_growing_size = map sized_table [1, 3, 9, 27, 81, 243, 729, 2187, 6561, 19683, 59049]"

lemma growing_no_run: "best_run [] tables_of_growing_size = []"
  by (simp add: tables_of_growing_size_def sized_table_def run_length_def similarSize_def minRun_def Let_def)

text \<open>
  C32: the compactor's choice. What \<open>pickCompaction\<close> returns is nothing or at least four age-adjacent tables
  in their order, so that no table lies between the inputs; and with more than ten tables it always returns
  something, so the number of tables stays bounded.
\<close>

theorem compaction_picks_a_run:
  "(pickCompaction tables = [] \<or> (minRun \<le> length (pickCompaction tables) \<and> (\<exists>pre post. tables = pre @ pickCompaction tables @ post)))
   \<and> (length tables \<le> maxTables \<or> pickCompaction tables \<noteq> [])"
  using pickCompaction_run [of tables] by (cases "length tables \<le> maxTables") (auto simp: run_of_def)

theorem compaction_picks_a_run_witness:
  "11 = length tables_of_growing_size \<and> minRun \<le> length (pickCompaction tables_of_growing_size)"
  using compaction_picks_a_run [of tables_of_growing_size] by (auto simp: tables_of_growing_size_def maxTables_def)

text \<open>
  C33: when no stretch of similar tables is long enough and there are more than ten tables, exactly four adjacent tables
  are picked, and no other four adjacent tables have a smaller total size.
\<close>

theorem compaction_picks_cheapest:
  assumes "best_run [] tables = []" and "maxTables < length tables"
  shows "length (pickCompaction tables) = minRun \<and> (\<exists>pre post. tables = pre @ pickCompaction tables @ post)
    \<and> (\<forall>i. i + minRun \<le> length tables \<longrightarrow> run_size (pickCompaction tables) \<le> run_size (take minRun (drop i tables)))"
proof -
  have "cheapest_window None 0 tables \<noteq> None"
    using cheapest_window_some [of None tables 0] assms(2) by (simp add: minRun_def maxTables_def)
  then obtain w where w: "cheapest_window None 0 tables = Some w" by blast
  then have p: "pickCompaction tables = w" using assms by (simp add: pickCompaction_def)
  have "run_of tables w" using pickCompaction_run [of tables] assms(2) p by auto
  then show ?thesis using cheapest_window_min [OF w] cheapest_window_length [OF w] p by (simp add: run_of_def)
qed

theorem compaction_picks_cheapest_witness:
  "best_run [] tables_of_growing_size = [] \<and> maxTables < length tables_of_growing_size
     \<and> length (pickCompaction tables_of_growing_size) = minRun
     \<and> run_size (pickCompaction tables_of_growing_size) \<le> run_size (take minRun (drop 1 tables_of_growing_size))"
proof -
  have "maxTables < length tables_of_growing_size" "1 + minRun \<le> length tables_of_growing_size"
    by (simp_all add: maxTables_def minRun_def tables_of_growing_size_def)
  then show ?thesis using compaction_picks_cheapest [OF growing_no_run] growing_no_run by blast
qed

end
