(* ===== verification/Db_Scan.thy ===== *)
theory Db_Scan
  imports Engine
begin

text \<open>
  Scans and snapshots. A scan yields the live keys of the engine in order, each once, and nothing else; an
  export is a table of exactly these entries, and an engine restored from it has the same contents.
\<close>

section \<open>The live entries of a sorted stream\<close>

lemma kept_mem:
  assumes "sorted_entries es" and "\<forall>e \<in> set es. \<not> bytes_compare (userKey (fst e)) lst < 0"
  shows "x \<in> set (kept True lst es) \<longleftrightarrow>
    userKey (fst x) \<noteq> lst \<and> key_kind (fst x) \<noteq> kindDelete \<and> find (for_key (userKey (fst x))) es = Some x"
  using assms
proof (induction es arbitrary: lst)
  case (Cons e es)
  let ?u = "userKey (fst e)"
  have s: "sorted_entries es" "\<forall>y \<in> set es. \<not> bytes_compare (userKey (fst y)) ?u < 0"
    using Cons.prems(1) user_before [of _ e] by (auto simp: sorted_entries_def simp del: split_paired_All)
  have nx: "\<not> for_key (userKey (fst x)) e" if "userKey (fst x) \<noteq> ?u" using that by (simp add: for_key_def)
  have fx: "for_key (userKey (fst x)) e" if "userKey (fst x) = ?u" using that by (simp add: for_key_def)
  show ?case
  proof (cases "?u = lst")
    case True
    then show ?thesis using Cons.IH [OF s(1), of lst] s(2) nx fx by (cases "userKey (fst x) = lst") auto
  next
    case False
    have ih: "x \<in> set (kept True ?u es) \<longleftrightarrow>
        userKey (fst x) \<noteq> ?u \<and> key_kind (fst x) \<noteq> kindDelete \<and> find (for_key (userKey (fst x))) es = Some x"
      by (rule Cons.IH [OF s])
    have l: "userKey (fst x) \<noteq> lst" if "find (for_key (userKey (fst x))) es = Some x"
    proof
      assume a: "userKey (fst x) = lst"
      have "x \<in> set es" using that by (metis find_split in_set_conv_decomp)
      then have "\<not> bytes_compare lst ?u < 0" using s(2) a by blast
      moreover have "\<not> bytes_compare ?u lst < 0" using Cons.prems(2) by simp
      ultimately show False using bytes_compare_total False by blast
    qed
    show ?thesis
    proof (cases "userKey (fst x) = ?u")
      case True
      then show ?thesis using False ih fx by auto
    next
      case ne: False
      then show ?thesis using False ih nx l by auto
    qed
  qed
qed simp

lemma kept_strict:
  assumes "sorted_entries es"
  shows "sorted_wrt (\<lambda>a b. bytes_compare (userKey (fst a)) (userKey (fst b)) < 0) (kept True lst es)"
  using assms
proof (induction es arbitrary: lst)
  case (Cons e es)
  let ?u = "userKey (fst e)"
  have s: "sorted_entries es" "\<forall>y \<in> set es. \<not> bytes_compare (userKey (fst y)) ?u < 0"
    using Cons.prems(1) user_before [of _ e] by (auto simp: sorted_entries_def simp del: split_paired_All)
  have "bytes_compare ?u (userKey (fst x)) < 0" if "x \<in> set (kept True ?u es)" for x
    using kept_mem [OF s] that kept_in [OF that] s(2) bytes_compare_total [of ?u "userKey (fst x)"] by metis
  then show ?case using Cons.IH [OF s(1)] by auto
qed simp

definition live :: "entry list \<Rightarrow> entry list" where
  "live es = kept True [] es"

lemma bytes_compare_nil: "\<not> bytes_compare a [] < 0"
  by (cases a) auto

lemma live_mem:
  assumes "sorted_entries es" and "\<forall>e \<in> set es. userKey (fst e) \<noteq> []"
  shows "(\<exists>x \<in> set (live es). userKey (fst x) = k \<and> snd x = v) \<longleftrightarrow> val_of (find (for_key k) es) = Some v"
proof -
  have m: "x \<in> set (live es) \<longleftrightarrow> userKey (fst x) \<noteq> [] \<and> key_kind (fst x) \<noteq> kindDelete \<and> find (for_key (userKey (fst x))) es = Some x" for x
    unfolding live_def using kept_mem [OF assms(1)] bytes_compare_nil by blast
  have f: "userKey (fst x) = k \<and> x \<in> set es" if "find (for_key k) es = Some x" for x
    using find_split [OF that] by (auto simp: for_key_def)
  show ?thesis
  proof
    assume "\<exists>x \<in> set (live es). userKey (fst x) = k \<and> snd x = v"
    then show "val_of (find (for_key k) es) = Some v" unfolding Bex_def m val_of_def by auto
  next
    assume "val_of (find (for_key k) es) = Some v"
    then obtain x where x: "find (for_key k) es = Some x" "key_kind (fst x) \<noteq> kindDelete" "snd x = v"
      by (auto simp: val_of_def split: option.splits if_splits)
    then show "\<exists>x \<in> set (live es). userKey (fst x) = k \<and> snd x = v" unfolding Bex_def m using f [OF x(1)] assms(2) by blast
  qed
qed

section \<open>Running a scan\<close>

definition in_range :: "bytes option \<Rightarrow> entry \<Rightarrow> bool" where
  "in_range end' e \<longleftrightarrow> (case end' of None \<Rightarrow> True | Some b \<Rightarrow> bytes_compare (userKey (fst e)) b < 0)"

text \<open>Where the next call of \<open>Next\<close> stops in what is left of the merge.\<close>

fun scan_from :: "bytes option \<Rightarrow> bytes \<Rightarrow> entry list \<Rightarrow> (entry \<times> entry list) option" where
  "scan_from end' lst [] = None"
| "scan_from end' lst (e # es) =
     (if \<not> in_range end' e then None
      else if userKey (fst e) = lst then scan_from end' lst es
      else if key_kind (fst e) = kindDelete then scan_from end' (userKey (fst e)) es
      else Some (e, es))"

lemma merge_ops_simps [simp]:
  "it_seek (merge_ops ops) = merge_seek ops" "it_valid (merge_ops ops) = merge_valid" "it_next (merge_ops ops) = merge_next ops"
  "it_key (merge_ops ops) = merge_key ops" "it_value (merge_ops ops) = merge_value ops" "it_close (merge_ops ops) = merge_close ops"
  by (simp_all add: merge_ops_def)

abbreviation m_inv :: "child mergeIter \<Rightarrow> bool" where "m_inv \<equiv> merge_inv child_ops child_entries child_rest child_inv"
abbreviation m_rest :: "child mergeIter \<Rightarrow> entry list" where "m_rest \<equiv> merge_entries child_rest"

lemma dbIter_loop_scan:
  assumes "m_inv m" and "length (m_rest m) \<le> n" and "\<forall>e \<in> set (m_rest m). key_seq (fst e) \<le> di_seq it"
  shows "case scan_from (di_end it) (di_last it) (m_rest m) of
      None \<Rightarrow> fst (dbIter_loop child_ops n it m) = False
    | Some (e, es) \<Rightarrow> (\<exists>m'. m_inv m' \<and> m_rest m' = es
        \<and> dbIter_loop child_ops n it m = (True, it\<lparr>di_last := userKey (fst e), di_k := userKey (fst e), di_val := snd e, di_m := Some m'\<rparr>))"
  using assms
proof (induction n arbitrary: it m)
  case 0
  then show ?case by simp
next
  case (Suc n)
  show ?case
  proof (cases "m_rest m")
    case Nil
    then have "\<not> merge_valid m" using mrg.valid [OF Suc.prems(1)] by simp
    then show ?thesis using Nil by simp
  next
    case (Cons e es)
    have v: "merge_valid m" using mrg.valid [OF Suc.prems(1)] Cons by simp
    have n: "m_inv (merge_next child_ops m)" "m_rest (merge_next child_ops m) = es" using mrg.step [OF Suc.prems(1)] Cons by simp_all
    have c: "merge_key child_ops m = fst e" "merge_value child_ops m = snd e" using mrg.current [OF Suc.prems(1)] Cons by (simp_all add: prod_eq_iff)
    have q: "\<not> di_seq it < key_seq (fst e)" using Suc.prems(3) Cons by auto
    have r: "(case di_end it of None \<Rightarrow> False | Some b \<Rightarrow> bytes_compare (userKey (fst e)) b \<ge> 0) \<longleftrightarrow> \<not> in_range (di_end it) e"
      by (auto simp: in_range_def split: option.splits)
    have IH: "case scan_from (di_end it') (di_last it') es of
        None \<Rightarrow> fst (dbIter_loop child_ops n it' (merge_next child_ops m)) = False
      | Some (e, es) \<Rightarrow> (\<exists>m'. m_inv m' \<and> m_rest m' = es
          \<and> dbIter_loop child_ops n it' (merge_next child_ops m) = (True, it'\<lparr>di_last := userKey (fst e), di_k := userKey (fst e), di_val := snd e, di_m := Some m'\<rparr>))"
      if "di_seq it' = di_seq it" for it'
      using Suc.IH [OF n(1), of it'] Suc.prems Cons that unfolding n(2) by simp
    have loop: "dbIter_loop child_ops (Suc n) it m =
      (if \<not> in_range (di_end it) e then (False, it\<lparr>di_m := Some m\<rparr>)
       else if userKey (fst e) = di_last it then dbIter_loop child_ops n it (merge_next child_ops m)
       else if key_kind (fst e) = kindDelete then dbIter_loop child_ops n (it\<lparr>di_last := userKey (fst e)\<rparr>) (merge_next child_ops m)
       else (True, it\<lparr>di_last := userKey (fst e), di_k := userKey (fst e), di_val := snd e, di_m := Some (merge_next child_ops m)\<rparr>))"
      using v q r by (simp add: c splitInternalKey_conv)
    show ?thesis
      using IH [of it] IH [of "it\<lparr>di_last := userKey (fst e)\<rparr>"] n unfolding Cons loop scan_from.simps
      by (auto split: option.splits)
  qed
qed

lemma scan_from_live:
  assumes "sorted_entries es"
  shows "filter (in_range end') (kept True lst es) =
    (case scan_from end' lst es of None \<Rightarrow> [] | Some (e, es') \<Rightarrow> e # filter (in_range end') (kept True (userKey (fst e)) es'))
   \<and> (case scan_from end' lst es of None \<Rightarrow> True | Some (e, es') \<Rightarrow> sorted_entries es' \<and> set es' \<subseteq> set es \<and> length es' < length es)"
  using assms
proof (induction es arbitrary: lst)
  case (Cons e es)
  have s: "sorted_entries es" using Cons.prems by (simp add: sorted_entries_def)
  show ?case
  proof (cases "in_range end' e")
    case True
    then show ?thesis using Cons.IH [OF s, of lst] Cons.IH [OF s, of "userKey (fst e)"] s
      by (auto split: option.splits simp del: split_paired_All)
  next
    case False
    then obtain b where b: "end' = Some b" "\<not> bytes_compare (userKey (fst e)) b < 0" by (auto simp: in_range_def split: option.splits)
    have "\<not> in_range end' x" if x: "x \<in> set (e # es)" for x
    proof
      assume "in_range end' x"
      then have l: "bytes_compare (userKey (fst x)) b < 0" using b(1) by (simp add: in_range_def)
      have "\<not> bytes_compare (userKey (fst x)) (userKey (fst e)) < 0"
        using x Cons.prems user_before [of x e] by (auto simp: sorted_entries_def)
      then show False using l b(2) bytes_compare_total bytes_compare_trans by metis
    qed
    then have "filter (in_range end') (kept True lst (e # es)) = []" using kept_in [of _ True lst "e # es"] by (metis filter_empty_conv)
    then show ?thesis using False by (simp del: kept.simps)
  qed
qed simp

text \<open>The caller's loop: \<open>for it.Next() { ... it.Key(), it.Value() ... }\<close>.\<close>

fun dbIter_drain :: "'it internalIter \<Rightarrow> nat \<Rightarrow> nat \<Rightarrow> 'it dbIter \<Rightarrow> (bytes \<times> bytes) list" where
  "dbIter_drain ops fuel 0 it = []"
| "dbIter_drain ops fuel (Suc n) it =
     (case dbIter_Next ops fuel it of
        None \<Rightarrow> []
      | Some (ok, it') \<Rightarrow> if ok then (di_k it', di_val it') # dbIter_drain ops fuel n it' else [])"

definition pair_of :: "entry \<Rightarrow> bytes \<times> bytes" where
  "pair_of e = (userKey (fst e), snd e)"

lemma dbIter_drain_live:
  assumes "m_inv m" and "di_m it = Some m" and "di_err it = None" and "length (m_rest m) < n" and "length (m_rest m) \<le> fuel"
    and "\<forall>e \<in> set (m_rest m). key_seq (fst e) \<le> di_seq it"
  shows "dbIter_drain child_ops fuel n it = map pair_of (filter (in_range (di_end it)) (kept True (di_last it) (m_rest m)))"
  using assms
proof (induction n arbitrary: it m)
  case (Suc n)
  let ?s = "scan_from (di_end it) (di_last it) (m_rest m)"
  note sc = dbIter_loop_scan [OF Suc.prems(1,5,6)]
  note sl = scan_from_live [OF mrg.rest_sorted [OF Suc.prems(1)], of "di_end it" "di_last it"]
  have nx: "dbIter_Next child_ops fuel it = Some (dbIter_loop child_ops fuel it m)" using Suc.prems by (simp add: dbIter_Next_def)
  show ?case
  proof (cases ?s)
    case None
    then show ?thesis using sc sl nx by (cases "dbIter_loop child_ops fuel it m") simp
  next
    case (Some x)
    obtain e es where x: "x = (e, es)" by (cases x)
    obtain m' where m': "m_inv m'" "m_rest m' = es"
        "dbIter_loop child_ops fuel it m = (True, it\<lparr>di_last := userKey (fst e), di_k := userKey (fst e), di_val := snd e, di_m := Some m'\<rparr>)"
      using sc unfolding Some x by auto
    have es: "set es \<subseteq> set (m_rest m)" "length es < length (m_rest m)" using sl unfolding Some x by simp_all
    have "dbIter_drain child_ops fuel n (it\<lparr>di_last := userKey (fst e), di_k := userKey (fst e), di_val := snd e, di_m := Some m'\<rparr>)
        = map pair_of (filter (in_range (di_end it)) (kept True (userKey (fst e)) es))"
      using Suc.IH [of m' "it\<lparr>di_last := userKey (fst e), di_k := userKey (fst e), di_val := snd e, di_m := Some m'\<rparr>"] m'(1,2) es Suc.prems
      by (auto simp del: split_paired_All)
    then show ?thesis using sl nx m'(3) unfolding Some x by (simp add: pair_of_def)
  qed
qed simp

lemma merge_children:
  assumes "\<forall>c \<in> set cs. child_inv c \<and> child_rest c = [] \<and> length (child_entries c) \<le> child_size c"
  shows "m_inv (newMergeIter cs)"
    "merge_entries child_entries (newMergeIter cs) = sort_entries (concat (map child_entries cs))"
    "length (concat (map child_entries cs)) \<le> children_size cs"
proof -
  show "m_inv (newMergeIter cs)" by (rule chi.merge_new) (use assms in auto)
  show "merge_entries child_entries (newMergeIter cs) = sort_entries (concat (map child_entries cs))"
    by (simp only: merge_entries_def newMergeIter_def mergeIter.simps)
  show "length (concat (map child_entries cs)) \<le> children_size cs"
    using assms by (induction cs) (auto simp: children_size_def intro: add_mono)
qed

lemma seek_live:
  assumes "sorted_entries es" and "\<forall>e \<in> set es. engine_key (fst e) \<and> key_seq (fst e) \<le> seq" and "unat seq < 2 ^ 56"
  shows "seek_entries (makeInternalKey start seq kindPut) es = filter (\<lambda>e. \<not> bytes_compare (userKey (fst e)) start < 0) es"
proof -
  have "seek_entries (makeInternalKey start seq kindPut) es = filter (\<lambda>e. \<not> entry_before e (makeInternalKey start seq kindPut)) es"
    using assms engine_wf by (intro seek_entries_filter) auto
  also have "\<dots> = filter (\<lambda>e. \<not> bytes_compare (userKey (fst e)) start < 0) es"
  proof (rule filter_cong [OF refl])
    fix e assume e: "e \<in> set es"
    then have "\<not> entry_before e (makeInternalKey start seq kindPut) \<longleftrightarrow> bytes_compare start (userKey (fst e)) < 0 \<or> is_version start seq e"
      using not_before_version [OF _ assms(3)] assms(2) by blast
    moreover have "is_version start seq e \<longleftrightarrow> userKey (fst e) = start" using assms(2) e by (auto simp: is_version_def)
    moreover have "\<not> bytes_compare (userKey (fst e)) start < 0 \<longleftrightarrow> bytes_compare start (userKey (fst e)) < 0 \<or> userKey (fst e) = start"
      using bytes_compare_total [of "userKey (fst e)" start] bytes_compare_sym [of start "userKey (fst e)"] by auto
    ultimately show "(\<not> entry_before e (makeInternalKey start seq kindPut)) = (\<not> bytes_compare (userKey (fst e)) start < 0)" by blast
  qed
  finally show ?thesis .
qed

definition scan_spec :: "(bytes \<Rightarrow> bytes option) \<Rightarrow> bytes \<Rightarrow> bytes option \<Rightarrow> (bytes \<times> bytes) list \<Rightarrow> bool" where
  "scan_spec f start end' ps \<longleftrightarrow>
     sorted_wrt (\<lambda>p q. bytes_compare (fst p) (fst q) < 0) ps
     \<and> (\<forall>k v. (k, v) \<in> set ps \<longleftrightarrow>
          f k = Some v \<and> \<not> bytes_compare k start < 0 \<and> (case end' of None \<Rightarrow> True | Some b \<Rightarrow> bytes_compare k b < 0))"

lemma find_filter_user: "(\<And>e. userKey (fst e) = k \<Longrightarrow> P e = c) \<Longrightarrow> find (for_key k) (filter P es) = (if c then find (for_key k) es else None)"
  by (induction es) (auto simp: for_key_def)

lemma scan_children:
  assumes cs: "\<forall>c \<in> set cs. child_inv c \<and> child_rest c = [] \<and> length (child_entries c) \<le> child_size c"
    and e: "\<forall>e \<in> set (concat (map child_entries cs)). engine_key (fst e) \<and> key_seq (fst e) \<le> q \<and> userKey (fst e) \<noteq> []"
    and q: "unat q < 2 ^ 56" and age: "sorted_wrt newer (map child_entries cs)" and fuel: "children_size cs \<le> fuel" "children_size cs < n"
  shows "scan_spec (tiers_map (map child_entries cs)) start end' (dbIter_drain child_ops fuel n (newDbIter child_ops cs q start end'))"
proof -
  let ?E = "sort_entries (concat (map child_entries cs))" and ?k = "makeInternalKey start q kindPut"
  define R where "R = filter (\<lambda>e. \<not> bytes_compare (userKey (fst e)) start < 0) ?E"
  note mc = merge_children [OF cs]
  have sE: "sorted_entries ?E" using e engine_wf by (intro sorted_sort_entries) blast
  have eE: "\<forall>e \<in> set ?E. engine_key (fst e) \<and> key_seq (fst e) \<le> q \<and> userKey (fst e) \<noteq> []" using e by (simp only: set_sort_entries)
  have sk: "m_inv (merge_seek child_ops ?k (newMergeIter cs))" "m_rest (merge_seek child_ops ?k (newMergeIter cs)) = R"
    using mrg.seek [OF mc(1), of ?k] seek_live [OF sE _ q, of start] eE unfolding mc(2) R_def by simp_all
  have sR: "sorted_entries R" using sE by (simp add: R_def sorted_entries_def sorted_wrt_filter)
  have eR: "\<forall>e \<in> set R. userKey (fst e) \<noteq> [] \<and> key_seq (fst e) \<le> q" using eE unfolding R_def by (simp only: set_filter) blast
  have len: "length R \<le> children_size cs" using mc(3) le_trans [OF length_filter_le] unfolding R_def by (metis length_sort_entries)
  have drain: "dbIter_drain child_ops fuel n (newDbIter child_ops cs q start end') = map pair_of (filter (in_range end') (live R))"
    using dbIter_drain_live [OF sk(1), of "newDbIter child_ops cs q start end'" n fuel] fuel len eR
    by (simp add: newDbIter_def sk(2) live_def)
  have ts: "\<forall>T \<in> set (map child_entries cs). sorted_entries T" using cs chi.entries_sorted by auto
  have val: "val_of (find (for_key k) R) = (if \<not> bytes_compare k start < 0 then tiers_map (map child_entries cs) k else None)" for k
    using find_filter_user [of k "\<lambda>e. \<not> bytes_compare (userKey (fst e)) start < 0" "\<not> bytes_compare k start < 0" ?E]
      find_sort [OF tiers_age_sorted [OF age ts], of k]
    by (simp add: R_def tiers_map_def val_of_def del: set_concat)
  have "(k, v) \<in> set (map pair_of (filter (in_range end') (live R))) \<longleftrightarrow>
      (\<exists>x \<in> set (live R). userKey (fst x) = k \<and> snd x = v) \<and> (case end' of None \<Rightarrow> True | Some b \<Rightarrow> bytes_compare k b < 0)" for k v
    by (auto simp: pair_of_def in_range_def image_iff split: option.splits simp del: split_paired_Ex)
  moreover have "sorted_wrt (\<lambda>p q. bytes_compare (fst p) (fst q) < 0) (map pair_of (filter (in_range end') (live R)))"
    using kept_strict [OF sR, of "[]"] by (simp add: live_def sorted_wrt_map pair_of_def sorted_wrt_filter)
  ultimately show ?thesis unfolding drain scan_spec_def using live_mem [OF sR] eR val by auto
qed

lemma version_children_ok:
  assumes "db_inv d"
  shows "\<forall>c \<in> set (version_children (d_current d)). child_inv c \<and> child_rest c = [] \<and> length (child_entries c) \<le> child_size c"
    "map child_entries (version_children (d_current d)) = tiers (d_current d)"
proof -
  let ?v = "d_current d"
  have mt: "mt_inv m" if "m \<in> set (v_mem ?v # rev (v_imm ?v))" for m using assms that by (auto simp: db_inv_def)
  have tg: "table_good t" if "t \<in> set (v_tables ?v)" for t using assms that by (simp add: db_inv_def)
  show "\<forall>c \<in> set (version_children ?v). child_inv c \<and> child_rest c = [] \<and> length (child_entries c) \<le> child_size c"
    using mem_child_iter mt tab_child_iter tg by (auto simp: version_children_def)
  show "map child_entries (version_children ?v) = tiers ?v"
    using mem_child_iter(2) mt tab_child_iter(2) tg by (simp add: version_children_def tiers_def)
qed

lemma db_scan_abs:
  assumes inv: "db_inv d" and open': "\<not> d_closed d" and fuel: "children_size (version_children (d_current d)) \<le> fuel"
    and n: "children_size (version_children (d_current d)) < n"
  shows "scan_spec (db_abs d) start end' (dbIter_drain child_ops fuel n (db_Scan d start end'))"
proof -
  let ?v = "d_current d"
  note cs = version_children_ok(1) [OF inv] and ce = version_children_ok(2) [OF inv]
  have ok: "\<forall>T \<in> set (tiers ?v). tier_ok (d_seq d) T" "sorted_wrt newer (tiers ?v)" "unat (d_seq d) < 2 ^ 56" using inv unfolding db_inv_def by blast+
  have e: "\<forall>e \<in> set (concat (tiers ?v)). engine_key (fst e) \<and> key_seq (fst e) \<le> d_seq d \<and> userKey (fst e) \<noteq> []"
    using ok(1) unfolding tier_ok_def set_concat by blast
  show ?thesis
    using scan_children [OF cs _ ok(3) _ fuel n, of start end'] e ok(2) open' unfolding ce
    by (simp add: db_Scan_def acquire_def db_abs_def del: set_concat)
qed

end
