(* ===== verification/Db_Snapshot.thy ===== *)
theory Db_Snapshot
  imports Db_Scan
begin

text \<open>
  Snapshots: an export is a table file of the live entries, and restoring an engine from it, whatever it
  held before, gives an engine with the contents of the exporting one.
\<close>

section \<open>Export\<close>

lemma fold_export_body:
  "\<forall>e \<in> set es. key_seq (fst e) \<le> q \<Longrightarrow>
   snd (fold (\<lambda>e. export_body q (fst e) (snd e)) es (lst, w)) = add_all w (kept True lst es)"
proof (induction es arbitrary: lst w)
  case (Cons e es)
  then show ?case by (auto simp: export_body_def splitInternalKey_conv add_all_def)
qed (simp add: add_all_def)

context internal_iter
begin

lemma exportIter_live:
  assumes "inv it" and "length (entries it) \<le> fuel" and "\<forall>e \<in> set (entries it). key_seq (fst e) \<le> q"
  shows "exportIter ops fuel q bs it = Inr (file_of (add_all (newTableWriter 0 bs) (live (entries it))))"
proof -
  obtain it' s where l: "iter_loop ops (export_body q) fuel (it_seekToFirst ops it) ([], newStreamWriter bs) = (it', s)"
    by (cases "iter_loop ops (export_body q) fuel (it_seekToFirst ops it) ([], newStreamWriter bs)")
  have "inv it'" "snd s = add_all (newStreamWriter bs) (live (entries it))"
    using iter_loop_all [OF assms(1,2), of "export_body q" "([], newStreamWriter bs)"] l fold_export_body [OF assms(3), of "[]" "newStreamWriter bs"]
    by (simp_all add: live_def)
  then show ?thesis using l close [of it'] by (cases s) (simp add: exportIter_def file_of_def newStreamWriter_def)
qed

end

definition db_live :: "db \<Rightarrow> entry list" where
  "db_live d = live (sort_entries (concat (tiers (d_current d))))"

lemma tiers_entries:
  assumes "db_inv d"
  shows "\<forall>e \<in> set (concat (tiers (d_current d))). engine_key (fst e) \<and> key_seq (fst e) \<le> d_seq d \<and> userKey (fst e) \<noteq> []"
    "sorted_entries (sort_entries (concat (tiers (d_current d))))"
    "find (for_key k) (sort_entries (concat (tiers (d_current d)))) = find (for_key k) (concat (tiers (d_current d)))"
proof -
  have ok: "\<forall>T \<in> set (tiers (d_current d)). tier_ok (d_seq d) T" "sorted_wrt newer (tiers (d_current d))" using assms unfolding db_inv_def by blast+
  show e: "\<forall>e \<in> set (concat (tiers (d_current d))). engine_key (fst e) \<and> key_seq (fst e) \<le> d_seq d \<and> userKey (fst e) \<noteq> []"
    using ok(1) unfolding tier_ok_def set_concat by blast
  then show "sorted_entries (sort_entries (concat (tiers (d_current d))))" using engine_wf by (intro sorted_sort_entries) blast
  show "find (for_key k) (sort_entries (concat (tiers (d_current d)))) = find (for_key k) (concat (tiers (d_current d)))"
    by (rule find_sort [OF tiers_age_sorted [OF ok(2)]]) (use ok(1) in \<open>simp add: tier_ok_def\<close>)
qed

lemma db_Export_live:
  assumes inv: "db_inv d" and "\<not> d_closed d"
  shows "db_Export d = Inr (file_of (add_all (newTableWriter 0 (nat (o_blockSize (d_opts d)))) (db_live d)))"
proof -
  let ?cs = "version_children (d_current d)"
  note mc = merge_children [OF version_children_ok(1) [OF inv], unfolded version_children_ok(2) [OF inv]]
  have "\<forall>e \<in> set (merge_entries child_entries (newMergeIter ?cs)). key_seq (fst e) \<le> d_seq d"
    unfolding mc(2) set_sort_entries using tiers_entries(1) [OF inv] by blast
  then have "exportIter (merge_ops child_ops) (children_size ?cs) (d_seq d) (nat (o_blockSize (d_opts d))) (newMergeIter ?cs)
      = Inr (file_of (add_all (newTableWriter 0 (nat (o_blockSize (d_opts d)))) (db_live d)))"
    using mrg.exportIter_live [OF mc(1), of "children_size ?cs" "d_seq d"] mc(3) unfolding mc(2) db_live_def by simp
  then show ?thesis using assms(2) by (simp add: db_Export_def acquire_def)
qed

lemma live_in: "e \<in> set (live es) \<Longrightarrow> e \<in> set es"
  by (simp add: live_def kept_in)

lemma db_live_entries:
  assumes inv: "db_inv d"
  shows "e \<in> set (db_live d) \<Longrightarrow> engine_key (fst e) \<and> key_seq (fst e) \<le> d_seq d \<and> userKey (fst e) \<noteq> []"
    "sorted_entries (db_live d)" "val_of (find (for_key k) (db_live d)) = db_abs d k"
proof -
  let ?E = "sort_entries (concat (tiers (d_current d)))"
  show "e \<in> set (db_live d) \<Longrightarrow> engine_key (fst e) \<and> key_seq (fst e) \<le> d_seq d \<and> userKey (fst e) \<noteq> []"
    using live_in tiers_entries(1) [OF inv] unfolding db_live_def by (metis set_sort_entries)
  show "sorted_entries (db_live d)" unfolding db_live_def live_def by (rule sorted_kept [OF tiers_entries(2) [OF inv]])
  have "\<forall>e \<in> set ?E. userKey (fst e) \<noteq> []" using tiers_entries(1) [OF inv] by (simp only: set_sort_entries) blast
  then show "val_of (find (for_key k) (db_live d)) = db_abs d k"
    using val_kept_all [OF _ tiers_entries(2) [OF inv], of k] tiers_entries(3) [OF inv, of k]
    by (simp add: db_live_def live_def db_abs_def tiers_map_def)
qed

section \<open>Restore\<close>

lemma fold_restore_body:
  fixes s :: restore_scan
  defines "step \<equiv> \<lambda>e. restore_body (fst e) (snd e)"
  shows "tm_num (rs_meta (fold step es s)) = tm_num (rs_meta s)"
    "tm_count (rs_meta (fold step es s)) = tm_count (rs_meta s) + word_of_nat (length es)"
    "rs_maxSeq s \<le> rs_maxSeq (fold step es s)"
    "e \<in> set es \<Longrightarrow> key_seq (fst e) \<le> rs_maxSeq (fold step es s)"
    "rs_maxSeq s \<le> q \<Longrightarrow> \<forall>e \<in> set es. key_seq (fst e) \<le> q \<Longrightarrow> rs_maxSeq (fold step es s) \<le> q"
proof -
  have st: "tm_num (rs_meta (step e s)) = tm_num (rs_meta s)" "tm_count (rs_meta (step e s)) = tm_count (rs_meta s) + 1"
      "rs_maxSeq s \<le> rs_maxSeq (step e s)" "key_seq (fst e) \<le> rs_maxSeq (step e s)"
      "rs_maxSeq s \<le> q \<Longrightarrow> key_seq (fst e) \<le> q \<Longrightarrow> rs_maxSeq (step e s) \<le> q" for e s q
    by (auto simp: step_def restore_body_def splitInternalKey_conv Let_def)
  show "tm_num (rs_meta (fold step es s)) = tm_num (rs_meta s)" by (induction es arbitrary: s) (simp_all add: st)
  show "tm_count (rs_meta (fold step es s)) = tm_count (rs_meta s) + word_of_nat (length es)"
    by (induction es arbitrary: s) (simp_all add: st add_ac)
  have mono: "rs_maxSeq s \<le> rs_maxSeq (fold step es s)" for s by (induction es arbitrary: s) (auto intro: order_trans [OF st(3)])
  then show "rs_maxSeq s \<le> rs_maxSeq (fold step es s)" .
  show "key_seq (fst e) \<le> rs_maxSeq (fold step es s)" if "e \<in> set es"
    using that
  proof (induction es arbitrary: s)
    case (Cons x xs)
    have "rs_maxSeq t \<le> rs_maxSeq (fold step xs t)" for t by (induction xs arbitrary: t) (auto intro: order_trans [OF st(3)])
    then show ?case using Cons st(4) [of x s] by (auto intro: order_trans)
  qed simp
  show "rs_maxSeq (fold step es s) \<le> q" if "rs_maxSeq s \<le> q" "\<forall>e \<in> set es. key_seq (fst e) \<le> q"
    using that st(5) by (induction es arbitrary: s) auto
qed

lemma restore_install_abs:
  assumes inv: "db_inv d" and n: "num < d_nextNum d" and seg: "w_seg (d_wal d) = seg"
    and t: "tb_ok t cs" "concat cs = es" "tm_num meta = num" "tm_count meta = word_of_nat (length es)" "length es < 2 ^ 32"
    and es: "sorted_entries es" "\<forall>e \<in> set es. engine_key (fst e) \<and> key_seq (fst e) \<le> mq \<and> userKey (fst e) \<noteq> []" and mq: "unat mq < 2 ^ 56"
    and r: "restore_install d t meta mq seg rnd True os = (e, d')"
  shows "(os_delete os = DelOk \<longrightarrow> e = None) \<and> db_inv d' \<and> (\<forall>k. db_abs d' k = val_of (find (for_key k) es)) \<and> d_closed d' = d_closed d"
proof -
  let ?t = "t\<lparr>tb_meta := meta\<rparr>" and ?ts = "if tm_count meta > 0 then [t\<lparr>tb_meta := meta\<rparr>] else []"
  have c: "tm_count meta > 0 \<longleftrightarrow> es \<noteq> []" using t(4,5) by (auto simp: word_gt_0 word_of_nat_eq_0_iff dest: dvd_imp_le)
  have tok: "tb_ok ?t cs" using t(1) by (simp add: tb_ok_def)
  have te: "table_entries ?t = es" using table_entries_ok [OF tok] t(2) by simp
  have tg: "table_good ?t" unfolding table_good_def using tok t(2) es(2) by blast
  have f: "os_delete os = DelOk \<longrightarrow> e = None" "d_current d' = newVersion (newMemtable rnd seg) [] ?ts" "d_seq d' = (if mq > d_seq d then mq else d_seq d)"
      "w_seg (d_wal d') = seg" "d_nextNum d' = d_nextNum d" "d_closed d' = d_closed d"
    using r seg delete_segments_fields [of _ seg os e d'] by (auto simp: restore_install_def Let_def writeManifest_def)
  have tiers: "concat (tiers (d_current d')) = es" "tiers (d_current d') = [] # (if es = [] then [] else [es])"
    using te c by (auto simp: f tiers_def newVersion_def)
  have le: "key_seq (fst x) \<le> d_seq d'" if "x \<in> set es" for x using es(2) that by (auto simp: f intro: order_trans)
  have ok: "tier_ok (d_seq d') es" "tier_ok (d_seq d') []" using es le by (auto simp: tier_ok_def sorted_entries_def)
  have "table_num ?t < d_nextNum d" using n t(3) by (simp add: table_num_def)
  then have "db_inv d'" unfolding db_inv_def tiers(2) using ok tg mq inv
    by (auto simp: f newVersion_def newer_def db_inv_def)
  then show ?thesis using f(1,6) tiers(1) by (simp add: db_abs_def tiers_map_def)
qed

lemma db_Restore_stream:
  assumes inv: "db_inv d" and n: "d_nextNum d < d_nextNum d + 1" and w: "WAL_Rotate (d_wal d) os = (Inr seg, w)"
    and ok: "stream_ok es" and len: "length (file_of (add_all (newTableWriter num bs) es)) < 2 ^ 32"
    and es: "\<forall>e \<in> set es. engine_key (fst e) \<and> key_seq (fst e) \<le> q \<and> userKey (fst e) \<noteq> []" and q: "unat q < 2 ^ 56"
  shows "\<exists>e d'. db_Restore d (file_of (add_all (newTableWriter num bs) es)) rnd True os True = (e, d')
    \<and> (os_delete os = DelOk \<longrightarrow> e = None) \<and> db_inv d'
    \<and> (\<forall>k. db_abs d' k = val_of (find (for_key k) es)) \<and> d_closed d' = d_closed d"
proof -
  let ?r = "file_of (add_all (newTableWriter num bs) es)" and ?n = "d_nextNum d"
  let ?meta = "\<lparr>tm_num = ?n, tm_size = word_of_nat (length ?r), tm_count = 0, tm_smallest = [], tm_largest = []\<rparr>"
  let ?dr = "d\<lparr>d_nextNum := ?n + 1, d_wal := w, d_files := (?n, ?r) # d_files d\<rparr>" and ?init = "\<lparr>rs_meta = ?meta, rs_maxSeq = 0\<rparr>"
  obtain cs where cs: "tb_ok (opened_table ?meta cs) cs" "concat cs = es" "openTable ?meta ?r = Inr (opened_table ?meta cs)" "?r = table_file cs"
    using written_table [OF ok len, of ?meta] by blast
  let ?it = "Some (table_iter (opened_table ?meta cs))" and ?res = "fold (\<lambda>e. restore_body (fst e) (snd e)) es ?init"
  have ti: "ti_inv ?it" "ti_entries ?it = es" using ti_on_abs [OF ti_on_iter [OF cs(1)]] cs(2) by simp_all
  have le: "length (ti_entries ?it) \<le> length ?r" using length_concat_le_file [of cs] cs(2,4) ti(2) by simp
  obtain it' s' where l0: "iter_loop table_ops restore_body (length ?r) (it_seekToFirst table_ops ?it) ?init = (it', s')"
    by (rule prod.exhaust)
  have l: "iter_loop table_ops restore_body (length ?r) (it_seekToFirst table_ops ?it) ?init = (it', ?res)" "ti_inv it'"
    using tbi.iter_loop_all [OF ti(1) le, of restore_body ?init] unfolding ti(2) l0 fst_conv snd_conv by simp_all
  have cl: "it_close table_ops it' = None" by (rule tbi.close [OF l(2)])
  obtain e d' where ri: "restore_install ?dr (opened_table ?meta cs) (rs_meta ?res) (rs_maxSeq ?res) seg rnd True os = (e, d')"
    by (cases "restore_install ?dr (opened_table ?meta cs) (rs_meta ?res) (rs_maxSeq ?res) seg rnd True os")
  have rs: "db_Restore d ?r rnd True os True = (e, d')"
    using cs(3) l(1) cl w ri by (simp add: db_Restore_def allocNum_def Let_def)
  have sg: "w_seg (d_wal d) \<le> w_seg w" "seg = w_seg w" using WAL_seg_mono(1) [OF w] w by (auto simp: WAL_Rotate_def split: prod.splits option.splits)
  have i1: "db_inv ?dr"
    using db_inv_same [OF db_inv_wal [OF inv sg(1)], of ?dr] n by simp
  have mq: "rs_maxSeq ?res \<le> q" using fold_restore_body(5) [of ?init q es] es by simp
  have uq: "unat (rs_maxSeq ?res) < 2 ^ 56" using mq q by (simp add: word_le_nat_alt)
  have b: "length es < 2 ^ 32" "sorted_entries es" using ok by (auto simp: stream_ok_def)
  have ek: "\<forall>e \<in> set es. engine_key (fst e) \<and> key_seq (fst e) \<le> rs_maxSeq ?res \<and> userKey (fst e) \<noteq> []"
    using es fold_restore_body(4) [of _ es ?init] by blast
  have "(os_delete os = DelOk \<longrightarrow> e = None) \<and> db_inv d' \<and> (\<forall>k. db_abs d' k = val_of (find (for_key k) es)) \<and> d_closed d' = d_closed ?dr"
    by (rule restore_install_abs [OF i1 _ _ cs(1,2) _ _ b ek uq ri])
      (use n sg(2) fold_restore_body(1,2) [of es ?init] in \<open>simp_all\<close>)
  then show ?thesis using rs by simp
qed

section \<open>An engine with one key\<close>

definition one_opts :: Options where
  "one_opts = \<lparr>o_memtableSize = 0, o_blockSize = 0, o_syncAlways = True\<rparr>"

definition one_entry :: entry where
  "one_entry = (makeInternalKey [1] 1 kindPut, [10])"

lemma one_write:
  obtains d where "db_Put (new_db one_opts 0) [1] [10] 0 os_ok os_ok = Some (None, d)" and "db_inv d" and "\<not> d_closed d"
    and "tiers (d_current d) = [[one_entry]]" and "d_opts d = withDefaults one_opts" and "db_abs d = [[1] \<mapsto> [10]]"
proof -
  let ?b = "Batch_Put emptyBatch [1] [10]" and ?d = "new_db one_opts 0"
  define w where "w = snd (WAL_Append (d_wal ?d) (encode_group 0 [?b]) os_ok)"
  define d where "d = put_group (follow_segment (?d\<lparr>d_wal := w\<rparr>) 1 0) [?b]"
  have c: "db_Write ?d [?b] 0 os_ok os_ok = Some (None, d)"
    by (simp add: d_def w_def db_Write_def Batch_Len_def Batch_Put_def emptyBatch_def db_commit_def makeRoom_def new_db_def withDefaults_def one_opts_def
        WAL_Append_def fresh_wal_def WAL_write_def os_ok_def Let_def syncLocked_def Batch_encode_def newVersion_def)
  have g: "group_ops [?b] = [\<lparr>op_kind = kindPut, op_key = [1], op_value = [10]\<rparr>]"
    by (simp add: group_ops_def Batch_Put_def emptyBatch_def)
  have r: "db_inv d \<and> d_closed d = d_closed ?d \<and> db_abs d = foldl apply_op (db_abs ?d) (group_ops [?b])"
    using db_Write_refines [OF c new_db_inv] unfolding g by (simp add: ops_ok_def Batch_Put_def new_db_def)
  have "mt_entries (memtable_put (newMemtable 0 1) 1 kindPut [1] [10]) = [one_entry]"
    using mt_entries_put [OF mt_inv_new] by (simp add: op_entry_def one_entry_def)
  then have t: "tiers (d_current d) = [[one_entry]]" "d_opts d = withDefaults one_opts"
    by (simp_all add: d_def put_group_def g follow_segment_def new_db_def newVersion_def tiers_def)
  have "db_abs d = [[1] \<mapsto> [10]]" using r unfolding g new_db_abs by (auto simp: apply_op_def kindPut_def kindDelete_def)
  then show ?thesis using that [of d] c r t by (simp add: db_Put_def new_db_def)
qed

lemma one_entry_simps:
  "userKey (fst one_entry) = [1]" "key_kind (fst one_entry) = kindPut" "engine_key (fst one_entry)" "length (fst one_entry) = 9"
  by (simp_all add: one_entry_def engine_key_def key_kind_def) (simp add: makeInternalKey_def)

lemma one_file: "length (file_of (add_all (newTableWriter 0 4096) [one_entry])) < 2 ^ 32"
  using length_buildBloom [of "[[1]]"]
  by (simp add: one_entry_def file_of_def add_all_def tableWriter_finish_def tableWriter_add_def newTableWriter_def add_pending_def flushBlock_def
      writeBlock_def builder_add_def builder_finish_def builder_reset_def newBuilder_def builder_size_def builder_empty_def
      footer_bytes_def blockHandle_encode_def encode_entry_def restartInterval_def bloom_bytes_def bloomBitsPerKey_def Let_def
      makeInternalKey_def [of "[1]"] userKey_def trailerSize_def put_uvarint_small)

section \<open>Properties\<close>

text \<open>
  C14: a scan lists the live keys. Calling \<open>Next\<close> on what \<open>Scan\<close> returns until it says there is no more yields exactly
  the pairs whose key is bound and lies between the bounds, in ascending order of the keys, each once; the
  number of entries in the tiers bounds the number of steps.
\<close>

theorem scan_lists_live_keys:
  assumes "db_inv d" and "\<not> d_closed d" and "n = children_size (version_children (d_current d))"
  shows "scan_spec (db_abs d) start end' (dbIter_drain child_ops n (Suc n) (db_Scan d start end'))"
  using db_scan_abs [OF assms(1,2), of n "Suc n"] assms(3) by simp

theorem scan_lists_live_keys_witness:
  "\<exists>d n. db_Put (new_db one_opts 0) [1] [10] 0 os_ok os_ok = Some (None, d)
     \<and> scan_spec [[1] \<mapsto> [10]] [] (Some [5]) (dbIter_drain child_ops n (Suc n) (db_Scan d [] (Some [5])))"
proof -
  obtain d where d: "db_Put (new_db one_opts 0) [1] [10] 0 os_ok os_ok = Some (None, d)" "db_inv d" "\<not> d_closed d" "db_abs d = [[1] \<mapsto> [10]]"
    by (rule one_write)
  show ?thesis using d(1) scan_lists_live_keys [OF d(2,3) refl, of "[]" "Some [5]"] unfolding d(4) by blast
qed

text \<open>
  C13: snapshots carry the whole state. What one engine exports, any engine can restore: the restored engine
  is in a good state and its \<open>Get\<close> answers exactly as the exporting one does, whatever it held before. The
  log of the restoring engine must rotate, and the file must stay below the size the format has room for. \<open>Restore\<close> reports an error only when the old segments of
  its log cannot be removed, and the contents are restored even then.
\<close>

theorem snapshot_roundtrip:
  assumes "db_inv a" and "\<not> d_closed a" and "db_Export a = Inr r"
    and "small_stream (concat (tiers (d_current a)))" and "length r < 2 ^ 32"
    and "db_inv b" and "\<not> d_closed b" and "d_nextNum b < d_nextNum b + 1" and "WAL_Rotate (d_wal b) os = (Inr seg, w)"
  shows "\<exists>e b'. db_Restore b r rnd True os True = (e, b') \<and> (os_delete os = DelOk \<longrightarrow> e = None)
    \<and> db_inv b' \<and> (\<forall>k. db_Get b' k = db_Get a k)"
proof -
  let ?bs = "nat (o_blockSize (d_opts a))"
  have r: "r = file_of (add_all (newTableWriter 0 ?bs) (db_live a))" using db_Export_live [OF assms(1,2)] assms(3) by simp
  note el = db_live_entries [OF assms(1)]
  have "small_stream (db_live a)"
    unfolding db_live_def live_def
    by (rule small_kept) (use assms(4) in \<open>simp add: small_stream_def del: set_concat\<close>)
  then have "stream_ok (db_live a)" using el(1,2) engine_wf by (auto simp: stream_ok_def small_stream_def simp del: split_paired_All)
  moreover have "unat (d_seq a) < 2 ^ 56" using assms(1) by (simp add: db_inv_def)
  ultimately obtain e b' where b': "db_Restore b r rnd True os True = (e, b')" "db_inv b'"
      "\<forall>k. db_abs b' k = val_of (find (for_key k) (db_live a))" "d_closed b' = d_closed b" "os_delete os = DelOk \<longrightarrow> e = None"
    using db_Restore_stream [OF assms(6,8,9), of "db_live a" 0 ?bs "d_seq a" rnd] assms(5) el(1) unfolding r by blast
  have "db_Get b' k = db_Get a k" for k
    using db_Get_abs [OF b'(2), of k] db_Get_abs [OF assms(1,2), of k] b'(3,4) assms(7) el(3) by simp
  then show ?thesis using b'(1,2,5) by blast
qed

theorem snapshot_roundtrip_witness:
  "\<exists>a r b. db_Put (new_db one_opts 0) [1] [10] 0 os_ok os_ok = Some (None, a) \<and> db_Export a = Inr r
     \<and> db_Restore (new_db one_opts 0) r 0 True os_ok True = (None, b)
     \<and> db_Get b [1] = Some (Inr [10]) \<and> db_Get b [2] = Some (Inl ErrNotFound)"
proof -
  let ?b = "new_db one_opts 0"
  obtain a where a: "db_Put ?b [1] [10] 0 os_ok os_ok = Some (None, a)" "db_inv a" "\<not> d_closed a" "tiers (d_current a) = [[one_entry]]"
      "d_opts a = withDefaults one_opts" "db_abs a = [[1] \<mapsto> [10]]"
    by (rule one_write)
  let ?r = "file_of (add_all (newTableWriter 0 4096) [one_entry])"
  have "db_live a = [one_entry]" by (simp add: db_live_def a(4) live_def one_entry_simps kindPut_def kindDelete_def)
  then have r: "db_Export a = Inr ?r" using db_Export_live [OF a(2,3)] by (simp add: a(5) withDefaults_def one_opts_def)
  have s: "small_stream (concat (tiers (d_current a)))" by (simp add: a(4) small_stream_def one_entry_simps)
  obtain w where w: "WAL_Rotate (d_wal ?b) os_ok = (Inr 2, w)"
    by (simp add: new_db_def fresh_wal_def WAL_Rotate_def rotateLocked_def syncLocked_def openSegment_def os_ok_def)
  have b: "\<not> d_closed ?b" "d_nextNum ?b < d_nextNum ?b + 1" by (simp_all add: new_db_def)
  obtain b' where b': "db_Restore ?b ?r 0 True os_ok True = (None, b')" "\<forall>k. db_Get b' k = db_Get a k"
    using snapshot_roundtrip [OF a(2,3) r s one_file new_db_inv b w, of 0] by auto
  have "db_Get a [1] = Some (Inr [10])" "db_Get a [2] = Some (Inl ErrNotFound)"
    using db_Get_abs [OF a(2,3)] by (simp_all add: a(6) lookup_result_def)
  then show ?thesis using a(1) r b' by (intro exI [of _ a] exI [of _ ?r] exI [of _ b']) simp
qed

end
