(* ===== verification/Memdb_Refine.thy ===== *)
theory Memdb_Refine
  imports Db_Snapshot
begin

text \<open>
  The engine without files (\<open>src/storage/memdb.go\<close>) is the same map: its reads and scans answer as those of the
  engine with files after the same operations, and a snapshot taken from it restores to the same contents.
\<close>

definition md_abs :: "memDB \<Rightarrow> bytes \<Rightarrow> bytes option" where
  "md_abs d = tiers_map [mt_entries (md_mem d)]"

definition md_inv :: "memDB \<Rightarrow> bool" where
  "md_inv d \<longleftrightarrow> mt_inv (md_mem d) \<and> tier_ok (md_seq d) (mt_entries (md_mem d)) \<and> mt_maxSeq (md_mem d) \<le> md_seq d \<and> unat (md_seq d) < 2 ^ 56"

lemma NewMemory_abs: "md_inv (NewMemory seed)" "md_abs (NewMemory seed) = (\<lambda>k. None)" "\<not> md_closed (NewMemory seed)" "md_seq (NewMemory seed) = 0"
  by (simp_all add: md_inv_def md_abs_def NewMemory_def tier_ok_def sorted_entries_def fun_eq_iff tiers_map_def val_of_def)

lemma memDB_Get_abs:
  assumes "md_inv d" and "\<not> md_closed d"
  shows "memDB_Get d k = lookup_result (md_abs d k)"
proof -
  have m: "\<forall>m \<in> set [md_mem d]. mt_inv m \<and> (\<forall>e \<in> set (mt_entries m). key_seq (fst e) \<le> md_seq d)" and q: "unat (md_seq d) < 2 ^ 56"
    using assms(1) by (auto simp: md_inv_def tier_ok_def)
  have "memDB_Get d k = (case get_mems [md_mem d] k (md_seq d) of None \<Rightarrow> Inl ErrNotFound | Some r \<Rightarrow> r)"
    using assms(2) by (simp add: memDB_Get_def Let_def)
  also have "\<dots> = lookup_result (md_abs d k)"
    unfolding get_mems_find [OF m q] by (simp add: md_abs_def tiers_map_def lookup_result_def val_of_def split: option.splits)
  finally show ?thesis .
qed

lemma memDB_Write_abs:
  assumes "md_inv d" and "\<not> md_closed d" and "ops_ok (b_ops b)" and "unat (md_seq d) + length (b_ops b) < 2 ^ 56"
  shows "\<exists>d'. memDB_Write d b = (None, d') \<and> md_inv d' \<and> \<not> md_closed d' \<and> md_abs d' = foldl apply_op (md_abs d) (b_ops b)
    \<and> unat (md_seq d') = unat (md_seq d) + length (b_ops b)"
proof -
  let ?q = "md_seq d + word_of_nat (length (b_ops b))"
  have st: "mem_step (md_seq d) (md_mem d) ?q (put_ops (md_mem d) (md_seq d + 1) (b_ops b)) (b_ops b)"
    by (rule put_ops_refines) (use assms in \<open>auto simp: md_inv_def\<close>)
  have u: "unat ?q = unat (md_seq d) + length (b_ops b)" using assms(4) by (simp add: unat_word_ariths unat_of_nat)
  show ?thesis
    by (rule exI [of _ "d\<lparr>md_mem := put_ops (md_mem d) (md_seq d + 1) (b_ops b), md_seq := ?q\<rparr>"])
      (use st u assms(2,4) in \<open>auto simp: memDB_Write_def md_inv_def md_abs_def mem_step_def\<close>)
qed

lemma memDB_Writes_abs:
  assumes "md_inv d" and "\<not> md_closed d" and "ops_ok (group_ops bs)" and "unat (md_seq d) + length (group_ops bs) < 2 ^ 56"
  defines "d' \<equiv> foldl (\<lambda>d b. snd (memDB_Write d b)) d bs"
  shows "md_inv d' \<and> \<not> md_closed d' \<and> md_abs d' = foldl apply_op (md_abs d) (group_ops bs)"
  unfolding d'_def using assms(1-4)
proof (induction bs arbitrary: d)
  case (Cons b bs)
  have g: "group_ops (b # bs) = b_ops b @ group_ops bs" by (simp add: group_ops_def)
  have o: "ops_ok (b_ops b)" "ops_ok (group_ops bs)" using Cons.prems(3) by (simp_all add: g ops_ok_def)
  obtain d1 where d1: "memDB_Write d b = (None, d1)" "md_inv d1" "\<not> md_closed d1" "md_abs d1 = foldl apply_op (md_abs d) (b_ops b)"
      "unat (md_seq d1) = unat (md_seq d) + length (b_ops b)"
    using memDB_Write_abs [OF Cons.prems(1,2) o(1)] Cons.prems(4) by (auto simp: g)
  show ?case using Cons.IH [OF d1(2,3) o(2)] Cons.prems(4) d1 by (simp add: g)
qed (simp add: group_ops_def)

lemma memDB_scan_abs:
  assumes "md_inv d" and "\<not> md_closed d" and "n = child_size (mem_child (md_mem d))"
  shows "scan_spec (md_abs d) start end' (dbIter_drain child_ops n (Suc n) (memDB_Scan d start end'))"
proof -
  have m: "mt_inv (md_mem d)" using assms(1) by (simp add: md_inv_def)
  have "scan_spec (tiers_map (map child_entries [mem_child (md_mem d)])) start end'
      (dbIter_drain child_ops n (Suc n) (newDbIter child_ops [mem_child (md_mem d)] (md_seq d) start end'))"
    by (rule scan_children)
      (use mem_child_iter [OF m] assms in \<open>auto simp: md_inv_def tier_ok_def children_size_def\<close>)
  then show ?thesis using assms(2) mem_child_iter(2) [OF m] by (simp add: memDB_Scan_def md_abs_def)
qed

section \<open>Properties\<close>

text \<open>
  C15: the two engines are interchangeable. After the batches \<open>bs\<close> the in-memory engine answers every \<open>Get\<close> as the
  engine with files does after any execution that acknowledged the same operations.
\<close>

theorem memdb_equivalent_to_engine:
  assumes "Open opts [] None [] rand os_ok = Inr d0" and "engine_run d0 (group_ops bs) d"
    and "ops_ok (group_ops bs)" and "length (group_ops bs) < 2 ^ 56"
  shows "db_Get d k = Some (memDB_Get (foldl (\<lambda>d b. snd (memDB_Write d b)) (NewMemory seed) bs) k)"
proof -
  have d0: "d0 = new_db opts (rand_next rand)" using assms(1) Open_new by simp
  have "\<not> d_closed d0" by (simp add: d0 new_db_def)
  then have d: "db_inv d" "\<not> d_closed d" "db_abs d = foldl apply_op (\<lambda>k. None) (group_ops bs)"
    using engine_run_refines [OF assms(2)] new_db_inv new_db_abs d0 by simp_all
  have "md_inv (foldl (\<lambda>d b. snd (memDB_Write d b)) (NewMemory seed) bs) \<and> \<not> md_closed (foldl (\<lambda>d b. snd (memDB_Write d b)) (NewMemory seed) bs)
      \<and> md_abs (foldl (\<lambda>d b. snd (memDB_Write d b)) (NewMemory seed) bs) = foldl apply_op (\<lambda>k. None) (group_ops bs)"
    using memDB_Writes_abs [OF NewMemory_abs(1,3) assms(3), of seed] assms(4) by (simp add: NewMemory_abs)
  then show ?thesis using db_Get_abs [OF d(1,2)] memDB_Get_abs d(3) by simp
qed

theorem memdb_equivalent_to_engine_witness:
  "\<exists>d0 d. Open one_opts [] None [] [] os_ok = Inr d0 \<and> db_Put d0 [1] [10] 0 os_ok os_ok = Some (None, d)
     \<and> db_Get d [1] = Some (memDB_Get (foldl (\<lambda>d b. snd (memDB_Write d b)) (NewMemory 7) [Batch_Put emptyBatch [1] [10]]) [1])"
proof -
  let ?b = "Batch_Put emptyBatch [1] [10]"
  obtain d where d: "db_Put (new_db one_opts 0) [1] [10] 0 os_ok os_ok = Some (None, d)" by (rule one_write)
  have o: "Open one_opts [] None [] [] os_ok = Inr (new_db one_opts 0)" using Open_new [of one_opts "[]"] by (simp add: rand_next_def)
  have g: "ops_ok (group_ops [?b])" "length (group_ops [?b]) < 2 ^ 56" by (simp_all add: group_ops_def Batch_Put_def emptyBatch_def ops_ok_def)
  have "engine_run (new_db one_opts 0) ([] @ group_ops [?b]) d"
    by (rule engine_run.acknowledged [OF engine_run.start])
      (use d g in \<open>simp_all add: db_Put_def write_fits_def Batch_Put_def new_db_def\<close>)
  then have "db_Get d [1] = Some (memDB_Get (foldl (\<lambda>d b. snd (memDB_Write d b)) (NewMemory 7) [?b]) [1])"
    using memdb_equivalent_to_engine [OF o _ g] by simp
  then show ?thesis using d o by blast
qed

end
