(* ===== verification/Statemachine.thy ===== *)
theory Statemachine
  imports Keyhash Raft_Log Memdb_Refine
begin

text \<open>
  The replicated state machine (\<open>src/kv/statemachine.go\<close>): commands of the log applied to the engine, client
  sessions that make retries harmless, and the states of the shards a group serves. The engine is the
  interface \<open>storage.DB\<close> as a record of functions; an iterator is the list of pairs it yields together with
  what its \<open>Close\<close> reports. Encoding and decoding of protocol messages is third-party code: \<open>marshal\<close> and \<open>unmarshal\<close>
  are arguments.
\<close>

section \<open>Commands and results\<close>

datatype command_op =
    RegisterOp
  | PutOp bytes bytes
  | DeleteOp bytes
  | CasOp bytes "bytes option" bytes
  | GetOp bytes
  | ScanOp bytes bytes nat nat
  | FreezeOp nat
  | ImportOp nat "(bytes \<times> bytes) list" bool
  | PurgeOp nat
  | NoOp

record Command =
  c_clientId :: u64
  c_seq :: u64
  c_op :: command_op

record Result =
  res_found :: bool
  res_value :: bytes
  res_success :: bool
  res_clientId :: u64
  res_kvs :: "(bytes \<times> bytes) list"
  res_moving :: bool

definition emptyResult :: Result where
  "emptyResult = \<lparr>res_found = False, res_value = [], res_success = False, res_clientId = 0, res_kvs = [], res_moving = False\<rparr>"

section \<open>The engine interface\<close>

record 'd kvdb =
  kd_Get :: "'d \<Rightarrow> bytes \<Rightarrow> storage_error + bytes"
  kd_Write :: "'d \<Rightarrow> Batch \<Rightarrow> storage_error option \<times> 'd"
  kd_Scan :: "'d \<Rightarrow> bytes \<Rightarrow> bytes option \<Rightarrow> (bytes \<times> bytes) list \<times> storage_error option"
  kd_Sync :: "'d \<Rightarrow> storage_error option \<times> 'd"
  kd_Export :: "'d \<Rightarrow> storage_error + bytes"
  kd_Restore :: "'d \<Rightarrow> bytes \<Rightarrow> storage_error option \<times> 'd"

section \<open>Keys\<close>

definition prefixKey :: u8 where "prefixKey = 0x6b"
definition prefixSession :: u8 where "prefixSession = 0x73"
definition prefixMeta :: u8 where "prefixMeta = 0x6d"

text \<open>\<open>"mapplied"\<close> and \<open>"mshard/"\<close>.\<close>

definition appliedKey :: bytes where "appliedKey = [0x6d, 0x61, 0x70, 0x70, 0x6c, 0x69, 0x65, 0x64]"
definition shardPrefix :: bytes where "shardPrefix = [0x6d, 0x73, 0x68, 0x61, 0x72, 0x64, 0x2f]"
definition shardPrefixEnd :: bytes where "shardPrefixEnd = [0x6d, 0x73, 0x68, 0x61, 0x72, 0x64, 0x30]"

type_synonym shardState = u8
definition shardOpen :: shardState where "shardOpen = 0"
definition shardFrozen :: shardState where "shardFrozen = 1"
definition shardGone :: shardState where "shardGone = 2"

text \<open>Decimal digits, as \<open>fmt.Sprintf\<close> and \<open>fmt.Sscanf\<close> write and read them.\<close>

fun digits :: "nat \<Rightarrow> bytes" where
  "digits n = (if n < 10 then [word_of_nat (48 + n)] else digits (n div 10) @ [word_of_nat (48 + n mod 10)])"

definition undigits :: "bytes \<Rightarrow> nat" where
  "undigits b = foldl (\<lambda>a d. 10 * a + (unat d - 48)) 0 (takeWhile (\<lambda>d. 48 \<le> unat d \<and> unat d < 58) b)"

definition shardKey :: "nat \<Rightarrow> bytes" where
  "shardKey shard = shardPrefix @ (if shard < 10 then [48] else []) @ digits shard"

definition kv_userKey :: "bytes \<Rightarrow> bytes" where
  "kv_userKey key = prefixKey # key"

definition sessionKey :: "u64 \<Rightarrow> bytes" where
  "sessionKey cid = prefixSession # put_be64 cid"

record session =
  se_seq :: u64
  se_result :: bytes

definition encodeSession :: "u64 \<Rightarrow> bytes \<Rightarrow> bytes" where
  "encodeSession seq rbytes = put_be64 seq @ rbytes"

definition decodeSession :: "bytes \<Rightarrow> session" where
  "decodeSession v = \<lparr>se_seq = get_be64 v, se_result = drop 8 v\<rparr>"

section \<open>The state machine\<close>

record 'd StateMachine =
  sm_db :: 'd
  sm_applied :: u64
  sm_sessions :: "u64 \<rightharpoonup> session"
  sm_shards :: "nat \<rightharpoonup> shardState"

definition load_sessions :: "(bytes \<times> bytes) list \<Rightarrow> u64 \<rightharpoonup> session" where
  "load_sessions ps = fold (\<lambda>p m. m(get_be64 (tl (fst p)) \<mapsto> decodeSession (snd p))) ps Map.empty"

definition load_shards :: "(bytes \<times> bytes) list \<Rightarrow> nat \<rightharpoonup> shardState" where
  "load_shards ps = fold (\<lambda>p m. m(undigits (drop (length shardPrefix) (fst p)) \<mapsto> hd (snd p))) ps Map.empty"

definition sm_load :: "'d kvdb \<Rightarrow> 'd StateMachine \<Rightarrow> storage_error option \<times> 'd StateMachine" where
  "sm_load io s =
     (let s0 = s\<lparr>sm_sessions := Map.empty, sm_shards := Map.empty, sm_applied := 0\<rparr>
      in case (case kd_Get io (sm_db s) appliedKey of
                 Inr v \<Rightarrow> Inr (get_be64 v)
               | Inl e \<Rightarrow> if e = ErrNotFound then Inr 0 else Inl e) of
           Inl e \<Rightarrow> (Some e, s0)
         | Inr a \<Rightarrow>
             (case kd_Scan io (sm_db s) [prefixSession] (Some [prefixSession + 1]) of
                (ps, Some e) \<Rightarrow> (Some e, s0\<lparr>sm_applied := a, sm_sessions := load_sessions ps\<rparr>)
              | (ps, None) \<Rightarrow>
                  (case kd_Scan io (sm_db s) shardPrefix (Some shardPrefixEnd) of
                     (qs, e) \<Rightarrow> (e, s0\<lparr>sm_applied := a, sm_sessions := load_sessions ps, sm_shards := load_shards qs\<rparr>))))"

definition NewStateMachine :: "'d kvdb \<Rightarrow> 'd \<Rightarrow> storage_error + 'd StateMachine" where
  "NewStateMachine io d =
     (case sm_load io \<lparr>sm_db = d, sm_applied = 0, sm_sessions = Map.empty, sm_shards = Map.empty\<rparr> of
        (Some e, _) \<Rightarrow> Inl e
      | (None, s) \<Rightarrow> Inr s)"

definition shard_state :: "'d StateMachine \<Rightarrow> nat \<Rightarrow> shardState" where
  "shard_state s shard = (case sm_shards s shard of None \<Rightarrow> shardOpen | Some x \<Rightarrow> x)"

definition setShard :: "'d StateMachine \<Rightarrow> Batch \<Rightarrow> nat \<Rightarrow> shardState \<Rightarrow> 'd StateMachine \<times> Batch" where
  "setShard s batch shard state = (s\<lparr>sm_shards := (sm_shards s)(shard \<mapsto> state)\<rparr>, Batch_Put batch (shardKey shard) [state])"

definition writable :: "'d StateMachine \<Rightarrow> bytes \<Rightarrow> bool" where
  "writable s key \<longleftrightarrow> shard_state s (ShardOf key) = shardOpen"

definition readable :: "'d StateMachine \<Rightarrow> bytes \<Rightarrow> bool" where
  "readable s key \<longleftrightarrow> shard_state s (ShardOf key) \<noteq> shardGone"

definition sm_get :: "'d kvdb \<Rightarrow> 'd StateMachine \<Rightarrow> bytes \<Rightarrow> storage_error + bytes \<times> bool" where
  "sm_get io s key =
     (case kd_Get io (sm_db s) (kv_userKey key) of
        Inr v \<Rightarrow> Inr (v, True)
      | Inl e \<Rightarrow> if e = ErrNotFound then Inr ([], False) else Inl e)"

fun scan_loop :: "nat \<Rightarrow> nat \<Rightarrow> (bytes \<times> bytes) list \<Rightarrow> nat \<Rightarrow> (bytes \<times> bytes) list \<Rightarrow> (bytes \<times> bytes) list" where
  "scan_loop limit maxBytes kvs sz [] = kvs"
| "scan_loop limit maxBytes kvs sz (p # ps) =
     (if limit > 0 \<and> length kvs \<ge> limit then kvs
      else let kvs' = kvs @ [(tl (fst p), snd p)]; sz' = sz + (length (fst p) - 1) + length (snd p)
        in if maxBytes > 0 \<and> sz' \<ge> maxBytes then kvs' else scan_loop limit maxBytes kvs' sz' ps)"

definition sm_scan :: "'d kvdb \<Rightarrow> 'd StateMachine \<Rightarrow> bytes \<Rightarrow> bytes \<Rightarrow> nat \<Rightarrow> nat \<Rightarrow> (bytes \<times> bytes) list \<times> storage_error option" where
  "sm_scan io s start end' limit maxBytes =
     (let hi = (if length end' > 0 then kv_userKey end' else [prefixKey + 1])
      in case kd_Scan io (sm_db s) (kv_userKey start) (Some hi) of (ps, e) \<Rightarrow> (scan_loop limit maxBytes [] 0 ps, e))"

text \<open>\<open>Get\<close> outside the log: the error of a shard that has left, or what the engine holds.\<close>

datatype kv_error = ErrMoving | KvStorage storage_error

definition sm_Get :: "'d kvdb \<Rightarrow> 'd StateMachine \<Rightarrow> bytes \<Rightarrow> kv_error + bytes \<times> bool" where
  "sm_Get io s key =
     (if \<not> readable s key then Inl ErrMoving
      else case sm_get io s key of Inl e \<Rightarrow> Inl (KvStorage e) | Inr r \<Rightarrow> Inr r)"

definition purge_keys :: "nat \<Rightarrow> (bytes \<times> bytes) list \<Rightarrow> bytes list" where
  "purge_keys shard ps = filter (\<lambda>k. ShardOf (tl k) = shard) (map fst ps)"

text \<open>\<open>execute\<close>: the result, the operations it adds to the batch, and the state; None is a panic on a failed read.\<close>

fun execute :: "'d kvdb \<Rightarrow> 'd StateMachine \<Rightarrow> command_op \<Rightarrow> u64 \<Rightarrow> Batch \<Rightarrow> (Result \<times> 'd StateMachine \<times> Batch) option" where
  "execute io s RegisterOp index b = Some (emptyResult\<lparr>res_clientId := index\<rparr>, s, b)"
| "execute io s (PutOp key val) index b =
     (if \<not> writable s key then Some (emptyResult\<lparr>res_moving := True\<rparr>, s, b)
      else Some (emptyResult\<lparr>res_success := True\<rparr>, s, Batch_Put b (kv_userKey key) val))"
| "execute io s (DeleteOp key) index b =
     (if \<not> writable s key then Some (emptyResult\<lparr>res_moving := True\<rparr>, s, b)
      else Some (emptyResult\<lparr>res_success := True\<rparr>, s, Batch_Delete b (kv_userKey key)))"
| "execute io s (CasOp key expected val) index b =
     (if \<not> writable s key then Some (emptyResult\<lparr>res_moving := True\<rparr>, s, b)
      else case sm_get io s key of
             Inl _ \<Rightarrow> None
           | Inr (cur, fnd) \<Rightarrow>
               let ok = (case expected of None \<Rightarrow> \<not> fnd | Some x \<Rightarrow> fnd \<and> cur = x)
               in Some (emptyResult\<lparr>res_found := fnd, res_value := cur, res_success := ok\<rparr>, s,
                        if ok then Batch_Put b (kv_userKey key) val else b))"
| "execute io s (GetOp key) index b =
     (if \<not> readable s key then Some (emptyResult\<lparr>res_moving := True\<rparr>, s, b)
      else case sm_get io s key of
             Inl _ \<Rightarrow> None
           | Inr (cur, fnd) \<Rightarrow> Some (emptyResult\<lparr>res_found := fnd, res_value := cur\<rparr>, s, b))"
| "execute io s (ScanOp start end' limit maxBytes) index b =
     (case sm_scan io s start end' limit maxBytes of
        (_, Some _) \<Rightarrow> None
      | (kvs, None) \<Rightarrow> Some (emptyResult\<lparr>res_kvs := kvs\<rparr>, s, b))"
| "execute io s (FreezeOp shard) index b =
     (let (s', b') = (if shard_state s shard \<noteq> shardGone then setShard s b shard shardFrozen else (s, b))
      in Some (emptyResult\<lparr>res_success := True\<rparr>, s', b'))"
| "execute io s (ImportOp shard kvs lst) index b =
     (if \<exists>x. sm_shards s shard = Some x \<and> x \<noteq> shardGone then Some (emptyResult, s, b)
      else let b1 = foldl (\<lambda>b kv. Batch_Put b (kv_userKey (fst kv)) (snd kv)) b kvs;
               (s', b2) = (if lst then setShard s b1 shard shardOpen else (s, b1))
           in Some (emptyResult\<lparr>res_success := True\<rparr>, s', b2))"
| "execute io s (PurgeOp shard) index b =
     (case kd_Scan io (sm_db s) [prefixKey] (Some [prefixKey + 1]) of
        (_, Some _) \<Rightarrow> None
      | (ps, None) \<Rightarrow>
          let b1 = foldl Batch_Delete b (purge_keys shard ps); (s', b2) = setShard s b1 shard shardGone
          in Some (emptyResult\<lparr>res_success := True\<rparr>, s', b2))"
| "execute io s NoOp index b = Some (emptyResult, s, b)"

definition record_sessions :: "'d StateMachine \<Rightarrow> Command \<Rightarrow> Result \<Rightarrow> bytes \<Rightarrow> Batch \<Rightarrow> 'd StateMachine \<times> Batch" where
  "record_sessions s cmd res rbytes b =
     (let (s1, b1) = (if c_clientId cmd \<noteq> 0
            then (s\<lparr>sm_sessions := (sm_sessions s)(c_clientId cmd \<mapsto> \<lparr>se_seq = c_seq cmd, se_result = rbytes\<rparr>)\<rparr>,
                  Batch_Put b (sessionKey (c_clientId cmd)) (encodeSession (c_seq cmd) rbytes))
            else (s, b))
      in if res_clientId res \<noteq> 0
         then (s1\<lparr>sm_sessions := (sm_sessions s1)(res_clientId res \<mapsto> \<lparr>se_seq = 0, se_result = []\<rparr>)\<rparr>,
               Batch_Put b1 (sessionKey (res_clientId res)) (encodeSession 0 []))
         else (s1, b1))"

definition is_duplicate :: "'d StateMachine \<Rightarrow> Command \<Rightarrow> bytes option" where
  "is_duplicate s cmd =
     (case sm_sessions s (c_clientId cmd) of
        Some sess \<Rightarrow> if c_clientId cmd \<noteq> 0 \<and> c_seq cmd \<le> se_seq sess then Some (se_result sess) else None
      | None \<Rightarrow> None)"

text \<open>The part of \<open>Apply\<close> under the lock that decides what to write: a retry is answered from its session.\<close>

definition apply_command ::
  "'d kvdb \<Rightarrow> (Result \<Rightarrow> bytes) \<Rightarrow> 'd StateMachine \<Rightarrow> Command \<Rightarrow> u64 \<Rightarrow> (bytes \<times> 'd StateMachine \<times> Batch) option" where
  "apply_command io marshal s cmd index =
     (case is_duplicate s cmd of
        Some r \<Rightarrow> Some (r, s, emptyBatch)
      | None \<Rightarrow>
          (case execute io s (c_op cmd) index emptyBatch of
             None \<Rightarrow> None
           | Some (res, s1, b) \<Rightarrow>
               let rbytes = marshal res; (s2, b2) = record_sessions s1 cmd res rbytes b in Some (rbytes, s2, b2)))"

definition sm_Apply ::
  "'d kvdb \<Rightarrow> (bytes \<Rightarrow> Command option) \<Rightarrow> (Result \<Rightarrow> bytes) \<Rightarrow> 'd StateMachine \<Rightarrow> Entry \<Rightarrow> (bytes \<times> 'd StateMachine) option" where
  "sm_Apply io unmarshal marshal s e =
     (case unmarshal (en_data e) of
        None \<Rightarrow> None
      | Some cmd \<Rightarrow>
          (case apply_command io marshal s cmd (word_of_nat (en_index e)) of
             None \<Rightarrow> None
           | Some (rbytes, s', b) \<Rightarrow>
               (case kd_Write io (sm_db s') (Batch_Put b appliedKey (put_be64 (word_of_nat (en_index e)))) of
                  (Some _, _) \<Rightarrow> None
                | (None, d) \<Rightarrow> Some (rbytes, s'\<lparr>sm_db := d, sm_applied := word_of_nat (en_index e)\<rparr>))))"

definition sm_Snapshot :: "'d kvdb \<Rightarrow> 'd StateMachine \<Rightarrow> (storage_error + bytes) \<times> 'd StateMachine" where
  "sm_Snapshot io s =
     (case kd_Sync io (sm_db s) of
        (Some e, d) \<Rightarrow> (Inl e, s\<lparr>sm_db := d\<rparr>)
      | (None, d) \<Rightarrow> (kd_Export io d, s\<lparr>sm_db := d\<rparr>))"

definition sm_Restore :: "'d kvdb \<Rightarrow> 'd StateMachine \<Rightarrow> bytes \<Rightarrow> storage_error option \<times> 'd StateMachine" where
  "sm_Restore io s r =
     (case kd_Restore io (sm_db s) r of
        (Some e, d) \<Rightarrow> (Some e, s\<lparr>sm_db := d\<rparr>)
      | (None, d) \<Rightarrow> sm_load io (s\<lparr>sm_db := d\<rparr>))"

end
