(* ===== verification/Kv_Refine.thy ===== *)
theory Kv_Refine
  imports Statemachine
begin

text \<open>
  What the state machine promises over any engine that is a map: a command changes the user's keys as its
  specification says, a retried command changes nothing and gets the answer it got before, and a state
  machine that is loaded again from its engine is the one that was there.
\<close>

section \<open>Codecs\<close>

lemma get_put_be64 [simp]: "get_be64 (put_be64 w) = w"
  using get_be64_put [of w "[]"] by simp

lemma decode_encodeSession [simp]: "decodeSession (encodeSession q r) = \<lparr>se_seq = q, se_result = r\<rparr>"
  by (simp add: decodeSession_def encodeSession_def)

definition is_digit :: "u8 \<Rightarrow> bool" where
  "is_digit d \<longleftrightarrow> 48 \<le> unat d \<and> unat d < 58"

lemma unat_digit: "n < 10 \<Longrightarrow> unat (word_of_nat (48 + n) :: u8) = 48 + n"
  by (simp add: unat_of_nat take_bit_nat_eq_self unat_word_ariths)

lemma digits_ok: "list_all is_digit (digits n) \<and> foldl (\<lambda>a d. 10 * a + (unat d - 48)) 0 (digits n) = n"
proof (induction n rule: digits.induct)
  case (1 n)
  show ?case
  proof (cases "n < 10")
    case True
    then show ?thesis using unat_digit [OF True] by (simp add: is_digit_def)
  next
    case False
    have "n mod 10 < 10" by simp
    from unat_digit [OF this] show ?thesis using 1 [OF False] False by (simp add: is_digit_def del: digits.simps) (subst digits.simps, simp add: is_digit_def)
  qed
qed

lemma undigits_digits: "undigits (digits n) = n" "undigits (48 # digits n) = n"
proof -
  have d: "takeWhile (\<lambda>d. 48 \<le> unat d \<and> unat d < 58) (digits n) = digits n"
    using digits_ok [of n] by (simp add: takeWhile_eq_all_conv list_all_iff is_digit_def del: digits.simps)
  show "undigits (digits n) = n" unfolding undigits_def d using digits_ok [of n] by (simp del: digits.simps)
  show "undigits (48 # digits n) = n" unfolding undigits_def using digits_ok [of n] by (simp add: d del: digits.simps)
qed

lemma undigits_shardKey: "undigits (drop (length shardPrefix) (shardKey n)) = n"
  using undigits_digits by (simp add: shardKey_def del: digits.simps)

lemma shardKey_inj: "shardKey m = shardKey n \<longleftrightarrow> m = n"
  using undigits_shardKey by metis

lemma sessionKey_inj: "sessionKey a = sessionKey b \<longleftrightarrow> a = b"
  by (metis get_put_be64 list.inject sessionKey_def)

lemma key_prefixes:
  "kv_userKey k \<noteq> sessionKey c" "kv_userKey k \<noteq> shardKey n" "kv_userKey k \<noteq> appliedKey"
  "sessionKey c \<noteq> shardKey n" "sessionKey c \<noteq> appliedKey" "shardKey n \<noteq> appliedKey"
  by (simp_all add: kv_userKey_def sessionKey_def shardKey_def appliedKey_def shardPrefix_def prefixKey_def prefixSession_def del: digits.simps)

section \<open>Ranges\<close>

lemma bytes_compare_prefix: "bytes_compare (p @ a) (p @ b) = bytes_compare a b"
  by (induction p) auto

lemma in_prefix_range:
  fixes c :: u8
  assumes "c \<noteq> - 1"
  shows "(\<not> bytes_compare k (p @ [c]) < 0 \<and> bytes_compare k (p @ [c + 1]) < 0) \<longleftrightarrow> (\<exists>r. k = p @ [c] @ r)"
proof (induction p arbitrary: k)
  case Nil
  have u: "unat (c + 1) = Suc (unat c)" using unatSuc [of c] assms by (auto simp: add.commute eq_neg_iff_add_eq_0)
  then have c: "c < c + 1" by (simp add: word_less_nat_alt)
  show ?case
  proof (cases k)
    case (Cons a r)
    have "\<not> bytes_compare r [] < 0" by (cases r) auto
    moreover have "(a < c + 1) = (a \<le> c)" using u by (auto simp: word_less_nat_alt word_le_nat_alt)
    ultimately show ?thesis using Cons c by auto
  qed simp
next
  case (Cons x p)
  show ?case
  proof (cases k)
    case (Cons y ys)
    then show ?thesis using Cons.IH [of ys] by auto
  qed simp
qed

lemma scan_keys:
  assumes "scan_spec f start end' ps"
  shows "k \<in> fst ` set ps \<longleftrightarrow>
    f k \<noteq> None \<and> \<not> bytes_compare k start < 0 \<and> (case end' of None \<Rightarrow> True | Some b \<Rightarrow> bytes_compare k b < 0)"
proof -
  have "k \<in> fst ` set ps \<longleftrightarrow> (\<exists>v. (k, v) \<in> set ps)" by force
  then show ?thesis using assms by (auto simp: scan_spec_def)
qed

section \<open>What a command does to the batch\<close>

definition user_op :: "batchOp \<Rightarrow> bool" where
  "user_op x \<longleftrightarrow> (\<exists>k. op_key x = kv_userKey k) \<and> (op_kind x = kindPut \<or> op_kind x = kindDelete)"

definition put_op :: "bytes \<Rightarrow> bytes \<Rightarrow> batchOp" where
  "put_op k v = \<lparr>op_kind = kindPut, op_key = k, op_value = v\<rparr>"

lemma batch_ops [simp]:
  "b_ops (Batch_Put b k v) = b_ops b @ [put_op k v]"
  "b_ops (Batch_Delete b k) = b_ops b @ [\<lparr>op_kind = kindDelete, op_key = k, op_value = []\<rparr>]" "b_ops emptyBatch = []"
  by (simp_all add: Batch_Put_def Batch_Delete_def emptyBatch_def put_op_def)

lemma apply_put_op: "apply_op f (put_op k v) = f(k \<mapsto> v)"
  by (simp add: apply_op_def put_op_def kindPut_def kindDelete_def)

lemma foldl_batch_put: "b_ops (foldl (\<lambda>b kv. Batch_Put b (f kv) (snd kv)) b kvs) = b_ops b @ map (\<lambda>kv. put_op (f kv) (snd kv)) kvs"
  by (induction kvs arbitrary: b) auto

lemma foldl_batch_delete: "b_ops (foldl Batch_Delete b ks) = b_ops b @ map (\<lambda>k. \<lparr>op_kind = kindDelete, op_key = k, op_value = []\<rparr>) ks"
  by (induction ks arbitrary: b) auto

lemma apply_other: "\<forall>x \<in> set ops. op_key x \<noteq> k \<Longrightarrow> foldl apply_op f ops k = f k"
  by (induction ops arbitrary: f) (auto simp: apply_op_def)

lemma user_ops_ok: "\<forall>x \<in> set ops. user_op x \<Longrightarrow> ops_ok ops"
  by (auto simp: ops_ok_def user_op_def kv_userKey_def)

text \<open>The user's keys of an engine, the shards of a state machine, and the meaning of a command on them.\<close>

definition user_keys :: "(bytes \<Rightarrow> bytes option) \<Rightarrow> bytes \<Rightarrow> bytes option" where
  "user_keys f k = f (kv_userKey k)"

definition cas_ok :: "bytes option \<Rightarrow> bytes option \<Rightarrow> bool" where
  "cas_ok expected cur = (case expected of None \<Rightarrow> cur = None | Some x \<Rightarrow> cur = Some x)"

fun kv_spec :: "(nat \<rightharpoonup> shardState) \<Rightarrow> (bytes \<Rightarrow> bytes option) \<Rightarrow> command_op \<Rightarrow> (nat \<rightharpoonup> shardState) \<times> (bytes \<Rightarrow> bytes option)" where
  "kv_spec sh f (PutOp k v) = (sh, if sh (ShardOf k) \<in> {None, Some shardOpen} then f(k \<mapsto> v) else f)"
| "kv_spec sh f (DeleteOp k) = (sh, if sh (ShardOf k) \<in> {None, Some shardOpen} then f(k := None) else f)"
| "kv_spec sh f (CasOp k expected v) =
     (sh, if sh (ShardOf k) \<in> {None, Some shardOpen} \<and> cas_ok expected (f k) then f(k \<mapsto> v) else f)"
| "kv_spec sh f (FreezeOp n) = (if sh n = Some shardGone then sh else sh(n \<mapsto> shardFrozen), f)"
| "kv_spec sh f (ImportOp n kvs lst) =
     (if sh n \<in> {None, Some shardGone}
      then (if lst then sh(n \<mapsto> shardOpen) else sh, foldl (\<lambda>f kv. f(fst kv \<mapsto> snd kv)) f kvs)
      else (sh, f))"
| "kv_spec sh f (PurgeOp n) = (sh(n \<mapsto> shardGone), \<lambda>k. if ShardOf k = n then None else f k)"
| "kv_spec sh f _ = (sh, f)"

definition step_ops :: "batchOp list \<Rightarrow> (nat \<rightharpoonup> shardState) \<Rightarrow> (nat \<rightharpoonup> shardState) \<Rightarrow> bool" where
  "step_ops ops sh sh' \<longleftrightarrow>
     (\<exists>us. (\<forall>x \<in> set us. user_op x)
        \<and> (ops = us \<and> sh' = sh \<or> (\<exists>n st. ops = us @ [put_op (shardKey n) [st]] \<and> sh' = sh(n \<mapsto> st))))"

definition sess_op :: "u64 \<times> u64 \<times> bytes \<Rightarrow> batchOp" where
  "sess_op x = put_op (sessionKey (fst x)) (encodeSession (fst (snd x)) (snd (snd x)))"

definition sess_upd :: "(u64 \<rightharpoonup> session) \<Rightarrow> u64 \<times> u64 \<times> bytes \<Rightarrow> (u64 \<rightharpoonup> session)" where
  "sess_upd m x = m(fst x \<mapsto> \<lparr>se_seq = fst (snd x), se_result = snd (snd x)\<rparr>)"

definition session_ops :: "batchOp list \<Rightarrow> (u64 \<rightharpoonup> session) \<Rightarrow> (u64 \<rightharpoonup> session) \<Rightarrow> bool" where
  "session_ops ops se se' \<longleftrightarrow> (\<exists>cs. ops = map sess_op cs \<and> se' = foldl sess_upd se cs)"

lemma ops_ok_append [simp]: "ops_ok (xs @ ys) \<longleftrightarrow> ops_ok xs \<and> ops_ok ys"
  by (auto simp: ops_ok_def)

text \<open>How the engine's map holds the sessions and the shard states.\<close>

definition encodes :: "(bytes \<Rightarrow> bytes option) \<Rightarrow> (u64 \<rightharpoonup> session) \<Rightarrow> (nat \<rightharpoonup> shardState) \<Rightarrow> bool" where
  "encodes f se sh \<longleftrightarrow>
     (\<forall>c. se c = map_option decodeSession (f (sessionKey c)))
     \<and> (\<forall>n. f (shardKey n) = map_option (\<lambda>st. [st]) (sh n))
     \<and> (\<forall>r. f (prefixSession # r) \<noteq> None \<longrightarrow> (\<exists>c. prefixSession # r = sessionKey c))
     \<and> (\<forall>r. f (shardPrefix @ r) \<noteq> None \<longrightarrow> (\<exists>n. shardPrefix @ r = shardKey n))"

lemma encodes_user: "encodes f se sh \<Longrightarrow> user_op x \<Longrightarrow> encodes (apply_op f x) se sh"
  using key_prefixes by (auto simp: encodes_def user_op_def apply_op_def kv_userKey_def prefixKey_def prefixSession_def shardPrefix_def shardKey_def sessionKey_def
      simp del: digits.simps)

lemma encodes_users: "\<forall>x \<in> set us. user_op x \<Longrightarrow> encodes f se sh \<Longrightarrow> encodes (foldl apply_op f us) se sh"
  by (induction us arbitrary: f) (auto intro: encodes_user)

lemma encodes_shard: "encodes f se sh \<Longrightarrow> encodes (f(shardKey n \<mapsto> [st])) se (sh(n \<mapsto> st))"
  using key_prefixes(4) by (auto simp: encodes_def shardKey_inj) (auto simp: shardKey_def shardPrefix_def prefixSession_def)

lemma encodes_session: "encodes f se sh \<Longrightarrow> encodes (f(sessionKey c \<mapsto> encodeSession q r)) (se(c \<mapsto> \<lparr>se_seq = q, se_result = r\<rparr>)) sh"
  using key_prefixes(4) [of c, symmetric] by (auto simp: encodes_def sessionKey_inj) (auto simp: sessionKey_def shardPrefix_def prefixSession_def)

lemma encodes_applied: "encodes f se sh \<Longrightarrow> encodes (f(appliedKey \<mapsto> v)) se sh"
  using key_prefixes(5,6) by (auto simp: encodes_def) (auto simp: appliedKey_def shardPrefix_def prefixSession_def)

lemma encodes_step:
  assumes "step_ops ops sh sh'" and "encodes f se sh"
  shows "encodes (foldl apply_op f ops) se sh'"
proof -
  obtain us where us: "\<forall>x \<in> set us. user_op x" "ops = us \<and> sh' = sh \<or> (\<exists>n st. ops = us @ [put_op (shardKey n) [st]] \<and> sh' = sh(n \<mapsto> st))"
    using assms(1) by (auto simp: step_ops_def)
  have e: "encodes (foldl apply_op f us) se sh" by (rule encodes_users [OF us(1) assms(2)])
  show ?thesis using us(2) e encodes_shard [OF e] by (auto simp: apply_put_op)
qed

lemma encodes_sessions:
  assumes "session_ops ops se se'" and "encodes f se sh"
  shows "encodes (foldl apply_op f ops) se' sh"
proof -
  have "encodes (foldl apply_op f (map sess_op cs)) (foldl sess_upd se cs) sh" for cs
    using assms(2)
  proof (induction cs arbitrary: f se)
    case (Cons x cs)
    have "encodes (apply_op f (sess_op x)) (sess_upd se x) sh"
      unfolding sess_op_def sess_upd_def apply_put_op by (rule encodes_session [OF Cons.prems])
    from Cons.IH [OF this] show ?case by simp
  qed simp
  then show ?thesis using assms(1) by (auto simp: session_ops_def)
qed

lemma session_ops_keys:
  assumes "session_ops ops se se'"
  shows "user_keys (foldl apply_op f ops) = user_keys f" "ops_ok ops"
proof -
  obtain cs where cs: "ops = map sess_op cs" using assms by (auto simp: session_ops_def)
  have "\<forall>x \<in> set ops. op_key x \<noteq> kv_userKey k" for k using key_prefixes(1) by (auto simp: cs sess_op_def put_op_def) metis
  then show "user_keys (foldl apply_op f ops) = user_keys f" by (simp add: user_keys_def fun_eq_iff apply_other)
  show "ops_ok ops" by (auto simp: cs ops_ok_def sess_op_def put_op_def sessionKey_def)
qed

lemma step_ops_ok: "step_ops ops sh sh' \<Longrightarrow> ops_ok ops"
proof -
  assume "step_ops ops sh sh'"
  then obtain us where us: "\<forall>x \<in> set us. user_op x" "ops = us \<or> (\<exists>n st. ops = us @ [put_op (shardKey n) [st]])" by (auto simp: step_ops_def)
  have "ops_ok us" by (rule user_ops_ok [OF us(1)])
  then show "ops_ok ops" using us(2) by (auto simp: ops_ok_def put_op_def shardKey_def shardPrefix_def)
qed

lemma fold_upd_none: "\<forall>p \<in> set ps. f p \<noteq> k \<Longrightarrow> fold (\<lambda>p m. m(f p \<mapsto> g p)) ps m0 k = m0 k"
  by (induction ps arbitrary: m0) auto

lemma fold_upd_some:
  "p0 \<in> set ps \<Longrightarrow> f p0 = k \<Longrightarrow> \<forall>p \<in> set ps. f p = k \<longrightarrow> g p = y \<Longrightarrow> fold (\<lambda>p m. m(f p \<mapsto> g p)) ps m0 k = Some y"
proof (induction ps arbitrary: m0 p0)
  case (Cons p ps)
  show ?case
  proof (cases "\<exists>q \<in> set ps. f q = k")
    case True
    then obtain q where q: "q \<in> set ps" "f q = k" by blast
    have "fold (\<lambda>p m. m(f p \<mapsto> g p)) ps (m0(f p \<mapsto> g p)) k = Some y"
      by (rule Cons.IH [OF q]) (use Cons.prems(3) in \<open>simp\<close>)
    then show ?thesis by (simp only: fold_simps)
  next
    case False
    then have "f p = k" "g p = y" "\<forall>q \<in> set ps. f q \<noteq> k" using Cons.prems by auto
    from fold_upd_none [OF this(3), of g "m0(f p \<mapsto> g p)"] this(1,2) show ?thesis by (simp only: fold_simps fun_upd_same)
  qed
qed simp

lemma load_sessions_encodes:
  assumes e: "encodes f se sh" and sc: "scan_spec f [prefixSession] (Some [prefixSession + 1]) ps"
  shows "load_sessions ps = se"
proof
  fix c
  have r: "(\<not> bytes_compare k [prefixSession] < 0 \<and> bytes_compare k [prefixSession + 1] < 0) \<longleftrightarrow> (\<exists>r. k = prefixSession # r)" for k
    using in_prefix_range [of prefixSession k "[]"] by (simp add: prefixSession_def)
  have ps: "(k, v) \<in> set ps \<longleftrightarrow> f k = Some v \<and> (\<exists>c. k = sessionKey c)" for k v
    using sc e r [of k] unfolding scan_spec_def encodes_def by (auto simp: sessionKey_def)
  have key: "fst p = sessionKey c \<and> f (sessionKey c) = Some (snd p)" if "p \<in> set ps" "get_be64 (tl (fst p)) = c" for p
    using ps [of "fst p" "snd p"] that by (auto simp: sessionKey_def)
  show "load_sessions ps c = se c"
  proof (cases "f (sessionKey c)")
    case None
    then have "\<forall>p \<in> set ps. get_be64 (tl (fst p)) \<noteq> c" using key by auto
    then show ?thesis using None e by (simp add: load_sessions_def fold_upd_none encodes_def)
  next
    case (Some v)
    have p: "(sessionKey c, v) \<in> set ps" "get_be64 (tl (fst (sessionKey c, v))) = c" using ps Some by (auto simp: sessionKey_def)
    have "\<forall>p \<in> set ps. get_be64 (tl (fst p)) = c \<longrightarrow> decodeSession (snd p) = decodeSession v" using key Some by auto
    then show ?thesis using fold_upd_some [of "(sessionKey c, v)" ps "\<lambda>p. get_be64 (tl (fst p))" c "\<lambda>p. decodeSession (snd p)" "decodeSession v" Map.empty] p Some e
      by (simp add: load_sessions_def encodes_def)
  qed
qed

lemma load_shards_encodes:
  assumes e: "encodes f se sh" and sc: "scan_spec f shardPrefix (Some shardPrefixEnd) ps"
  shows "load_shards ps = sh"
proof
  fix n
  have r: "(\<not> bytes_compare k shardPrefix < 0 \<and> bytes_compare k shardPrefixEnd < 0) \<longleftrightarrow> (\<exists>r. k = shardPrefix @ r)" for k
    using in_prefix_range [of "0x2f" k "[0x6d, 0x73, 0x68, 0x61, 0x72, 0x64]"] by (simp add: shardPrefix_def shardPrefixEnd_def)
  have pre: "\<exists>r. shardKey n = shardPrefix @ r" for n by (simp add: shardKey_def)
  have ps: "(k, v) \<in> set ps \<longleftrightarrow> f k = Some v \<and> (\<exists>n. k = shardKey n)" for k v
    using sc e r [of k] pre unfolding scan_spec_def encodes_def by auto
  have key: "fst p = shardKey n \<and> f (shardKey n) = Some (snd p)" if "p \<in> set ps" "undigits (drop (length shardPrefix) (fst p)) = n" for p
    using ps [of "fst p" "snd p"] that undigits_shardKey by auto
  show "load_shards ps n = sh n"
  proof (cases "sh n")
    case None
    then have "f (shardKey n) = None" using e by (simp add: encodes_def)
    then have "\<forall>p \<in> set ps. undigits (drop (length shardPrefix) (fst p)) \<noteq> n" using key by auto
    then show ?thesis using None by (simp add: load_shards_def fold_upd_none)
  next
    case (Some st)
    then have fs: "f (shardKey n) = Some [st]" using e by (simp add: encodes_def)
    have p: "(shardKey n, [st]) \<in> set ps" "undigits (drop (length shardPrefix) (fst (shardKey n, [st]))) = n" using ps fs undigits_shardKey by auto
    have "\<forall>p \<in> set ps. undigits (drop (length shardPrefix) (fst p)) = n \<longrightarrow> hd (snd p) = st"
      using key fs by (metis list.sel(1) option.inject)
    then show ?thesis using fold_upd_some [of "(shardKey n, [st])" ps "\<lambda>p. undigits (drop (length shardPrefix) (fst p))" n "\<lambda>p. hd (snd p)" st Map.empty] p Some
      by (simp add: load_shards_def)
  qed
qed

section \<open>The state machine over an engine that is a map\<close>

locale kv_store =
  fixes io :: "'d kvdb" and abs :: "'d \<Rightarrow> bytes \<Rightarrow> bytes option" and inv :: "'d \<Rightarrow> bool" and room :: "'d \<Rightarrow> nat \<Rightarrow> bool"
  assumes get: "inv d \<Longrightarrow> kd_Get io d k = lookup_result (abs d k)"
    and scan: "inv d \<Longrightarrow> \<exists>ps. kd_Scan io d start end' = (ps, None) \<and> scan_spec (abs d) start end' ps"
    and written: "inv d \<Longrightarrow> ops_ok (b_ops b) \<Longrightarrow> room d (length (b_ops b) + n) \<Longrightarrow>
      \<exists>d'. kd_Write io d b = (None, d') \<and> inv d' \<and> abs d' = foldl apply_op (abs d) (b_ops b) \<and> room d' n"
begin

lemma sm_get_abs: "inv (sm_db s) \<Longrightarrow> sm_get io s k = Inr (case abs (sm_db s) (kv_userKey k) of None \<Rightarrow> ([], False) | Some v \<Rightarrow> (v, True))"
  by (simp add: sm_get_def get lookup_result_def split: option.splits)

lemma purge_scan:
  assumes "inv d"
  shows "\<exists>ps. kd_Scan io d [prefixKey] (Some [prefixKey + 1]) = (ps, None)
    \<and> (\<forall>k. k \<in> set (purge_keys n ps) \<longleftrightarrow> (\<exists>u. k = kv_userKey u \<and> ShardOf u = n \<and> abs d k \<noteq> None))"
proof -
  obtain ps where ps: "kd_Scan io d [prefixKey] (Some [prefixKey + 1]) = (ps, None)" "scan_spec (abs d) [prefixKey] (Some [prefixKey + 1]) ps"
    using scan [OF assms] by blast
  have r: "(\<not> bytes_compare k [prefixKey] < 0 \<and> bytes_compare k [prefixKey + 1] < 0) \<longleftrightarrow> (\<exists>u. k = kv_userKey u)" for k
    using in_prefix_range [of prefixKey k "[]"] by (simp add: prefixKey_def kv_userKey_def)
  have "(k \<in> fst ` set ps) \<longleftrightarrow> (\<exists>u. k = kv_userKey u \<and> abs d k \<noteq> None)" for k
    unfolding scan_keys [OF ps(2)] using r [of k] by auto
  then show ?thesis using ps(1) by (auto simp: purge_keys_def kv_userKey_def)
qed

lemma execute_total:
  assumes "inv (sm_db s)"
  shows "\<exists>res s' b. execute io s op i b0 = Some (res, s', b)"
proof (cases op)
  case (ScanOp start end' limit maxBytes)
  obtain ps where "kd_Scan io (sm_db s) (kv_userKey start) (Some (if length end' > 0 then kv_userKey end' else [prefixKey + 1])) = (ps, None)"
    using scan [OF assms] by blast
  then show ?thesis using ScanOp by (simp add: sm_scan_def Let_def)
next
  case (PurgeOp n)
  then show ?thesis using purge_scan [OF assms, of n] by (auto simp: setShard_def Let_def)
qed (auto simp: sm_get_abs [OF assms] setShard_def Let_def split: option.splits)

definition step_ok :: "'d StateMachine \<Rightarrow> command_op \<Rightarrow> 'd StateMachine \<Rightarrow> batchOp list \<Rightarrow> bool" where
  "step_ok s op s' ops \<longleftrightarrow>
     sm_db s' = sm_db s \<and> sm_sessions s' = sm_sessions s \<and> sm_applied s' = sm_applied s
     \<and> step_ops ops (sm_shards s) (sm_shards s')
     \<and> (sm_shards s', user_keys (foldl apply_op (abs (sm_db s)) ops)) = kv_spec (sm_shards s) (user_keys (abs (sm_db s))) op"

lemma step_none: "kv_spec (sm_shards s) (user_keys (abs (sm_db s))) op = (sm_shards s, user_keys (abs (sm_db s))) \<Longrightarrow> step_ok s op s []"
  by (simp add: step_ok_def step_ops_def)

lemma step_user:
  assumes "\<forall>x \<in> set us. user_op x" and "kv_spec (sm_shards s) (user_keys (abs (sm_db s))) op = (sm_shards s, user_keys (foldl apply_op (abs (sm_db s)) us))"
  shows "step_ok s op s us"
  using assms by (auto simp: step_ok_def step_ops_def)

lemma step_shard:
  assumes "\<forall>x \<in> set us. user_op x"
    and "kv_spec (sm_shards s) (user_keys (abs (sm_db s))) op = ((sm_shards s)(n \<mapsto> st), user_keys (foldl apply_op (abs (sm_db s)) us))"
  shows "step_ok s op (s\<lparr>sm_shards := (sm_shards s)(n \<mapsto> st)\<rparr>) (us @ [put_op (shardKey n) [st]])"
proof -
  have "user_keys (foldl apply_op (abs (sm_db s)) (us @ [put_op (shardKey n) [st]])) = user_keys (foldl apply_op (abs (sm_db s)) us)"
    using key_prefixes(2) by (auto simp: user_keys_def apply_put_op fun_eq_iff)
  moreover have "step_ops (us @ [put_op (shardKey n) [st]]) (sm_shards s) ((sm_shards s)(n \<mapsto> st))"
    unfolding step_ops_def using assms(1) by blast
  ultimately show ?thesis using assms(2) by (simp add: step_ok_def)
qed

lemma kv_userKey_inj [simp]: "kv_userKey a = kv_userKey b \<longleftrightarrow> a = b"
  by (simp add: kv_userKey_def)

lemma user_keys_upd: "user_keys (f(kv_userKey k := v)) = (user_keys f)(k := v)"
  by (auto simp: user_keys_def fun_eq_iff)

lemma user_keys_puts:
  "user_keys (foldl apply_op f (map (\<lambda>kv. put_op (kv_userKey (fst kv)) (snd kv)) kvs)) = foldl (\<lambda>f kv. f(fst kv \<mapsto> snd kv)) (user_keys f) kvs"
  by (induction kvs arbitrary: f) (simp_all add: apply_put_op user_keys_upd)

lemma user_keys_purge:
  assumes "\<And>k. k \<in> set ks \<longleftrightarrow> (\<exists>u. k = kv_userKey u \<and> ShardOf u = n \<and> f k \<noteq> None)"
  shows "user_keys (foldl apply_op f (map (\<lambda>k. \<lparr>op_kind = kindDelete, op_key = k, op_value = []\<rparr>) ks))
    = (\<lambda>k. if ShardOf k = n then None else user_keys f k)"
proof -
  have del: "foldl apply_op f (map (\<lambda>k. \<lparr>op_kind = kindDelete, op_key = k, op_value = []\<rparr>) ks) k = (if k \<in> set ks then None else f k)" for k f ks
    by (induction ks arbitrary: f) (auto simp: apply_op_def)
  show ?thesis unfolding user_keys_def del using assms by (auto simp: fun_eq_iff)
qed

lemma shard_state_iff:
  "shard_state s n = shardOpen \<longleftrightarrow> sm_shards s n \<in> {None, Some shardOpen}" "shard_state s n = shardGone \<longleftrightarrow> sm_shards s n = Some shardGone"
  by (auto simp: shard_state_def shardOpen_def shardGone_def split: option.splits)

lemma execute_step:
  assumes i: "inv (sm_db s)" and x: "execute io s op idx emptyBatch = Some (res, s', b)"
  shows "step_ok s op s' (b_ops b)"
proof (cases op)
  case (PutOp k v)
  have "step_ok s op s [put_op (kv_userKey k) v]" if "writable s k"
    by (rule step_user) (use that in \<open>simp_all add: PutOp user_op_def put_op_def [of "kv_userKey k"] writable_def shard_state_iff user_keys_upd apply_put_op [unfolded put_op_def]\<close>)
  then show ?thesis using x step_none [of s op] by (auto simp: PutOp writable_def shard_state_iff split: if_splits)
next
  case (DeleteOp k)
  let ?d = "\<lparr>op_kind = kindDelete, op_key = kv_userKey k, op_value = []\<rparr>"
  have "step_ok s op s [?d]" if "writable s k"
    by (rule step_user) (use that in \<open>simp_all add: DeleteOp user_op_def writable_def shard_state_iff user_keys_upd apply_op_def\<close>)
  then show ?thesis using x step_none [of s op] by (auto simp: DeleteOp writable_def shard_state_iff split: if_splits)
next
  case (CasOp k e v)
  have g: "sm_get io s k = Inr (case abs (sm_db s) (kv_userKey k) of None \<Rightarrow> ([], False) | Some v \<Rightarrow> (v, True))" by (rule sm_get_abs [OF i])
  have "step_ok s op s [put_op (kv_userKey k) v]" if "writable s k" "cas_ok e (user_keys (abs (sm_db s)) k)"
    by (rule step_user) (use that in \<open>simp_all add: CasOp user_op_def put_op_def [of "kv_userKey k"] writable_def shard_state_iff user_keys_upd apply_put_op [unfolded put_op_def]\<close>)
  then show ?thesis using x step_none [of s op] g
    by (auto simp: CasOp writable_def shard_state_iff Let_def cas_ok_def user_keys_def split: if_splits option.splits)
next
  case (FreezeOp n)
  show ?thesis using x step_none [of s op] step_shard [of "[]" s op n shardFrozen]
    by (auto simp: FreezeOp shard_state_iff setShard_def split: if_splits)
next
  case (ImportOp n kvs lst)
  let ?us = "map (\<lambda>kv. put_op (kv_userKey (fst kv)) (snd kv)) kvs"
  have u: "\<forall>x \<in> set ?us. user_op x" by (auto simp: user_op_def put_op_def)
  have k: "user_keys (foldl apply_op (abs (sm_db s)) ?us) = foldl (\<lambda>f kv. f(fst kv \<mapsto> snd kv)) (user_keys (abs (sm_db s))) kvs" by (rule user_keys_puts)
  show ?thesis
  proof (cases "sm_shards s n \<in> {None, Some shardGone}")
    case True
    then have "step_ok s op (s\<lparr>sm_shards := (sm_shards s)(n \<mapsto> shardOpen)\<rparr>) (?us @ [put_op (shardKey n) [shardOpen]])" if lst
      using that step_shard [OF u, of s op n shardOpen] by (simp add: ImportOp k)
    moreover have "step_ok s op s ?us" if "\<not> lst" using True that step_user [OF u, of s op] by (simp add: ImportOp k)
    ultimately show ?thesis using x True by (cases lst) (auto simp: ImportOp setShard_def foldl_batch_put)
  next
    case False
    then show ?thesis using x step_none [of s op] by (auto simp: ImportOp)
  qed
next
  case (PurgeOp n)
  obtain ps where ps: "kd_Scan io (sm_db s) [prefixKey] (Some [prefixKey + 1]) = (ps, None)"
      "\<forall>k. k \<in> set (purge_keys n ps) \<longleftrightarrow> (\<exists>u. k = kv_userKey u \<and> ShardOf u = n \<and> abs (sm_db s) k \<noteq> None)"
    using purge_scan [OF i] by blast
  let ?us = "map (\<lambda>k. \<lparr>op_kind = kindDelete, op_key = k, op_value = []\<rparr>) (purge_keys n ps)"
  have u: "\<forall>x \<in> set ?us. user_op x" using ps(2) by (auto simp: user_op_def)
  have "step_ok s op (s\<lparr>sm_shards := (sm_shards s)(n \<mapsto> shardGone)\<rparr>) (?us @ [put_op (shardKey n) [shardGone]])"
    by (rule step_shard [OF u]) (use user_keys_purge [of "purge_keys n ps" n "abs (sm_db s)"] ps(2) in \<open>simp add: PurgeOp\<close>)
  then show ?thesis using x ps(1) by (auto simp: PurgeOp setShard_def foldl_batch_delete Let_def)
qed (use x step_none [of s op] sm_get_abs [OF i] in \<open>auto split: if_splits prod.splits option.splits\<close>)

definition sm_ok :: "'d StateMachine \<Rightarrow> bool" where
  "sm_ok s \<longleftrightarrow> inv (sm_db s) \<and> encodes (abs (sm_db s)) (sm_sessions s) (sm_shards s)
     \<and> (case abs (sm_db s) appliedKey of None \<Rightarrow> sm_applied s = 0 | Some v \<Rightarrow> v = put_be64 (sm_applied s))"

lemma record_sessions_ops:
  assumes "record_sessions s cmd res rb b = (s', b')"
  shows "\<exists>ops. b_ops b' = b_ops b @ ops \<and> session_ops ops (sm_sessions s) (sm_sessions s') \<and> sm_db s' = sm_db s
    \<and> sm_applied s' = sm_applied s \<and> sm_shards s' = sm_shards s"
proof -
  let ?a = "if c_clientId cmd \<noteq> 0 then [(c_clientId cmd, c_seq cmd, rb)] else []"
  let ?b = "if res_clientId res \<noteq> 0 then [(res_clientId res, 0, [])] else []"
  have "b_ops b' = b_ops b @ map sess_op (?a @ ?b) \<and> sm_sessions s' = foldl sess_upd (sm_sessions s) (?a @ ?b) \<and> sm_db s' = sm_db s
      \<and> sm_applied s' = sm_applied s \<and> sm_shards s' = sm_shards s"
    using assms by (auto simp: record_sessions_def sess_op_def sess_upd_def split: if_splits)
  then show ?thesis unfolding session_ops_def by blast
qed

lemma apply_command_ok:
  assumes ok: "sm_ok s" and a: "apply_command io marshal s cmd idx = Some (r, s1, b)"
  shows "ops_ok (b_ops b) \<and> sm_db s1 = sm_db s \<and> encodes (foldl apply_op (abs (sm_db s)) (b_ops b)) (sm_sessions s1) (sm_shards s1)
    \<and> (sm_shards s1, user_keys (foldl apply_op (abs (sm_db s)) (b_ops b))) =
        (if is_duplicate s cmd = None then kv_spec (sm_shards s) (user_keys (abs (sm_db s))) (c_op cmd) else (sm_shards s, user_keys (abs (sm_db s))))"
proof (cases "is_duplicate s cmd")
  case (Some x)
  then show ?thesis using a ok by (simp add: apply_command_def ops_ok_def sm_ok_def)
next
  case None
  obtain res s0 b0 where x: "execute io s (c_op cmd) idx emptyBatch = Some (res, s0, b0)"
      "record_sessions s0 cmd res (marshal res) b0 = (s1, b)"
    using a None by (auto simp: apply_command_def Let_def split: option.splits prod.splits)
  have st: "step_ok s (c_op cmd) s0 (b_ops b0)" using execute_step [OF _ x(1)] ok by (simp add: sm_ok_def)
  obtain ops where o: "b_ops b = b_ops b0 @ ops" "session_ops ops (sm_sessions s0) (sm_sessions s1)" "sm_db s1 = sm_db s0" "sm_shards s1 = sm_shards s0"
    using record_sessions_ops [OF x(2)] by blast
  have "encodes (foldl apply_op (abs (sm_db s)) (b_ops b0)) (sm_sessions s0) (sm_shards s0)"
    using encodes_step st ok by (auto simp: step_ok_def sm_ok_def)
  then have "encodes (foldl apply_op (abs (sm_db s)) (b_ops b)) (sm_sessions s1) (sm_shards s1)"
    using encodes_sessions [OF o(2)] o(1,4) by simp
  moreover have "ops_ok (b_ops b)" using step_ops_ok [of "b_ops b0"] session_ops_keys(2) [OF o(2)] st o(1) by (auto simp: step_ok_def)
  ultimately show ?thesis using st o session_ops_keys(1) [OF o(2), of "foldl apply_op (abs (sm_db s)) (b_ops b0)"] None by (simp add: step_ok_def)
qed

lemma apply_ok:
  assumes ok: "sm_ok s" and u: "unmarshal (en_data e) = Some cmd" and a: "apply_command io marshal s cmd (word_of_nat (en_index e)) = Some (r, s1, b)"
    and room: "room (sm_db s) (length (b_ops b) + 1)"
  shows "\<exists>s'. sm_Apply io unmarshal marshal s e = Some (r, s') \<and> sm_ok s' \<and> sm_applied s' = word_of_nat (en_index e)
    \<and> sm_sessions s' = sm_sessions s1
    \<and> (sm_shards s', user_keys (abs (sm_db s'))) =
        (if is_duplicate s cmd = None then kv_spec (sm_shards s) (user_keys (abs (sm_db s))) (c_op cmd) else (sm_shards s, user_keys (abs (sm_db s))))"
proof -
  note c = apply_command_ok [OF ok a]
  let ?i = "word_of_nat (en_index e) :: u64" and ?f = "foldl apply_op (abs (sm_db s)) (b_ops b)"
  let ?b = "Batch_Put b appliedKey (put_be64 ?i)"
  have i: "inv (sm_db s)" using ok by (simp add: sm_ok_def)
  have "ops_ok (b_ops ?b)" using c by (auto simp: ops_ok_def put_op_def appliedKey_def)
  then obtain d where d: "kd_Write io (sm_db s) ?b = (None, d)" "inv d" "abs d = ?f(appliedKey \<mapsto> put_be64 ?i)"
    using written [OF i, of ?b 0] room by (auto simp: apply_put_op)
  let ?s = "s1\<lparr>sm_db := d, sm_applied := ?i\<rparr>"
  have "sm_Apply io unmarshal marshal s e = Some (r, ?s)" using u a c d(1) by (simp add: sm_Apply_def)
  moreover have "sm_ok ?s" using encodes_applied c d(2,3) by (simp add: sm_ok_def)
  moreover have "user_keys (abs d) = user_keys ?f" using key_prefixes(3) by (auto simp: user_keys_def d(3) fun_eq_iff)
  ultimately show ?thesis using c by (intro exI [of _ ?s]) simp
qed

lemma restart:
  assumes ok: "sm_ok s"
  shows "NewStateMachine io (sm_db s) = Inr s"
proof -
  have i: "inv (sm_db s)" and e: "encodes (abs (sm_db s)) (sm_sessions s) (sm_shards s)" using ok by (simp_all add: sm_ok_def)
  obtain ps where ps: "kd_Scan io (sm_db s) [prefixSession] (Some [prefixSession + 1]) = (ps, None)"
      "scan_spec (abs (sm_db s)) [prefixSession] (Some [prefixSession + 1]) ps" using scan [OF i] by blast
  obtain qs where qs: "kd_Scan io (sm_db s) shardPrefix (Some shardPrefixEnd) = (qs, None)"
      "scan_spec (abs (sm_db s)) shardPrefix (Some shardPrefixEnd) qs" using scan [OF i] by blast
  have a: "(case kd_Get io (sm_db s) appliedKey of Inr v \<Rightarrow> Inr (get_be64 v) | Inl e \<Rightarrow> if e = ErrNotFound then Inr 0 else Inl e) = Inr (sm_applied s)"
    using ok by (simp add: sm_ok_def get [OF i] lookup_result_def split: option.splits)
  show ?thesis
    using a ps qs load_sessions_encodes [OF e ps(2)] load_shards_encodes [OF e qs(2)]
    by (simp add: NewStateMachine_def sm_load_def)
qed

end

section \<open>The in-memory engine as the store\<close>

definition memdb_kv :: "memDB kvdb" where
  "memdb_kv =
     \<lparr>kd_Get = memDB_Get, kd_Write = memDB_Write,
      kd_Scan = (\<lambda>d start end'. let n = child_size (mem_child (md_mem d))
         in (dbIter_drain child_ops n (Suc n) (memDB_Scan d start end'), if md_closed d then Some ErrClosed else None)),
      kd_Sync = (\<lambda>d. (None, d)), kd_Export = memDB_Export, kd_Restore = memDB_Restore\<rparr>"

definition md_room :: "memDB \<Rightarrow> nat \<Rightarrow> bool" where
  "md_room d n \<longleftrightarrow> unat (md_seq d) + n < 2 ^ 56"

definition md_open :: "memDB \<Rightarrow> bool" where
  "md_open d \<longleftrightarrow> md_inv d \<and> \<not> md_closed d"

interpretation mkv: kv_store memdb_kv md_abs md_open md_room
proof (unfold_locales, goal_cases)
  case (1 d k)
  then show ?case by (simp add: memdb_kv_def md_open_def memDB_Get_abs)
next
  case (2 d start end')
  then show ?case using memDB_scan_abs [of d _ start end'] by (simp add: memdb_kv_def md_open_def Let_def)
next
  case (3 d b n)
  then obtain d' where "memDB_Write d b = (None, d')" "md_inv d'" "\<not> md_closed d'" "md_abs d' = foldl apply_op (md_abs d) (b_ops b)"
      "unat (md_seq d') = unat (md_seq d) + length (b_ops b)"
    using memDB_Write_abs [of d b] by (auto simp: md_open_def md_room_def)
  then show ?case using 3(3) by (auto simp: memdb_kv_def md_open_def md_room_def)
qed

lemma NewMemory_ok: "NewStateMachine memdb_kv (NewMemory seed) = Inr \<lparr>sm_db = NewMemory seed, sm_applied = 0, sm_sessions = Map.empty, sm_shards = Map.empty\<rparr>"
  "mkv.sm_ok \<lparr>sm_db = NewMemory seed, sm_applied = 0, sm_sessions = Map.empty, sm_shards = Map.empty\<rparr>"
proof -
  show ok: "mkv.sm_ok \<lparr>sm_db = NewMemory seed, sm_applied = 0, sm_sessions = Map.empty, sm_shards = Map.empty\<rparr>"
    by (simp add: mkv.sm_ok_def md_open_def NewMemory_abs encodes_def)
  show "NewStateMachine memdb_kv (NewMemory seed) = Inr \<lparr>sm_db = NewMemory seed, sm_applied = 0, sm_sessions = Map.empty, sm_shards = Map.empty\<rparr>"
    using mkv.restart [OF ok] by simp
qed

definition kv_ok :: "memDB StateMachine \<Rightarrow> bool" where
  "kv_ok s \<longleftrightarrow> md_open (sm_db s) \<and> encodes (md_abs (sm_db s)) (sm_sessions s) (sm_shards s)
     \<and> (case md_abs (sm_db s) appliedKey of None \<Rightarrow> sm_applied s = 0 | Some v \<Rightarrow> v = put_be64 (sm_applied s))"

lemma kv_ok_iff: "kv_ok s \<longleftrightarrow> mkv.sm_ok s"
  by (simp add: kv_ok_def mkv.sm_ok_def)

definition apply_room :: "(Result \<Rightarrow> bytes) \<Rightarrow> memDB StateMachine \<Rightarrow> Command \<Rightarrow> u64 \<Rightarrow> bool" where
  "apply_room marshal s cmd i \<longleftrightarrow>
     (case apply_command memdb_kv marshal s cmd i of None \<Rightarrow> True | Some (r, s1, b) \<Rightarrow> md_room (sm_db s) (length (b_ops b) + 1))"

lemma kv_apply:
  assumes "kv_ok s" and "unmarshal (en_data e) = Some cmd" and "apply_room marshal s cmd (word_of_nat (en_index e))"
  shows "\<exists>r s1 b s'. apply_command memdb_kv marshal s cmd (word_of_nat (en_index e)) = Some (r, s1, b)
    \<and> sm_Apply memdb_kv unmarshal marshal s e = Some (r, s') \<and> kv_ok s' \<and> sm_applied s' = word_of_nat (en_index e)
    \<and> sm_sessions s' = sm_sessions s1
    \<and> (sm_shards s', user_keys (md_abs (sm_db s'))) =
        (if is_duplicate s cmd = None then kv_spec (sm_shards s) (user_keys (md_abs (sm_db s))) (c_op cmd)
         else (sm_shards s, user_keys (md_abs (sm_db s))))"
proof -
  let ?i = "word_of_nat (en_index e) :: u64"
  have ok: "mkv.sm_ok s" using assms(1) by (simp add: kv_ok_iff)
  have "\<exists>r s1 b. apply_command memdb_kv marshal s cmd ?i = Some (r, s1, b)"
    using mkv.execute_total [of s "c_op cmd" ?i emptyBatch] ok
    by (auto simp: apply_command_def Let_def mkv.sm_ok_def split: option.splits prod.splits)
  then obtain r s1 b where a: "apply_command memdb_kv marshal s cmd ?i = Some (r, s1, b)" by blast
  have "md_room (sm_db s) (length (b_ops b) + 1)" using assms(3) a by (simp add: apply_room_def)
  from mkv.apply_ok [where unmarshal = unmarshal and e = e, OF ok assms(2) a this] show ?thesis using a by (auto simp: kv_ok_iff)
qed

section \<open>Sessions\<close>

lemma execute_clientId: "execute io s op i b = Some (res, s', b') \<Longrightarrow> res_clientId res = 0 \<or> res_clientId res = i"
  by (cases op) (auto simp: emptyResult_def setShard_def Let_def split: if_splits sum.splits prod.splits option.splits)

lemma execute_sessions: "execute io s op i b = Some (res, s', b') \<Longrightarrow> sm_sessions s' = sm_sessions s"
  by (cases op) (auto simp: setShard_def Let_def split: if_splits sum.splits prod.splits option.splits)

lemma record_sessions_at:
  assumes "res_clientId res = 0 \<or> res_clientId res \<noteq> d"
  shows "sm_sessions (fst (record_sessions s cmd res rb b)) d =
    (if c_clientId cmd \<noteq> 0 \<and> d = c_clientId cmd then Some \<lparr>se_seq = c_seq cmd, se_result = rb\<rparr> else sm_sessions s d)"
proof (cases "c_clientId cmd = 0")
  case True
  then show ?thesis using assms by (cases "res_clientId res = 0") (simp_all add: record_sessions_def)
next
  case False
  then show ?thesis using assms by (cases "res_clientId res = 0") (simp_all add: record_sessions_def)
qed

lemma apply_sessions:
  assumes "apply_command io marshal s cmd i = Some (r, s1, b)"
  shows "c \<noteq> c_clientId cmd \<Longrightarrow> c \<noteq> i \<Longrightarrow> sm_sessions s1 c = sm_sessions s c"
    "c_clientId cmd \<noteq> 0 \<Longrightarrow> c_clientId cmd \<noteq> i \<Longrightarrow> is_duplicate s1 cmd = Some r"
proof -
  have "(c \<noteq> c_clientId cmd \<longrightarrow> c \<noteq> i \<longrightarrow> sm_sessions s1 c = sm_sessions s c)
      \<and> (c_clientId cmd \<noteq> 0 \<longrightarrow> c_clientId cmd \<noteq> i \<longrightarrow> is_duplicate s1 cmd = Some r)"
  proof (cases "is_duplicate s cmd")
    case (Some x)
    then show ?thesis using assms by (auto simp: apply_command_def)
  next
    case None
    obtain y where ex: "execute io s (c_op cmd) i emptyBatch = Some y" using assms None by (cases "execute io s (c_op cmd) i emptyBatch") (simp_all add: apply_command_def)
    obtain res s0 b0 where y: "y = (res, s0, b0)" by (rule prod_cases3)
    obtain s2 b2 where rs: "record_sessions s0 cmd res (marshal res) b0 = (s2, b2)" by (rule prod.exhaust)
    have x: "execute io s (c_op cmd) i emptyBatch = Some (res, s0, b0)" "record_sessions s0 cmd res (marshal res) b0 = (s1, b)" "r = marshal res"
      using assms None ex y rs by (simp_all add: apply_command_def)
    have se: "sm_sessions s1 d = (if c_clientId cmd \<noteq> 0 \<and> d = c_clientId cmd then Some \<lparr>se_seq = c_seq cmd, se_result = marshal res\<rparr> else sm_sessions s0 d)"
      if "d \<noteq> i" for d
    proof -
      have "res_clientId res = 0 \<or> res_clientId res \<noteq> d" using execute_clientId [OF x(1)] that by blast
      from record_sessions_at [OF this, of s0 cmd "marshal res" b0] show ?thesis unfolding x(2) fst_conv .
    qed
    have "is_duplicate s1 cmd = Some r" if "c_clientId cmd \<noteq> 0" "c_clientId cmd \<noteq> i"
      using se [OF that(2)] that(1) x(3) by (simp add: is_duplicate_def)
    moreover have "sm_sessions s1 c = sm_sessions s c" if "c \<noteq> c_clientId cmd" "c \<noteq> i"
      using se [OF that(2)] that(1) execute_sessions [OF x(1)] by simp
    ultimately show ?thesis by blast
  qed
  then show "c \<noteq> c_clientId cmd \<Longrightarrow> c \<noteq> i \<Longrightarrow> sm_sessions s1 c = sm_sessions s c"
    "c_clientId cmd \<noteq> 0 \<Longrightarrow> c_clientId cmd \<noteq> i \<Longrightarrow> is_duplicate s1 cmd = Some r" by blast+
qed

lemma Apply_sessions:
  assumes "sm_Apply io unmarshal marshal s e = Some (r, s')" and "unmarshal (en_data e) = Some cmd"
  shows "c \<noteq> c_clientId cmd \<Longrightarrow> c \<noteq> word_of_nat (en_index e) \<Longrightarrow> sm_sessions s' c = sm_sessions s c"
    "c_clientId cmd \<noteq> 0 \<Longrightarrow> c_clientId cmd \<noteq> word_of_nat (en_index e) \<Longrightarrow> is_duplicate s' cmd = Some r"
proof -
  obtain s1 b where a: "apply_command io marshal s cmd (word_of_nat (en_index e)) = Some (r, s1, b)" "sm_sessions s' = sm_sessions s1"
    using assms by (auto simp: sm_Apply_def split: option.splits prod.splits)
  show "c \<noteq> c_clientId cmd \<Longrightarrow> c \<noteq> word_of_nat (en_index e) \<Longrightarrow> sm_sessions s' c = sm_sessions s c"
    using apply_sessions(1) [OF a(1)] a(2) by simp
  show "c_clientId cmd \<noteq> 0 \<Longrightarrow> c_clientId cmd \<noteq> word_of_nat (en_index e) \<Longrightarrow> is_duplicate s' cmd = Some r"
    using apply_sessions(2) [OF a(1)] a(2) by (simp add: is_duplicate_def)
qed

fun apply_all :: "'d kvdb \<Rightarrow> (bytes \<Rightarrow> Command option) \<Rightarrow> (Result \<Rightarrow> bytes) \<Rightarrow> 'd StateMachine \<Rightarrow> Entry list \<Rightarrow> 'd StateMachine option" where
  "apply_all io unmarshal marshal s [] = Some s"
| "apply_all io unmarshal marshal s (e # es) =
     (case sm_Apply io unmarshal marshal s e of None \<Rightarrow> None | Some (r, s') \<Rightarrow> apply_all io unmarshal marshal s' es)"

definition from_others :: "(bytes \<Rightarrow> Command option) \<Rightarrow> u64 \<Rightarrow> Entry list \<Rightarrow> bool" where
  "from_others unmarshal c es \<longleftrightarrow>
     list_all (\<lambda>e. word_of_nat (en_index e) \<noteq> c \<and> (case unmarshal (en_data e) of None \<Rightarrow> True | Some cmd \<Rightarrow> c_clientId cmd \<noteq> c)) es"

lemma apply_all_sessions:
  "apply_all io unmarshal marshal s es = Some s' \<Longrightarrow> from_others unmarshal c es \<Longrightarrow> sm_sessions s' c = sm_sessions s c"
proof (induction es arbitrary: s)
  case (Cons e es)
  obtain r s1 where a: "sm_Apply io unmarshal marshal s e = Some (r, s1)" "apply_all io unmarshal marshal s1 es = Some s'"
    using Cons.prems(1) by (auto split: option.splits)
  obtain cmd where u: "unmarshal (en_data e) = Some cmd" using a(1) by (auto simp: sm_Apply_def split: option.splits)
  have "c_clientId cmd \<noteq> c" "word_of_nat (en_index e) \<noteq> c" "from_others unmarshal c es" using Cons.prems(2) u by (simp_all add: from_others_def)
  then show ?case using Cons.IH [OF a(2)] Apply_sessions(1) [OF a(1) u, of c] by auto
qed simp

text \<open>Once a command has been answered it stays a retry, whatever the same client sends afterwards.\<close>

lemma Apply_keeps_retry:
  assumes a: "sm_Apply io unmarshal marshal s e = Some (r, s')" and dup: "is_duplicate s cmd = Some x"
    and i: "word_of_nat (en_index e) \<noteq> c_clientId cmd"
  shows "\<exists>y. is_duplicate s' cmd = Some y"
proof -
  obtain cmd' where u: "unmarshal (en_data e) = Some cmd'" using a by (auto simp: sm_Apply_def split: option.splits)
  obtain sess where sess: "sm_sessions s (c_clientId cmd) = Some sess" "c_clientId cmd \<noteq> 0" "c_seq cmd \<le> se_seq sess"
    using dup by (auto simp: is_duplicate_def split: option.splits if_splits)
  show ?thesis
  proof (cases "c_clientId cmd' = c_clientId cmd")
    case False
    then have "sm_sessions s' (c_clientId cmd) = sm_sessions s (c_clientId cmd)" using Apply_sessions(1) [OF a u] i by metis
    then show ?thesis using dup by (simp add: is_duplicate_def)
  next
    case True
    show ?thesis
    proof (cases "is_duplicate s cmd'")
      case None
      then have "c_seq cmd < c_seq cmd'" using sess True by (auto simp: is_duplicate_def split: if_splits)
      moreover have "is_duplicate s' cmd' = Some r" using Apply_sessions(2) [OF a u] True sess(2) i by simp
      ultimately show ?thesis using True by (auto simp: is_duplicate_def split: option.splits if_splits)
    next
      case (Some y)
      then have "sm_sessions s' = sm_sessions s" using a u by (auto simp: sm_Apply_def apply_command_def split: option.splits prod.splits)
      then show ?thesis using dup by (simp add: is_duplicate_def)
    qed
  qed
qed

lemma apply_all_keeps_retry:
  "apply_all io unmarshal marshal s es = Some s' \<Longrightarrow> is_duplicate s cmd = Some x
     \<Longrightarrow> list_all (\<lambda>e. word_of_nat (en_index e) \<noteq> c_clientId cmd) es \<Longrightarrow> \<exists>y. is_duplicate s' cmd = Some y"
proof (induction es arbitrary: s x)
  case (Cons e es)
  obtain r s1 where a: "sm_Apply io unmarshal marshal s e = Some (r, s1)" "apply_all io unmarshal marshal s1 es = Some s'"
    using Cons.prems(1) by (auto split: option.splits)
  then show ?case using Cons.IH [OF a(2)] Apply_keeps_retry [OF a(1) Cons.prems(2)] Cons.prems(3) by auto
qed simp

section \<open>Properties\<close>

text \<open>
  C5: a command means what its specification says. Applying an entry that is not a retry never fails on a
  consistent state machine, keeps it consistent, and changes the user's keys and the shard states exactly
  as \<open>kv_spec\<close> does: a put, a delete or a compare-and-swap takes effect only in an open shard, a frozen shard keeps its
  keys, an import lands only where the shard is unknown or gone, and a purge removes exactly the keys of
  its shard. The encoding of commands and results is arbitrary.
\<close>

theorem apply_refines_spec:
  assumes "kv_ok s" and "unmarshal (en_data e) = Some cmd" and "is_duplicate s cmd = None"
    and "apply_room marshal s cmd (word_of_nat (en_index e))"
  shows "\<exists>r s'. sm_Apply memdb_kv unmarshal marshal s e = Some (r, s') \<and> kv_ok s' \<and> sm_applied s' = word_of_nat (en_index e)
    \<and> (sm_shards s', user_keys (md_abs (sm_db s'))) = kv_spec (sm_shards s) (user_keys (md_abs (sm_db s))) (c_op cmd)"
  using kv_apply [of s unmarshal e cmd marshal] assms by auto

text \<open>
  C6: a state machine loaded from its engine is the one that was running. After any applied entry, opening a
  new state machine on the same engine finds the same last index, the same sessions and the same shard
  states, so that a restart between two entries cannot be noticed.
\<close>

theorem restart_recovers:
  assumes "kv_ok s" and "unmarshal (en_data e) = Some cmd" and "apply_room marshal s cmd (word_of_nat (en_index e))"
    and "sm_Apply memdb_kv unmarshal marshal s e = Some (r, s')"
  shows "NewStateMachine memdb_kv (sm_db s') = Inr s'"
proof -
  have "kv_ok s'" using kv_apply [of s unmarshal e cmd marshal] assms by auto
  then show ?thesis using mkv.restart kv_ok_iff by blast
qed

text \<open>
  C4: retries are harmless. When a client's command has been applied, and the log then brings any number of
  entries, later commands of the same client included, applying the same command again executes nothing: the
  user's keys, the shards and the sessions stay as they are, and the answer is the one the session holds. When
  the client sent nothing in between, that is the very answer the command got the first time; otherwise
  it is the answer to the client's latest command. The index of an entry is never the identifier of a client
  that registered earlier, because a client is named by the index it registered at.
\<close>

theorem retry_is_harmless:
  assumes "sm_Apply memdb_kv unmarshal marshal s e = Some (r, s1)" and "unmarshal (en_data e) = Some cmd"
    and "c_clientId cmd \<noteq> 0" and "list_all (\<lambda>e. word_of_nat (en_index e) \<noteq> c_clientId cmd) (e # es)"
    and "apply_all memdb_kv unmarshal marshal s1 es = Some s2"
    and "kv_ok s2" and "unmarshal (en_data e') = Some cmd" and "md_room (sm_db s2) 1"
  shows "\<exists>a s3. sm_Apply memdb_kv unmarshal marshal s2 e' = Some (a, s3) \<and> kv_ok s3 \<and> sm_sessions s3 = sm_sessions s2
    \<and> sm_shards s3 = sm_shards s2 \<and> user_keys (md_abs (sm_db s3)) = user_keys (md_abs (sm_db s2))
    \<and> map_option se_result (sm_sessions s2 (c_clientId cmd)) = Some a
    \<and> (from_others unmarshal (c_clientId cmd) es \<longrightarrow> a = r)"
proof -
  have d1: "is_duplicate s1 cmd = Some r" using Apply_sessions(2) [OF assms(1,2)] assms(3,4) by auto
  obtain a where d: "is_duplicate s2 cmd = Some a" using apply_all_keeps_retry [OF assms(5) d1] assms(4) by auto
  have same: "a = r" if "from_others unmarshal (c_clientId cmd) es"
    using apply_all_sessions [OF assms(5) that] d d1 by (simp add: is_duplicate_def)
  have held: "map_option se_result (sm_sessions s2 (c_clientId cmd)) = Some a"
    using d by (auto simp: is_duplicate_def split: option.splits if_splits)
  have c: "apply_command memdb_kv marshal s2 cmd (word_of_nat (en_index e')) = Some (a, s2, emptyBatch)"
    using d by (simp add: apply_command_def)
  then have "apply_room marshal s2 cmd (word_of_nat (en_index e'))" using assms(8) by (simp add: apply_room_def)
  from kv_apply [where unmarshal = unmarshal and e = e', OF assms(6,7) this] show ?thesis using c d same held by auto
qed

section \<open>An example\<close>

definition ex_cmd :: Command where
  "ex_cmd = \<lparr>c_clientId = 5, c_seq = 1, c_op = PutOp [1] [10]\<rparr>"

definition ex_unmarshal :: "bytes \<Rightarrow> Command option" where
  "ex_unmarshal b = (if b = [1] then Some ex_cmd else None)"

definition ex_marshal :: "Result \<Rightarrow> bytes" where
  "ex_marshal r = [if res_success r then 1 else 0]"

definition ex_entry :: "nat \<Rightarrow> Entry" where
  "ex_entry i = \<lparr>en_index = i, en_term = 1, en_type = EntryNormal, en_data = [1]\<rparr>"

definition ex_sm :: "memDB StateMachine" where
  "ex_sm = \<lparr>sm_db = NewMemory 7, sm_applied = 0, sm_sessions = Map.empty, sm_shards = Map.empty\<rparr>"

lemma ex_facts:
  "kv_ok ex_sm" "ex_unmarshal (en_data (ex_entry i)) = Some ex_cmd" "is_duplicate ex_sm ex_cmd = None"
  "apply_room ex_marshal ex_sm ex_cmd (word_of_nat (en_index (ex_entry 9)))"
proof -
  show "kv_ok ex_sm" using NewMemory_ok(2) by (simp add: kv_ok_iff ex_sm_def)
  show "ex_unmarshal (en_data (ex_entry i)) = Some ex_cmd" by (simp add: ex_unmarshal_def ex_entry_def)
  show "is_duplicate ex_sm ex_cmd = None" by (simp add: is_duplicate_def ex_sm_def)
  then show "apply_room ex_marshal ex_sm ex_cmd (word_of_nat (en_index (ex_entry 9)))"
    by (simp add: apply_room_def apply_command_def ex_cmd_def ex_sm_def writable_def shard_state_def record_sessions_def emptyResult_def
        md_room_def NewMemory_def is_duplicate_def Let_def)
qed

theorem apply_refines_spec_witness:
  "\<exists>r s'. sm_Apply memdb_kv ex_unmarshal ex_marshal ex_sm (ex_entry 9) = Some (r, s') \<and> user_keys (md_abs (sm_db s')) = [[1] \<mapsto> [10]]"
proof -
  have "user_keys (md_abs (sm_db ex_sm)) = Map.empty" by (simp add: ex_sm_def NewMemory_abs user_keys_def fun_eq_iff)
  moreover have "sm_shards ex_sm = Map.empty" by (simp add: ex_sm_def)
  ultimately show ?thesis using apply_refines_spec [where unmarshal = ex_unmarshal and e = "ex_entry 9", OF ex_facts(1-4)] by (auto simp: ex_cmd_def)
qed

lemma ex_apply: "\<exists>s'. sm_Apply memdb_kv ex_unmarshal ex_marshal ex_sm (ex_entry 9) = Some ([1], s') \<and> kv_ok s' \<and> md_room (sm_db s') 1"
proof -
  let ?i = "word_of_nat (en_index (ex_entry 9)) :: u64"
  obtain r s1 b s' where k: "apply_command memdb_kv ex_marshal ex_sm ex_cmd ?i = Some (r, s1, b)"
      "sm_Apply memdb_kv ex_unmarshal ex_marshal ex_sm (ex_entry 9) = Some (r, s')" "kv_ok s'"
    using kv_apply [where unmarshal = ex_unmarshal and e = "ex_entry 9", OF ex_facts(1,2,4)] by blast
  have b: "r = [1]" "length (b_ops b) = 2" "sm_db s1 = NewMemory 7"
    using k(1) by (auto simp: apply_command_def ex_cmd_def ex_sm_def writable_def shard_state_def record_sessions_def emptyResult_def is_duplicate_def ex_marshal_def Let_def)
  have "sm_db s' = snd (memDB_Write (NewMemory 7) (Batch_Put b appliedKey (put_be64 ?i)))"
    using k(1,2) b(3) ex_facts(2) by (auto simp: sm_Apply_def memdb_kv_def memDB_Write_def NewMemory_abs)
  then have "md_seq (sm_db s') = 3" using b(2) by (simp add: memDB_Write_def NewMemory_abs)
  then show ?thesis using k b(1) by (simp add: md_room_def)
qed

theorem restart_recovers_witness:
  "\<exists>s'. sm_Apply memdb_kv ex_unmarshal ex_marshal ex_sm (ex_entry 9) = Some ([1], s') \<and> NewStateMachine memdb_kv (sm_db s') = Inr s'"
  using ex_apply restart_recovers [where unmarshal = ex_unmarshal and e = "ex_entry 9", OF ex_facts(1,2,4)] by blast

theorem retry_is_harmless_witness:
  "\<exists>s1 s3. sm_Apply memdb_kv ex_unmarshal ex_marshal ex_sm (ex_entry 9) = Some ([1], s1)
     \<and> sm_Apply memdb_kv ex_unmarshal ex_marshal s1 (ex_entry 10) = Some ([1], s3)
     \<and> user_keys (md_abs (sm_db s3)) = user_keys (md_abs (sm_db s1))"
proof -
  obtain s1 where s1: "sm_Apply memdb_kv ex_unmarshal ex_marshal ex_sm (ex_entry 9) = Some ([1], s1)" "kv_ok s1" "md_room (sm_db s1) 1" using ex_apply by blast
  have c: "c_clientId ex_cmd \<noteq> 0" "list_all (\<lambda>e. word_of_nat (en_index e) \<noteq> c_clientId ex_cmd) [ex_entry 9]" by (simp_all add: ex_cmd_def ex_entry_def)
  have e: "apply_all memdb_kv ex_unmarshal ex_marshal s1 [] = Some s1" "from_others ex_unmarshal (c_clientId ex_cmd) []" by (simp_all add: from_others_def)
  obtain a s3 where "sm_Apply memdb_kv ex_unmarshal ex_marshal s1 (ex_entry 10) = Some (a, s3)"
      "user_keys (md_abs (sm_db s3)) = user_keys (md_abs (sm_db s1))" "from_others ex_unmarshal (c_clientId ex_cmd) [] \<longrightarrow> a = [1]"
    using retry_is_harmless [where e' = "ex_entry 10", OF s1(1) ex_facts(2) c e(1) s1(2) ex_facts(2) s1(3)] by blast
  then show ?thesis using s1(1) e(2) by auto
qed

end
