(* ===== verification/Raft.thy ===== *)
theory Raft
  imports Raft_Log "HOL-Library.AList"
begin

text \<open>
  The consensus state machine (\<open>src/raft/raft.go\<close>, \<open>src/raft/snapshot.go\<close>), handler by handler.
  The state holds the store; the messages handed to the transport are appended to \<open>r_out\<close>; the
  draws of the random generator are the list \<open>r_rng\<close>. The source panics when the store cannot
  answer: the handlers return \<open>option\<close>, and \<open>None\<close> is the panic. Go maps are association lists, with
  the empty list for nil; a missing key reads as zero. The store is \<open>MemStore\<close>, whose writes do not fail, so that the
  panics on a failed write do not arise.
\<close>

section \<open>State\<close>

datatype State = Follower | Candidate | Leader

datatype raft_error = ErrNotLeader | ErrLeaderNotReady | ErrNoID | ErrBadConfig

record readRound =
  rr_index :: nat
  rr_acks :: "(NodeID \<times> bool) list"

record ReadReady =
  rdy_id :: nat
  rdy_index :: nat

record snapTransfer =
  st_index :: nat
  st_term :: nat
  st_data :: bytes
  st_offset :: nat

record Config =
  cfg_id :: NodeID
  cfg_peers :: "NodeID list"
  cfg_electionTick :: int
  cfg_heartbeatTick :: int
  cfg_maxBatch :: int
  cfg_maxBatchBytes :: int
  cfg_snapshotChunk :: int

record Raft =
  r_id :: NodeID
  r_peers :: "NodeID list"
  r_store :: MemStore
  r_out :: "Message list"
  r_rng :: "nat list"
  r_electionTick :: nat
  r_heartbeatTick :: nat
  r_maxBatch :: nat
  r_maxBatchBytes :: nat
  r_snapChunk :: nat
  r_term :: nat
  r_vote :: NodeID
  r_state :: State
  r_lead :: NodeID
  r_commit :: nat
  r_votes :: "(NodeID \<times> bool) list"
  r_next :: "(NodeID \<times> nat) list"
  r_match :: "(NodeID \<times> nat) list"
  r_elapsed :: nat
  r_timeout :: nat
  r_reads :: "(nat \<times> readRound) list"
  r_nextReadID :: nat
  r_ready :: "ReadReady list"
  r_snapOut :: "(NodeID \<times> snapTransfer) list"
  r_snapIn :: "snapTransfer option"
  r_restored :: "snapTransfer option"

definition mget :: "(nat \<times> nat) list \<Rightarrow> nat \<Rightarrow> nat" where
  "mget m k = (case map_of m k of None \<Rightarrow> 0 | Some v \<Rightarrow> v)"

text \<open>Where the source panics on an error of the store.\<close>

fun or_panic :: "'e + 'a \<Rightarrow> 'a option" where
  "or_panic (Inl e) = None"
| "or_panic (Inr x) = Some x"

section \<open>Helpers\<close>

definition quorum :: "Raft \<Rightarrow> nat" where
  "quorum r = length (r_peers r) div 2 + 1"

definition resetTimeout :: "Raft \<Rightarrow> Raft" where
  "resetTimeout r =
     (let d = (case r_rng r of [] \<Rightarrow> 0 | n # _ \<Rightarrow> n mod r_electionTick r)
      in r\<lparr>r_elapsed := 0, r_timeout := r_electionTick r + d, r_rng := tl (r_rng r)\<rparr>)"

definition send :: "Raft \<Rightarrow> Message \<Rightarrow> Raft" where
  "send r m = r\<lparr>r_out := r_out r @ [m\<lparr>msg_from := r_id r, msg_term := r_term r\<rparr>]\<rparr>"

definition termAt :: "Raft \<Rightarrow> nat \<Rightarrow> nat option" where
  "termAt r i = or_panic (MemStore_Term (r_store r) i)"

definition lastIndexAndTerm :: "Raft \<Rightarrow> (nat \<times> nat) option" where
  "lastIndexAndTerm r =
     (let lst = MemStore_LastIndex (r_store r)
      in do { t \<leftarrow> termAt r lst; Some (lst, t) })"

definition persistState :: "Raft \<Rightarrow> Raft" where
  "persistState r = r\<lparr>r_store := MemStore_SetState (r_store r) (r_term r) (r_vote r)\<rparr>"

definition raft_New :: "Config \<Rightarrow> MemStore \<Rightarrow> nat list \<Rightarrow> raft_error + Raft" where
  "raft_New cfg store rng =
     (if cfg_id cfg = NoNode then Inl ErrNoID
      else if cfg_peers cfg = [] \<or> cfg_electionTick cfg \<le> 0 \<or> cfg_heartbeatTick cfg \<le> 0 then Inl ErrBadConfig
      else let dflt = (\<lambda>v d. if v \<le> 0 then d else nat v); (t, v) = MemStore_State store
        in Inr (resetTimeout
             \<lparr>r_id = cfg_id cfg, r_peers = cfg_peers cfg, r_store = store, r_out = [], r_rng = rng,
              r_electionTick = nat (cfg_electionTick cfg), r_heartbeatTick = nat (cfg_heartbeatTick cfg),
              r_maxBatch = dflt (cfg_maxBatch cfg) 256, r_maxBatchBytes = dflt (cfg_maxBatchBytes cfg) 1048576,
              r_snapChunk = dflt (cfg_snapshotChunk cfg) 524288,
              r_term = t, r_vote = v, r_state = Follower, r_lead = NoNode, r_commit = fst (MemStore_Snapshot store),
              r_votes = [], r_next = [], r_match = [], r_elapsed = 0, r_timeout = 0,
              r_reads = [], r_nextReadID = 0, r_ready = [], r_snapOut = [], r_snapIn = None, r_restored = None\<rparr>))"

section \<open>Replication\<close>

fun fit_loop :: "nat \<Rightarrow> nat \<Rightarrow> nat \<Rightarrow> Entry list \<Rightarrow> nat" where
  "fit_loop limit sz i [] = i"
| "fit_loop limit sz i (e # es) =
     (let sz' = sz + length (en_data e)
      in if sz' > limit \<and> i > 0 then i else fit_loop limit sz' (i + 1) es)"

definition fitBatch :: "Raft \<Rightarrow> Entry list \<Rightarrow> Entry list" where
  "fitBatch r es =
     (let es' = (if length es > r_maxBatch r then take (r_maxBatch r) es else es)
      in take (fit_loop (r_maxBatchBytes r) 0 0 es') es')"

text \<open>Slicing the data panics when the offset lies beyond its end.\<close>

definition sendChunk :: "Raft \<Rightarrow> NodeID \<Rightarrow> snapTransfer \<Rightarrow> Raft option" where
  "sendChunk r to' x =
     (let end' = min (st_offset x + r_snapChunk r) (length (st_data x))
      in if st_offset x > end' then None
         else Some (send r ((mkMsg MsgSnap to')\<lparr>msg_index := st_index x, msg_logTerm := st_term x,
           msg_data := take (end' - st_offset x) (drop (st_offset x) (st_data x)),
           msg_offset := st_offset x, msg_done := (end' = length (st_data x))\<rparr>)))"

definition sendSnapshot :: "Raft \<Rightarrow> NodeID \<Rightarrow> Raft option" where
  "sendSnapshot r to' =
     (let (idx, t, data) = MemStore_Snapshot (r_store r);
          fresh = \<lparr>st_index = idx, st_term = t, st_data = data, st_offset = 0\<rparr>
      in case map_of (r_snapOut r) to' of
           Some x \<Rightarrow>
             if st_index x \<noteq> idx
             then sendChunk (r\<lparr>r_snapOut := AList.update to' fresh (r_snapOut r)\<rparr>) to' fresh
             else sendChunk r to' x
         | None \<Rightarrow> sendChunk (r\<lparr>r_snapOut := AList.update to' fresh (r_snapOut r)\<rparr>) to' fresh)"

text \<open>The batch \<open>sendAppend\<close> ships from index \<open>nxt\<close> on, with the follower's next index advanced past it.\<close>

definition next_batch :: "Raft \<Rightarrow> NodeID \<Rightarrow> nat \<Rightarrow> (Entry list \<times> Raft) option" where
  "next_batch r to' nxt =
     (let lst = MemStore_LastIndex (r_store r)
      in if nxt \<le> lst then do {
           es \<leftarrow> or_panic (MemStore_Entries (r_store r) nxt (min (nxt + r_maxBatch r) (lst + 1)));
           let es' = fitBatch r es;
           Some (es', r\<lparr>r_next := AList.update to' (nxt + length es') (r_next r)\<rparr>) }
         else Some ([], r))"

definition append_msg :: "Raft \<Rightarrow> NodeID \<Rightarrow> nat \<Rightarrow> nat \<Rightarrow> Entry list \<Rightarrow> nat \<Rightarrow> Message" where
  "append_msg r to' prev prevTerm es readID =
     (mkMsg MsgApp to')\<lparr>msg_index := prev, msg_logTerm := prevTerm, msg_entries := es,
        msg_commit := r_commit r, msg_readID := readID\<rparr>"

definition sendAppend :: "Raft \<Rightarrow> NodeID \<Rightarrow> nat \<Rightarrow> Raft option" where
  "sendAppend r to' readID =
     (let nxt = mget (r_next r) to'; first = MemStore_FirstIndex (r_store r)
      in if nxt < first then
           (if readID = 0 then sendSnapshot r to'
            else do { t \<leftarrow> termAt r (first - 1); Some (send r (append_msg r to' (first - 1) t [] readID)) })
         else do {
           prevTerm \<leftarrow> termAt r (nxt - 1);
           b \<leftarrow> next_batch r to' nxt;
           Some (send (snd b) (append_msg r to' (nxt - 1) prevTerm (fst b) readID)) })"

text \<open>The loops \<open>for _, p := range r.peers\<close> that call a handler per peer.\<close>

fun for_peers :: "(Raft \<Rightarrow> NodeID \<Rightarrow> Raft option) \<Rightarrow> NodeID list \<Rightarrow> Raft \<Rightarrow> Raft option" where
  "for_peers f [] r = Some r"
| "for_peers f (p # ps) r = do { r' \<leftarrow> f r p; for_peers f ps r' }"

definition broadcastAppend :: "Raft \<Rightarrow> Raft option" where
  "broadcastAppend r =
     for_peers (\<lambda>r p. if p \<noteq> r_id r then sendAppend r p 0 else Some r) (r_peers r) r"

definition maybeCommit :: "Raft \<Rightarrow> (bool \<times> Raft) option" where
  "maybeCommit r =
     (let matches = rev (sort (map (mget (r_match r)) (r_peers r)));
          n = matches ! (quorum r - 1)
      in if n \<le> r_commit r then Some (False, r)
         else do {
           t \<leftarrow> termAt r n;
           if t \<noteq> r_term r then Some (False, r) else Some (True, r\<lparr>r_commit := n\<rparr>) })"

definition early_peer :: "Raft \<Rightarrow> bool \<Rightarrow> nat \<Rightarrow> NodeID \<Rightarrow> bool" where
  "early_peer r oneBatch lst p \<longleftrightarrow> \<not> (p = r_id r \<or> mget (r_next r) p \<noteq> lst + 1 \<or> \<not> oneBatch)"

definition send_early :: "bool \<Rightarrow> nat \<Rightarrow> nat \<Rightarrow> Entry list \<Rightarrow> Raft \<times> NodeID list \<Rightarrow> NodeID \<Rightarrow> Raft \<times> NodeID list" where
  "send_early oneBatch lst prevTerm es re p =
     (if early_peer (fst re) oneBatch lst p then
        (send ((fst re)\<lparr>r_next := AList.update p (lst + 1 + length es) (r_next (fst re))\<rparr>)
           (append_msg (fst re) p lst prevTerm es 0),
         p # snd re)
      else re)"

definition number_entries :: "Raft \<Rightarrow> Entry list \<Rightarrow> Entry list" where
  "number_entries r es =
     map (\<lambda>(i, e). e\<lparr>en_index := MemStore_LastIndex (r_store r) + 1 + i, en_term := r_term r\<rparr>) (enumerate 0 es)"

text \<open>The second half of \<open>appendEntries\<close>: the local write, the peers that were not served early, the commit.\<close>

definition append_local :: "Raft \<Rightarrow> NodeID list \<Rightarrow> nat \<Rightarrow> Entry list \<Rightarrow> Raft option" where
  "append_local r early lst es = do {
     store \<leftarrow> or_panic (MemStore_Append (r_store r) es);
     let r2 = r\<lparr>r_store := store, r_match := AList.update (r_id r) (lst + length es) (r_match r)\<rparr>;
     r3 \<leftarrow> for_peers (\<lambda>r p. if p \<noteq> r_id r \<and> p \<notin> set early then sendAppend r p 0 else Some r) (r_peers r2) r2;
     c \<leftarrow> maybeCommit r3;
     Some (snd c) }"

definition appendEntries :: "Raft \<Rightarrow> Entry list \<Rightarrow> (nat \<times> Raft) option" where
  "appendEntries r entries =
     (let lst = MemStore_LastIndex (r_store r); es = number_entries r entries
      in do {
        prevTerm \<leftarrow> termAt r lst;
        let oneBatch = (length (fitBatch r es) = length es);
        let re = foldl (send_early oneBatch lst prevTerm es) (r, []) (r_peers r);
        r' \<leftarrow> append_local (fst re) (snd re) lst es;
        Some (lst + 1, r') })"

definition becomeLeader :: "Raft \<Rightarrow> Raft option" where
  "becomeLeader r =
     (let lst = MemStore_LastIndex (r_store r);
          r' = r\<lparr>r_state := Leader, r_lead := r_id r, r_elapsed := 0,
                 r_next := map (\<lambda>p. (p, lst + 1)) (r_peers r), r_match := [],
                 r_reads := [], r_snapOut := []\<rparr>
      in do {
        a \<leftarrow> appendEntries r' [\<lparr>en_index = 0, en_term = 0, en_type = EntryNoop, en_data = []\<rparr>];
        Some (snd a) })"

section \<open>Elections\<close>

definition becomeFollower :: "Raft \<Rightarrow> nat \<Rightarrow> NodeID \<Rightarrow> Raft" where
  "becomeFollower r t lead =
     (let r1 = (if t > r_term r then persistState (r\<lparr>r_term := t, r_vote := NoNode\<rparr>) else r);
          restart = (lead \<noteq> NoNode \<or> r_state r1 \<noteq> Follower);
          r2 = r1\<lparr>r_state := Follower, r_lead := lead, r_votes := [], r_next := [], r_match := [],
                  r_reads := [], r_snapOut := []\<rparr>
      in if restart then resetTimeout r2 else r2)"

definition countVotes :: "Raft \<Rightarrow> bool" where
  "countVotes r \<longleftrightarrow> length (filter snd (r_votes r)) \<ge> quorum r"

definition send_vote :: "nat \<Rightarrow> nat \<Rightarrow> Raft \<Rightarrow> NodeID \<Rightarrow> Raft" where
  "send_vote lst lastTerm r p =
     (if p \<noteq> r_id r then send r ((mkMsg MsgVote p)\<lparr>msg_index := lst, msg_logTerm := lastTerm\<rparr>) else r)"

definition becomeCandidate :: "Raft \<Rightarrow> Raft option" where
  "becomeCandidate r =
     (let r1 = persistState (r\<lparr>r_term := r_term r + 1, r_vote := r_id r\<rparr>);
          r2 = resetTimeout (r1\<lparr>r_state := Candidate, r_lead := NoNode, r_votes := [(r_id r, True)]\<rparr>)
      in if countVotes r2 then becomeLeader r2
         else do {
           lt \<leftarrow> lastIndexAndTerm r2;
           Some (foldl (send_vote (fst lt) (snd lt)) r2 (r_peers r2)) })"

definition raft_Tick :: "Raft \<Rightarrow> Raft option" where
  "raft_Tick r0 =
     (let r = r0\<lparr>r_elapsed := r_elapsed r0 + 1\<rparr>
      in if r_state r = Leader then
           (if r_elapsed r \<ge> r_heartbeatTick r then broadcastAppend (r\<lparr>r_elapsed := 0\<rparr>) else Some r)
         else if r_elapsed r \<ge> r_timeout r then becomeCandidate r
         else Some r)"

definition handleVote :: "Raft \<Rightarrow> Message \<Rightarrow> Raft option" where
  "handleVote r m =
     (let canVote = (r_vote r = msg_from m \<or> r_vote r = NoNode \<and> r_lead r = NoNode)
      in do {
        lt \<leftarrow> lastIndexAndTerm r;
        let upToDate = (msg_logTerm m > snd lt \<or> msg_logTerm m = snd lt \<and> msg_index m \<ge> fst lt);
        if \<not> canVote \<or> \<not> upToDate
        then Some (send r ((mkMsg MsgVoteResp (msg_from m))\<lparr>msg_reject := True\<rparr>))
        else Some (send ((persistState (r\<lparr>r_vote := msg_from m\<rparr>))\<lparr>r_elapsed := 0\<rparr>) (mkMsg MsgVoteResp (msg_from m))) })"

definition handleVoteResp :: "Raft \<Rightarrow> Message \<Rightarrow> Raft option" where
  "handleVoteResp r m =
     (if r_state r \<noteq> Candidate then Some r
      else let r' = r\<lparr>r_votes := AList.update (msg_from m) (\<not> msg_reject m) (r_votes r)\<rparr>
        in if countVotes r' then becomeLeader r'
           else if length (filter (\<lambda>v. \<not> snd v) (r_votes r')) \<ge> quorum r' then Some (becomeFollower r' (r_term r') NoNode)
           else Some r')"

section \<open>Followers\<close>

function firstIndexOfTerm :: "Raft \<Rightarrow> nat \<Rightarrow> nat \<Rightarrow> nat option" where
  "firstIndexOfTerm r i t =
     (if i > MemStore_FirstIndex (r_store r) then do {
        u \<leftarrow> termAt r (i - 1);
        if u = t then firstIndexOfTerm r (i - 1) t else Some i }
      else Some i)"
  by pat_completeness auto
termination
  by (relation "measure (\<lambda>(r, i, t). i)") auto

declare firstIndexOfTerm.simps [simp del]

fun append_new :: "Raft \<Rightarrow> nat \<Rightarrow> Entry list \<Rightarrow> Raft option" where
  "append_new r lst [] = Some r"
| "append_new r lst (e # es) =
     (if en_index e > lst then do { st \<leftarrow> or_panic (MemStore_Append (r_store r) (e # es)); Some (r\<lparr>r_store := st\<rparr>) }
      else do {
        t \<leftarrow> termAt r (en_index e);
        if t \<noteq> en_term e then do { st \<leftarrow> or_panic (MemStore_Append (r_store r) (e # es)); Some (r\<lparr>r_store := st\<rparr>) }
        else append_new r lst es })"

text \<open>What \<open>handleAppend\<close> and \<open>handleSnapshot\<close> begin with: a message of the current term names the leader.\<close>

definition follow_leader :: "Raft \<Rightarrow> Message \<Rightarrow> Raft" where
  "follow_leader r m =
     (let r1 = (if r_state r \<noteq> Follower then becomeFollower r (msg_term m) (msg_from m) else r)
      in r1\<lparr>r_lead := msg_from m, r_elapsed := 0\<rparr>)"

definition handleAppend :: "Raft \<Rightarrow> Message \<Rightarrow> Raft option" where
  "handleAppend r0 m =
     (let r = follow_leader r0 m; reply = (mkMsg MsgAppResp (msg_from m))\<lparr>msg_readID := msg_readID m\<rparr>
      in if msg_index m < r_commit r then Some (send r (reply\<lparr>msg_index := r_commit r\<rparr>))
         else let lst = MemStore_LastIndex (r_store r)
           in if msg_index m > lst then Some (send r (reply\<lparr>msg_reject := True, msg_conflictIndex := lst + 1\<rparr>))
              else do {
                t \<leftarrow> termAt r (msg_index m);
                if t \<noteq> msg_logTerm m then do {
                  ci \<leftarrow> firstIndexOfTerm r (msg_index m) t;
                  Some (send r (reply\<lparr>msg_reject := True, msg_conflictTerm := t, msg_conflictIndex := ci\<rparr>)) }
                else do {
                  r1 \<leftarrow> append_new r lst (msg_entries m);
                  let lastNew = msg_index m + length (msg_entries m);
                  let r2 = (if msg_commit m > r_commit r1 then r1\<lparr>r_commit := min (msg_commit m) lastNew\<rparr> else r1);
                  Some (send r2 (reply\<lparr>msg_index := lastNew\<rparr>)) } })"

text \<open>A chunk at offset 0 starts a transfer; a chunk that continues the transfer is appended to it.\<close>

definition begin_transfer :: "Raft \<Rightarrow> Message \<Rightarrow> Raft" where
  "begin_transfer r m =
     (if msg_offset m = 0
      then r\<lparr>r_snapIn := Some \<lparr>st_index = msg_index m, st_term = msg_logTerm m, st_data = [], st_offset = 0\<rparr>\<rparr>
      else r)"

definition refuse_chunk :: "Raft \<Rightarrow> Message \<Rightarrow> snapTransfer \<Rightarrow> Raft" where
  "refuse_chunk r m x =
     (let expect = (if st_index x = msg_index m then length (st_data x) else 0)
      in send r ((mkMsg MsgSnapResp (msg_from m))\<lparr>msg_index := msg_index m, msg_offset := expect,
           msg_reject := (st_index x \<noteq> msg_index m \<or> msg_offset m > expect)\<rparr>))"

definition place_chunk :: "Raft \<Rightarrow> Message \<Rightarrow> snapTransfer \<Rightarrow> Raft" where
  "place_chunk r m x =
     (let x' = x\<lparr>st_data := st_data x @ msg_data m\<rparr>; reply = mkMsg MsgSnapResp (msg_from m)
      in if \<not> msg_done m then
           send (r\<lparr>r_snapIn := Some x'\<rparr>) (reply\<lparr>msg_index := msg_index m, msg_offset := length (st_data x')\<rparr>)
         else send (r\<lparr>r_snapIn := None, r_store := MemStore_Compact (r_store r) (st_index x') (st_term x') (st_data x'),
                      r_commit := st_index x', r_restored := Some x'\<rparr>)
                (reply\<lparr>msg_index := st_index x', msg_done := True\<rparr>))"

definition receive_chunk :: "Raft \<Rightarrow> Message \<Rightarrow> Raft" where
  "receive_chunk r m =
     (case r_snapIn r of
        None \<Rightarrow> send r ((mkMsg MsgSnapResp (msg_from m))\<lparr>msg_index := msg_index m, msg_offset := 0, msg_reject := True\<rparr>)
      | Some x \<Rightarrow>
          if st_index x \<noteq> msg_index m \<or> msg_offset m \<noteq> length (st_data x) then refuse_chunk r m x
          else place_chunk r m x)"

definition handleSnapshot :: "Raft \<Rightarrow> Message \<Rightarrow> Raft" where
  "handleSnapshot r0 m =
     (let r = follow_leader r0 m
      in if msg_index m \<le> r_commit r
         then send r ((mkMsg MsgSnapResp (msg_from m))\<lparr>msg_index := r_commit r, msg_done := True\<rparr>)
         else receive_chunk (begin_transfer r m) m)"

definition TakeRestored :: "Raft \<Rightarrow> (nat \<times> bytes) option \<times> Raft" where
  "TakeRestored r =
     (case r_restored r of
        None \<Rightarrow> (None, r)
      | Some x \<Rightarrow> (Some (st_index x, st_data x), r\<lparr>r_restored := None\<rparr>))"

section \<open>Leaders\<close>

definition completeRead :: "Raft \<Rightarrow> nat \<Rightarrow> readRound \<Rightarrow> Raft" where
  "completeRead r id' round' =
     r\<lparr>r_ready := r_ready r @ [\<lparr>rdy_id = id', rdy_index = rr_index round'\<rparr>], r_reads := AList.delete id' (r_reads r)\<rparr>"

definition ackRead :: "Raft \<Rightarrow> nat \<Rightarrow> NodeID \<Rightarrow> Raft" where
  "ackRead r id' from' =
     (case map_of (r_reads r) id' of
        None \<Rightarrow> r
      | Some round' \<Rightarrow>
          let round'' = round'\<lparr>rr_acks := AList.update from' True (rr_acks round')\<rparr>;
              r' = r\<lparr>r_reads := AList.update id' round'' (r_reads r)\<rparr>
          in if length (rr_acks round'') \<ge> quorum r' then completeRead r' id' round'' else r')"

definition TakeReady :: "Raft \<Rightarrow> ReadReady list \<times> Raft" where
  "TakeReady r = (r_ready r, r\<lparr>r_ready := []\<rparr>)"

definition raft_Propose :: "Raft \<Rightarrow> bytes list \<Rightarrow> (raft_error + nat \<times> Raft) option" where
  "raft_Propose r payloads =
     (if r_state r \<noteq> Leader then Some (Inl ErrNotLeader)
      else do {
        x \<leftarrow> appendEntries r (map (\<lambda>p. \<lparr>en_index = 0, en_term = 0, en_type = EntryNormal, en_data = p\<rparr>) payloads);
        Some (Inr x) })"

definition raft_ReadIndex :: "Raft \<Rightarrow> (raft_error + nat \<times> Raft) option" where
  "raft_ReadIndex r =
     (if r_state r \<noteq> Leader then Some (Inl ErrNotLeader)
      else do {
        t \<leftarrow> termAt r (r_commit r);
        if t \<noteq> r_term r then Some (Inl ErrLeaderNotReady)
        else do {
          let id' = r_nextReadID r + 1;
          let round' = \<lparr>rr_index = r_commit r, rr_acks = [(r_id r, True)]\<rparr>;
          let r1 = r\<lparr>r_nextReadID := id', r_reads := AList.update id' round' (r_reads r)\<rparr>;
          if quorum r1 = 1 then Some (Inr (id', completeRead r1 id' round'))
          else do {
            r2 \<leftarrow> for_peers (\<lambda>r p. if p \<noteq> r_id r then sendAppend r p id' else Some r) (r_peers r1) r1;
            Some (Inr (id', r2)) } } })"

text \<open>The backward scan of \<open>lastIndexOfTerm\<close>, from index \<open>i\<close> down to the first index.\<close>

fun scan_term :: "Raft \<Rightarrow> nat \<Rightarrow> nat \<Rightarrow> nat option option" where
  "scan_term r t 0 = Some None"
| "scan_term r t (Suc i) =
     (if Suc i < MemStore_FirstIndex (r_store r) then Some None
      else do {
        u \<leftarrow> termAt r (Suc i);
        if u = t then Some (Some (Suc i)) else if u < t then Some None else scan_term r t i })"

definition lastIndexOfTerm :: "Raft \<Rightarrow> nat \<Rightarrow> nat option option" where
  "lastIndexOfTerm r t = scan_term r t (MemStore_LastIndex (r_store r))"

definition raise_progress :: "Raft \<Rightarrow> NodeID \<Rightarrow> nat \<Rightarrow> Raft" where
  "raise_progress r p i =
     (let r1 = (if i > mget (r_match r) p then r\<lparr>r_match := AList.update p i (r_match r)\<rparr> else r)
      in if i + 1 > mget (r_next r1) p then r1\<lparr>r_next := AList.update p (i + 1) (r_next r1)\<rparr> else r1)"

text \<open>The next index to probe after a rejection.\<close>

definition backtrack :: "Raft \<Rightarrow> Message \<Rightarrow> nat option" where
  "backtrack r m = do {
     n1 \<leftarrow> (if msg_conflictTerm m > 0 then do {
             l \<leftarrow> lastIndexOfTerm r (msg_conflictTerm m);
             Some (case l of Some i \<Rightarrow> i + 1 | None \<Rightarrow> msg_conflictIndex m) }
           else Some (msg_conflictIndex m));
     let n2 = (if n1 \<le> mget (r_match r) (msg_from m) then mget (r_match r) (msg_from m) + 1 else n1);
     Some (if n2 < 1 then 1 else n2) }"

definition append_accepted :: "Raft \<Rightarrow> NodeID \<Rightarrow> nat \<Rightarrow> Raft option" where
  "append_accepted r p i = do {
     c \<leftarrow> maybeCommit (raise_progress r p i);
     if fst c then broadcastAppend (snd c)
     else if mget (r_next (snd c)) p \<le> MemStore_LastIndex (r_store (snd c)) then sendAppend (snd c) p 0
     else Some (snd c) }"

definition handleAppendResp :: "Raft \<Rightarrow> Message \<Rightarrow> Raft option" where
  "handleAppendResp r0 m =
     (let p = msg_from m; r = (if msg_readID m \<noteq> 0 then ackRead r0 (msg_readID m) p else r0)
      in if map_of (r_snapOut r) p \<noteq> None then Some r
         else if msg_reject m then do {
           n \<leftarrow> backtrack r m;
           sendAppend (r\<lparr>r_next := AList.update p n (r_next r)\<rparr>) p 0 }
         else append_accepted r p (msg_index m))"

definition snapshot_accepted :: "Raft \<Rightarrow> NodeID \<Rightarrow> nat \<Rightarrow> Raft option" where
  "snapshot_accepted r p i = do {
     c \<leftarrow> maybeCommit (raise_progress (r\<lparr>r_snapOut := AList.delete p (r_snapOut r)\<rparr>) p i);
     if fst c then broadcastAppend (snd c) else sendAppend (snd c) p 0 }"

definition handleSnapshotResp :: "Raft \<Rightarrow> Message \<Rightarrow> Raft option" where
  "handleSnapshotResp r m =
     (let p = msg_from m
      in if msg_done m then snapshot_accepted r p (msg_index m)
         else case map_of (r_snapOut r) p of
                None \<Rightarrow> Some r
              | Some x \<Rightarrow>
                  if st_index x \<noteq> msg_index m then Some r
                  else let x' = (if msg_reject m then x\<lparr>st_offset := 0\<rparr>
                                 else if msg_offset m > st_offset x then x\<lparr>st_offset := msg_offset m\<rparr> else x)
                    in sendChunk (r\<lparr>r_snapOut := AList.update p x' (r_snapOut r)\<rparr>) p x')"

definition rejectStale :: "Raft \<Rightarrow> Message \<Rightarrow> Raft" where
  "rejectStale r m =
     (case msg_type m of
        MsgVote \<Rightarrow> send r ((mkMsg MsgVoteResp (msg_from m))\<lparr>msg_reject := True\<rparr>)
      | MsgApp \<Rightarrow> send r ((mkMsg MsgAppResp (msg_from m))\<lparr>msg_reject := True, msg_readID := msg_readID m\<rparr>)
      | MsgSnap \<Rightarrow> send r ((mkMsg MsgSnapResp (msg_from m))\<lparr>msg_reject := True\<rparr>)
      | _ \<Rightarrow> r)"

definition adopt_term :: "Raft \<Rightarrow> Message \<Rightarrow> Raft" where
  "adopt_term r m =
     (if msg_term m > r_term r
      then becomeFollower r (msg_term m) (if msg_type m = MsgApp \<or> msg_type m = MsgSnap then msg_from m else NoNode)
      else r)"

definition raft_Step :: "Raft \<Rightarrow> Message \<Rightarrow> Raft option" where
  "raft_Step r m =
     (if msg_term m < r_term r then Some (rejectStale r m)
      else let r' = adopt_term r m
        in case msg_type m of
             MsgVote \<Rightarrow> handleVote r' m
           | MsgVoteResp \<Rightarrow> handleVoteResp r' m
           | MsgApp \<Rightarrow> handleAppend r' m
           | MsgAppResp \<Rightarrow> if r_state r' = Leader then handleAppendResp r' m else Some r'
           | MsgSnap \<Rightarrow> Some (handleSnapshot r' m)
           | MsgSnapResp \<Rightarrow> if r_state r' = Leader then handleSnapshotResp r' m else Some r')"

section \<open>What replication leaves alone\<close>

text \<open>
  Everything but the elections: sending and receiving entries and snapshots and advancing the
  commit index touch neither the term, the vote, the role nor the durable vote, never lower the
  commit index, and grant no vote.
\<close>

definition quiet :: "Raft \<Rightarrow> Raft \<Rightarrow> bool" where
  "quiet r r' \<longleftrightarrow>
     r_id r' = r_id r \<and> r_peers r' = r_peers r \<and> r_term r' = r_term r \<and> r_vote r' = r_vote r
     \<and> r_state r' = r_state r \<and> r_votes r' = r_votes r \<and> r_lead r' = r_lead r
     \<and> ms_term (r_store r') = ms_term (r_store r) \<and> ms_vote (r_store r') = ms_vote (r_store r)
     \<and> r_commit r \<le> r_commit r'
     \<and> (\<exists>ms. r_out r' = r_out r @ ms
          \<and> (\<forall>m \<in> set ms. (msg_type m = MsgVoteResp \<longrightarrow> msg_reject m) \<and> msg_from m = r_id r \<and> msg_term m = r_term r))"

lemma quiet_refl [simp]: "quiet r r"
  by (simp add: quiet_def)

lemma quiet_trans: "quiet r s \<Longrightarrow> quiet s t \<Longrightarrow> quiet r t"
proof -
  assume rs: "quiet r s" and st: "quiet s t"
  obtain ms ns where "r_out s = r_out r @ ms" "r_out t = r_out s @ ns"
    "\<forall>m \<in> set ms. (msg_type m = MsgVoteResp \<longrightarrow> msg_reject m) \<and> msg_from m = r_id r \<and> msg_term m = r_term r"
    "\<forall>m \<in> set ns. (msg_type m = MsgVoteResp \<longrightarrow> msg_reject m) \<and> msg_from m = r_id s \<and> msg_term m = r_term s"
    using rs st unfolding quiet_def by blast
  moreover have "r_id s = r_id r" "r_term s = r_term r" using rs by (simp_all add: quiet_def)
  ultimately have "\<exists>ms. r_out t = r_out r @ ms
      \<and> (\<forall>m \<in> set ms. (msg_type m = MsgVoteResp \<longrightarrow> msg_reject m) \<and> msg_from m = r_id r \<and> msg_term m = r_term r)"
    by (intro exI [of _ "ms @ ns"]) auto
  then show ?thesis using rs st unfolding quiet_def by simp
qed

lemma quiet_send: "msg_type m = MsgVoteResp \<longrightarrow> msg_reject m \<Longrightarrow> quiet r (send r m)"
  by (auto simp: quiet_def send_def)

lemma quiet_local:
  "quiet r (r\<lparr>r_next := a\<rparr>)" "quiet r (r\<lparr>r_match := b\<rparr>)" "quiet r (r\<lparr>r_snapOut := c\<rparr>)"
  "quiet r (r\<lparr>r_reads := d\<rparr>)" "quiet r (r\<lparr>r_ready := e\<rparr>)" "quiet r (r\<lparr>r_elapsed := f\<rparr>)"
  "quiet r (r\<lparr>r_nextReadID := g\<rparr>)"
  by (simp_all add: quiet_def)

lemma quiet_sendChunk: "sendChunk r p x = Some r' \<Longrightarrow> quiet r r'"
  by (auto simp: sendChunk_def Let_def mkMsg_def intro!: quiet_send split: if_splits)

lemma quiet_sendSnapshot: "sendSnapshot r p = Some r' \<Longrightarrow> quiet r r'"
  by (auto simp: sendSnapshot_def Let_def split: prod.splits option.splits if_splits
      intro: quiet_trans [OF quiet_local(3) quiet_sendChunk] quiet_sendChunk)

lemma quiet_next_batch: "next_batch r p n = Some b \<Longrightarrow> quiet r (snd b)"
  by (auto simp: next_batch_def Let_def bind_eq_Some_conv quiet_local split: if_splits)

lemma append_msg_type [simp]: "msg_type (append_msg r p i t es n) = MsgApp"
  by (simp add: append_msg_def mkMsg_def)

lemma quiet_sendAppend:
  assumes "sendAppend r p i = Some r'"
  shows "quiet r r'"
proof (cases "mget (r_next r) p < MemStore_FirstIndex (r_store r)")
  case True
  then show ?thesis
    using assms by (auto simp: sendAppend_def Let_def bind_eq_Some_conv quiet_sendSnapshot quiet_send split: if_splits)
next
  case False
  then obtain t b where "next_batch r p (mget (r_next r) p) = Some b"
    "r' = send (snd b) (append_msg r p (mget (r_next r) p - 1) t (fst b) i)"
    using assms by (auto simp: sendAppend_def Let_def bind_eq_Some_conv)
  then show ?thesis using quiet_trans [OF quiet_next_batch quiet_send] by simp
qed

lemma quiet_for_peers:
  "(\<And>r p r'. f r p = Some r' \<Longrightarrow> quiet r r') \<Longrightarrow> for_peers f ps r = Some r' \<Longrightarrow> quiet r r'"
proof (induction ps arbitrary: r)
  case (Cons p ps)
  then obtain s where "f r p = Some s" "for_peers f ps s = Some r'" by (auto simp: bind_eq_Some_conv)
  then show ?case using Cons quiet_trans by blast
qed simp

lemma quiet_broadcastAppend: "broadcastAppend r = Some r' \<Longrightarrow> quiet r r'"
  unfolding broadcastAppend_def
  by (erule quiet_for_peers [rotated]) (auto split: if_splits intro: quiet_sendAppend)

lemma quiet_maybeCommit: "maybeCommit r = Some (b, r') \<Longrightarrow> quiet r r'"
  by (auto simp: maybeCommit_def Let_def bind_eq_Some_conv quiet_def split: if_splits)

lemma MemStore_Append_state: "MemStore_Append s es = Inr s' \<Longrightarrow> ms_term s' = ms_term s \<and> ms_vote s' = ms_vote s"
  by (auto simp: MemStore_Append_def Let_def split: list.splits if_splits)

lemma quiet_store:
  "MemStore_Append (r_store r) es = Inr st \<Longrightarrow> quiet r (r\<lparr>r_store := st\<rparr>)"
  by (auto simp: quiet_def dest: MemStore_Append_state)

lemma quiet_send_early: "quiet (fst re) (fst (send_early b lst t es re p))"
proof (cases "early_peer (fst re) b lst p")
  case True
  then show ?thesis using quiet_trans [OF quiet_local(1) quiet_send] by (simp add: send_early_def)
qed (simp add: send_early_def)

lemma quiet_foldl:
  "(\<And>x p. quiet (g x) (g (f x p))) \<Longrightarrow> quiet (g x) (g (foldl f x ps))"
  by (induction ps arbitrary: x) (auto intro: quiet_trans)

lemma or_panic_Some [simp]: "or_panic x = Some y \<longleftrightarrow> x = Inr y"
  by (cases x) auto

lemma quiet_append_local:
  assumes "append_local r early lst es = Some r'"
  shows "quiet r r'"
proof -
  obtain st r3 c where st: "MemStore_Append (r_store r) es = Inr st"
    and r3: "for_peers (\<lambda>r p. if p \<noteq> r_id r \<and> p \<notin> set early then sendAppend r p 0 else Some r) (r_peers r)
          (r\<lparr>r_store := st, r_match := AList.update (r_id r) (lst + length es) (r_match r)\<rparr>) = Some r3"
    and mc: "maybeCommit r3 = Some c" "r' = snd c"
    using assms unfolding append_local_def Let_def bind_eq_Some_conv by auto
  have 1: "quiet r (r\<lparr>r_store := st, r_match := AList.update (r_id r) (lst + length es) (r_match r)\<rparr>)"
    using quiet_trans [OF quiet_store [OF st] quiet_local(2)] by simp
  have 2: "quiet (r\<lparr>r_store := st, r_match := AList.update (r_id r) (lst + length es) (r_match r)\<rparr>) r3"
    using r3 by (rule quiet_for_peers [rotated]) (auto split: if_splits intro: quiet_sendAppend)
  have 3: "quiet r3 (snd c)" using mc(1) by (cases c) (simp add: quiet_maybeCommit)
  show ?thesis unfolding mc(2) using 1 2 3 by (blast intro: quiet_trans)
qed

lemma quiet_appendEntries: "appendEntries r es = Some a \<Longrightarrow> quiet r (snd a)"
proof -
  assume a: "appendEntries r es = Some a"
  obtain re t b where re: "quiet (fst (r, [])) (fst re)"
    and al: "append_local (fst re) (snd re) b (number_entries r es) = Some (snd a)"
    using a quiet_foldl [where g = fst, OF quiet_send_early]
    unfolding appendEntries_def Let_def bind_eq_Some_conv by fastforce
  show ?thesis using quiet_trans [OF re quiet_append_local [OF al]] by simp
qed

lemmas quiet_ops = quiet_sendChunk quiet_sendSnapshot quiet_sendAppend quiet_broadcastAppend quiet_maybeCommit
  quiet_appendEntries

lemma quiet_raise_progress [simp]: "quiet r (raise_progress r p i)"
  by (auto simp: raise_progress_def Let_def quiet_def)

lemma quiet_ackRead [simp]: "quiet r (ackRead r i p)"
  by (auto simp: ackRead_def completeRead_def Let_def quiet_def split: option.splits)

lemma quiet_snd: "maybeCommit r = Some c \<Longrightarrow> quiet r (snd c)"
  by (cases c) (simp add: quiet_maybeCommit)

lemma quiet_then:
  assumes "quiet r s" and "broadcastAppend s = Some r' \<or> sendAppend s p i = Some r' \<or> r' = s"
  shows "quiet r r'"
  using assms(2)
proof (elim disjE)
  assume "broadcastAppend s = Some r'"
  then show ?thesis using quiet_trans [OF assms(1) quiet_broadcastAppend] by simp
next
  assume "sendAppend s p i = Some r'"
  then show ?thesis using quiet_trans [OF assms(1) quiet_sendAppend] by simp
qed (use assms in simp)

lemma quiet_append_accepted:
  assumes "append_accepted r p i = Some r'"
  shows "quiet r r'"
proof -
  obtain c where c: "maybeCommit (raise_progress r p i) = Some c"
    and n: "(if fst c then broadcastAppend (snd c)
       else if mget (r_next (snd c)) p \<le> MemStore_LastIndex (r_store (snd c)) then sendAppend (snd c) p 0
       else Some (snd c)) = Some r'"
    using assms unfolding append_accepted_def bind_eq_Some_conv by blast
  have "quiet r (snd c)" using quiet_trans [OF quiet_raise_progress quiet_snd [OF c]] .
  then show ?thesis by (rule quiet_then) (use n in \<open>auto split: if_splits\<close>)
qed

lemma quiet_snapshot_accepted:
  assumes "snapshot_accepted r p i = Some r'"
  shows "quiet r r'"
proof -
  obtain c where c: "maybeCommit (raise_progress (r\<lparr>r_snapOut := AList.delete p (r_snapOut r)\<rparr>) p i) = Some c"
    and n: "(if fst c then broadcastAppend (snd c) else sendAppend (snd c) p 0) = Some r'"
    using assms unfolding snapshot_accepted_def bind_eq_Some_conv by blast
  have "quiet r (snd c)" using quiet_trans [OF quiet_local(3) quiet_trans [OF quiet_raise_progress quiet_snd [OF c]]] .
  then show ?thesis by (rule quiet_then) (use n in \<open>auto split: if_splits\<close>)
qed

lemma quiet_handleAppendResp:
  assumes "handleAppendResp r m = Some r'"
  shows "quiet r r'"
proof -
  define r1 where "r1 = (if msg_readID m \<noteq> 0 then ackRead r (msg_readID m) (msg_from m) else r)"
  have q1: "quiet r r1" by (simp add: r1_def)
  have h: "(if map_of (r_snapOut r1) (msg_from m) \<noteq> None then Some r1
     else if msg_reject m then
       backtrack r1 m \<bind> (\<lambda>n. sendAppend (r1\<lparr>r_next := AList.update (msg_from m) n (r_next r1)\<rparr>) (msg_from m) 0)
     else append_accepted r1 (msg_from m) (msg_index m)) = Some r'"
    using assms unfolding handleAppendResp_def Let_def r1_def [symmetric] .
  show ?thesis
  proof (cases "map_of (r_snapOut r1) (msg_from m) \<noteq> None")
    case True
    show ?thesis using h q1 unfolding if_P [OF True] by simp
  next
    case False
    note h' = h [unfolded if_not_P [OF False]]
    show ?thesis
    proof (cases "msg_reject m")
      case True
      obtain n where 2: "sendAppend (r1\<lparr>r_next := AList.update (msg_from m) n (r_next r1)\<rparr>) (msg_from m) 0 = Some r'"
        using h' unfolding if_P [OF True] bind_eq_Some_conv by blast
      show ?thesis by (rule quiet_trans [OF q1 quiet_trans [OF quiet_local(1) quiet_sendAppend [OF 2]]])
    next
      case False
      have 3: "append_accepted r1 (msg_from m) (msg_index m) = Some r'" using h' unfolding if_not_P [OF False] .
      show ?thesis by (rule quiet_trans [OF q1 quiet_append_accepted [OF 3]])
    qed
  qed
qed

lemma quiet_handleSnapshotResp:
  assumes "handleSnapshotResp r m = Some r'"
  shows "quiet r r'"
proof -
  show ?thesis
  proof (cases "msg_done m")
    case True
    then show ?thesis using assms by (simp add: handleSnapshotResp_def quiet_snapshot_accepted)
  next
    case False
    show ?thesis
    proof (cases "map_of (r_snapOut r) (msg_from m)")
      case None
      then show ?thesis using assms False by (simp add: handleSnapshotResp_def)
    next
      case (Some x)
      show ?thesis
      proof (cases "st_index x = msg_index m")
        case True
        obtain y where 2: "sendChunk (r\<lparr>r_snapOut := AList.update (msg_from m) y (r_snapOut r)\<rparr>) (msg_from m) y = Some r'"
          using assms False Some True unfolding handleSnapshotResp_def Let_def by simp
        show ?thesis by (rule quiet_trans [OF quiet_local(3) quiet_sendChunk [OF 2]])
      qed (use assms False Some in \<open>simp add: handleSnapshotResp_def\<close>)
    qed
  qed
qed

lemma quiet_append_new:
  assumes "append_new r lst es = Some r'"
  shows "quiet r r' \<and> r_commit r' = r_commit r"
  using assms
proof (induction es)
  case (Cons e es)
  show ?case
  proof (cases "en_index e > lst")
    case True
    then obtain st where "MemStore_Append (r_store r) (e # es) = Inr st" "r' = r\<lparr>r_store := st\<rparr>"
      using Cons.prems by (auto simp: bind_eq_Some_conv)
    then show ?thesis using quiet_store by simp
  next
    case False
    then obtain t where t: "termAt r (en_index e) = Some t"
      "(if t \<noteq> en_term e then or_panic (MemStore_Append (r_store r) (e # es)) \<bind> (\<lambda>st. Some (r\<lparr>r_store := st\<rparr>))
        else append_new r lst es) = Some r'"
      using Cons.prems by (auto simp: bind_eq_Some_conv)
    show ?thesis
    proof (cases "t \<noteq> en_term e")
      case True
      then obtain st where "MemStore_Append (r_store r) (e # es) = Inr st" "r' = r\<lparr>r_store := st\<rparr>"
        using t(2) by (auto simp: bind_eq_Some_conv)
      then show ?thesis using quiet_store by simp
    qed (use t(2) Cons.IH in simp)
  qed
qed simp

text \<open>The part of \<open>handleAppend\<close> after the leader has been recognised.\<close>

lemma quiet_reply [intro]: "quiet r s \<Longrightarrow> msg_type m \<noteq> MsgVoteResp \<Longrightarrow> quiet r (send s m)"
  by (rule quiet_trans [OF _ quiet_send]) simp_all

lemma quiet_raise_commit: "r_commit r \<le> n \<Longrightarrow> quiet r (r\<lparr>r_commit := n\<rparr>)"
  by (simp add: quiet_def)

lemma mkMsg_type [simp]: "msg_type (mkMsg t p) = t"
  by (simp add: mkMsg_def)

lemma quiet_handleAppend:
  assumes "handleAppend r0 m = Some r'"
  shows "quiet (follow_leader r0 m) r'"
proof -
  define r where "r = follow_leader r0 m"
  define lst where "lst = MemStore_LastIndex (r_store r)"
  note h = assms [unfolded handleAppend_def Let_def r_def [symmetric] lst_def [symmetric]]
  show ?thesis unfolding r_def [symmetric]
  proof (cases "msg_index m < r_commit r")
    case True
    show "quiet r r'" using h unfolding if_P [OF True] by (auto intro!: quiet_reply)
  next
    case nc: False
    note h' = h [unfolded if_not_P [OF nc]]
    show "quiet r r'"
    proof (cases "msg_index m > lst")
      case True
      show ?thesis using h' unfolding if_P [OF True] by (auto intro!: quiet_reply)
    next
      case False
      then obtain t where t: "termAt r (msg_index m) = Some t" using h' by (cases "termAt r (msg_index m)") auto
      show ?thesis
      proof (cases "t = msg_logTerm m")
        case False
        then show ?thesis using h' t \<open>\<not> msg_index m > lst\<close> by (auto simp: bind_eq_Some_conv intro!: quiet_reply)
      next
        case True
        then obtain r1 where r1: "append_new r lst (msg_entries m) = Some r1"
          "r' = send (if msg_commit m > r_commit r1 then r1\<lparr>r_commit := min (msg_commit m) (msg_index m + length (msg_entries m))\<rparr> else r1)
             ((mkMsg MsgAppResp (msg_from m))\<lparr>msg_readID := msg_readID m, msg_index := msg_index m + length (msg_entries m)\<rparr>)"
          using h' t \<open>\<not> msg_index m > lst\<close> by (auto simp: bind_eq_Some_conv)
        have q: "quiet r r1" "r_commit r1 = r_commit r" using quiet_append_new [OF r1(1)] by simp_all
        have "quiet r1 (if msg_commit m > r_commit r1 then r1\<lparr>r_commit := min (msg_commit m) (msg_index m + length (msg_entries m))\<rparr> else r1)"
          using q(2) nc by (auto intro!: quiet_raise_commit)
        from quiet_trans [OF q(1) this] show ?thesis unfolding r1(2) by (rule quiet_reply) simp
      qed
    qed
  qed
qed

lemma MemStore_Compact_state [simp]:
  "ms_term (MemStore_Compact s i t d) = ms_term s" "ms_vote (MemStore_Compact s i t d) = ms_vote s"
  by (simp_all add: MemStore_Compact_def)

lemma quiet_begin_transfer [simp]: "quiet r (begin_transfer r m)" "r_commit (begin_transfer r m) = r_commit r"
  by (simp_all add: begin_transfer_def quiet_def)

lemma quiet_place_chunk:
  assumes "r_commit r \<le> st_index x"
  shows "quiet r (place_chunk r m x)"
proof -
  have "quiet r (r\<lparr>r_snapIn := s\<rparr>)" for s by (simp add: quiet_def)
  moreover have "quiet r (r\<lparr>r_snapIn := None, r_store := MemStore_Compact (r_store r) i t c,
      r_commit := st_index x, r_restored := s\<rparr>)" for s i t c
    using assms by (simp add: quiet_def)
  ultimately show ?thesis by (simp add: place_chunk_def Let_def quiet_reply)
qed

lemma quiet_receive_chunk:
  assumes "r_commit r \<le> msg_index m"
  shows "quiet r (receive_chunk r m)"
proof (cases "r_snapIn r")
  case None
  then show ?thesis by (simp add: receive_chunk_def quiet_send)
next
  case (Some x)
  show ?thesis
  proof (cases "st_index x \<noteq> msg_index m \<or> msg_offset m \<noteq> length (st_data x)")
    case True
    have "quiet r (refuse_chunk r m x)" by (simp add: refuse_chunk_def Let_def quiet_send)
    then show ?thesis using Some True by (simp add: receive_chunk_def)
  next
    case False
    then show ?thesis using Some assms quiet_place_chunk [of r x m] by (simp add: receive_chunk_def)
  qed
qed

lemma quiet_handleSnapshot: "quiet (follow_leader r0 m) (handleSnapshot r0 m)"
proof (cases "msg_index m \<le> r_commit (follow_leader r0 m)")
  case True
  then show ?thesis by (simp add: handleSnapshot_def Let_def quiet_send)
next
  case False
  then show ?thesis
    using quiet_trans [OF quiet_begin_transfer(1) quiet_receive_chunk, of "follow_leader r0 m" m m] by (simp add: handleSnapshot_def Let_def)
qed

lemma quiet_rejectStale: "quiet r (rejectStale r m)"
  by (cases "msg_type m") (auto simp: rejectStale_def intro!: quiet_send)

lemma quiet_send_votes: "quiet r (foldl (send_vote l t) r ps)"
proof -
  have "quiet r (send_vote l t r p)" for r p by (auto simp: send_vote_def intro!: quiet_send)
  then show ?thesis by (rule quiet_foldl [where g = "\<lambda>x. x"])
qed

text \<open>Becoming leader keeps the election data apart from the role.\<close>

definition leader_state :: "Raft \<Rightarrow> Raft" where
  "leader_state r = r\<lparr>r_state := Leader, r_lead := r_id r, r_elapsed := 0,
     r_next := map (\<lambda>p. (p, MemStore_LastIndex (r_store r) + 1)) (r_peers r), r_match := [],
     r_reads := [], r_snapOut := []\<rparr>"

lemma quiet_becomeLeader: "becomeLeader r = Some r' \<Longrightarrow> quiet (leader_state r) r'"
  unfolding becomeLeader_def Let_def leader_state_def [symmetric] bind_eq_Some_conv
  by (auto dest: quiet_appendEntries)

end
