(* ===== verification/Raft_Election.thy ===== *)
theory Raft_Election
  imports Raft
begin

text \<open>
  Elections (\<open>src/raft/raft.go\<close>). The first part shows what every handler does to the term, the
  vote and the votes a candidate has collected. The second part puts the nodes into a cluster
  whose network may lose, duplicate, delay and reorder messages and whose nodes may crash at any
  point and restart from their stores, and shows that no term ever has two leaders.
\<close>

section \<open>Votes and terms in one node\<close>

definition el_inv :: "Raft \<Rightarrow> bool" where
  "el_inv r \<longleftrightarrow>
     r_id r \<noteq> NoNode \<and> ms_term (r_store r) = r_term r \<and> ms_vote (r_store r) = r_vote r
     \<and> distinct (map fst (r_votes r))
     \<and> (r_state r \<noteq> Follower \<longrightarrow> r_vote r = r_id r)
     \<and> (r_state r = Leader \<longrightarrow> countVotes r)"

text \<open>The granted vote a message carries.\<close>

definition grants :: "Message \<Rightarrow> bool" where
  "grants m \<longleftrightarrow> msg_type m = MsgVoteResp \<and> \<not> msg_reject m"

definition el_trans :: "Message option \<Rightarrow> Raft \<Rightarrow> Raft \<Rightarrow> bool" where
  "el_trans mo r r' \<longleftrightarrow>
     r_id r' = r_id r \<and> r_peers r' = r_peers r \<and> r_term r \<le> r_term r'
     \<and> (r_term r' = r_term r \<longrightarrow> r_vote r \<noteq> NoNode \<longrightarrow> r_vote r' = r_vote r)
     \<and> (\<exists>ms. r_out r' = r_out r @ ms
          \<and> (\<forall>m \<in> set ms. msg_from m = r_id r \<and> msg_term m = r_term r' \<and> (grants m \<longrightarrow> msg_to m = r_vote r' \<and> r_vote r' \<noteq> NoNode)))
     \<and> (r_state r' \<noteq> Follower \<longrightarrow> (\<forall>p. (p, True) \<in> set (r_votes r') \<longrightarrow>
          p = r_id r \<or> (r_state r \<noteq> Follower \<and> r_term r = r_term r' \<and> (p, True) \<in> set (r_votes r))
          \<or> (\<exists>m. mo = Some m \<and> grants m \<and> msg_from m = p \<and> msg_term m = r_term r')))"

lemma quiet_el_inv: "quiet r r' \<Longrightarrow> el_inv r \<Longrightarrow> el_inv r'"
  by (simp add: quiet_def el_inv_def countVotes_def quorum_def)

lemma quiet_el_trans: "quiet r r' \<Longrightarrow> el_trans mo r r'"
proof -
  assume q: "quiet r r'"
  then obtain ms where "r_out r' = r_out r @ ms"
    "\<forall>m \<in> set ms. (msg_type m = MsgVoteResp \<longrightarrow> msg_reject m) \<and> msg_from m = r_id r \<and> msg_term m = r_term r"
    unfolding quiet_def by blast
  then have "\<exists>ms. r_out r' = r_out r @ ms
      \<and> (\<forall>m \<in> set ms. msg_from m = r_id r \<and> msg_term m = r_term r' \<and> (grants m \<longrightarrow> msg_to m = r_vote r' \<and> r_vote r' \<noteq> NoNode))"
    using q by (intro exI [of _ ms]) (auto simp: grants_def quiet_def)
  then show ?thesis using q by (simp add: el_trans_def quiet_def)
qed

text \<open>A silent change of term or role followed by a handler.\<close>

lemma el_trans_after:
  assumes rs: "el_trans None r s" and o: "r_out s = r_out r" and st: "el_trans mo s t"
  shows "el_trans mo r t"
proof -
  have same: "r_id s = r_id r" "r_peers s = r_peers r" using rs by (simp_all add: el_trans_def)
  have le: "r_term r \<le> r_term s" "r_term s \<le> r_term t"
    using rs st by (simp_all add: el_trans_def)
  have vt: "r_vote t = r_vote r" if "r_term t = r_term r" "r_vote r \<noteq> NoNode"
    using rs st that le unfolding el_trans_def by (metis le_antisym)
  have vs: "p = r_id r \<or> (r_state r \<noteq> Follower \<and> r_term r = r_term t \<and> (p, True) \<in> set (r_votes r))
      \<or> (\<exists>m. mo = Some m \<and> grants m \<and> msg_from m = p \<and> msg_term m = r_term t)"
    if t: "r_state t \<noteq> Follower" "(p, True) \<in> set (r_votes t)" for p
  proof -
    from st t have "p = r_id s \<or> (r_state s \<noteq> Follower \<and> r_term s = r_term t \<and> (p, True) \<in> set (r_votes s))
        \<or> (\<exists>m. mo = Some m \<and> grants m \<and> msg_from m = p \<and> msg_term m = r_term t)"
      unfolding el_trans_def by blast
    moreover have "p = r_id r \<or> (r_state r \<noteq> Follower \<and> r_term r = r_term s \<and> (p, True) \<in> set (r_votes r))"
      if "r_state s \<noteq> Follower" "(p, True) \<in> set (r_votes s)"
      using rs that unfolding el_trans_def by blast
    ultimately show ?thesis using same by metis
  qed
  have "\<exists>ms. r_out t = r_out r @ ms
      \<and> (\<forall>m \<in> set ms. msg_from m = r_id r \<and> msg_term m = r_term t \<and> (grants m \<longrightarrow> msg_to m = r_vote t \<and> r_vote t \<noteq> NoNode))"
    using st same o unfolding el_trans_def by metis
  then show ?thesis
    unfolding el_trans_def using same st le vt vs by (simp add: el_trans_def)
qed

lemma el_trans_refl [simp]: "el_trans mo r r"
  by (rule quiet_el_trans) simp

section \<open>The handlers\<close>

lemma resetTimeout_simps [simp]:
  "r_id (resetTimeout r) = r_id r" "r_peers (resetTimeout r) = r_peers r" "r_store (resetTimeout r) = r_store r"
  "r_out (resetTimeout r) = r_out r" "r_term (resetTimeout r) = r_term r" "r_vote (resetTimeout r) = r_vote r"
  "r_state (resetTimeout r) = r_state r" "r_lead (resetTimeout r) = r_lead r" "r_commit (resetTimeout r) = r_commit r"
  "r_votes (resetTimeout r) = r_votes r"
  by (simp_all add: resetTimeout_def Let_def)

lemma persistState_simps [simp]:
  "r_id (persistState r) = r_id r" "r_peers (persistState r) = r_peers r" "r_out (persistState r) = r_out r"
  "r_term (persistState r) = r_term r" "r_vote (persistState r) = r_vote r" "r_state (persistState r) = r_state r"
  "r_lead (persistState r) = r_lead r" "r_commit (persistState r) = r_commit r" "r_votes (persistState r) = r_votes r"
  "ms_term (r_store (persistState r)) = r_term r" "ms_vote (r_store (persistState r)) = r_vote r"
  by (simp_all add: persistState_def MemStore_SetState_def)

lemma becomeFollower_simps [simp]:
  "r_id (becomeFollower r t l) = r_id r" "r_peers (becomeFollower r t l) = r_peers r"
  "r_out (becomeFollower r t l) = r_out r" "r_commit (becomeFollower r t l) = r_commit r"
  "r_state (becomeFollower r t l) = Follower" "r_votes (becomeFollower r t l) = []" "r_lead (becomeFollower r t l) = l"
  "r_term (becomeFollower r t l) = max t (r_term r)"
  "r_vote (becomeFollower r t l) = (if t > r_term r then NoNode else r_vote r)"
  by (simp_all add: becomeFollower_def Let_def)

lemma becomeFollower_store:
  "el_inv r \<Longrightarrow> ms_term (r_store (becomeFollower r t l)) = r_term (becomeFollower r t l)
     \<and> ms_vote (r_store (becomeFollower r t l)) = r_vote (becomeFollower r t l)"
  by (auto simp: becomeFollower_def Let_def el_inv_def)

lemma becomeFollower_el: "el_inv r \<Longrightarrow> el_inv (becomeFollower r t l) \<and> el_trans mo r (becomeFollower r t l)"
  using becomeFollower_store [of r t l] by (simp add: el_inv_def el_trans_def countVotes_def)

lemma becomeLeader_el:
  assumes "becomeLeader r = Some r'" and "el_inv r" and "countVotes r"
    and "r_state r = Candidate"
  shows "el_inv r' \<and> el_trans mo r r'"
proof -
  have q: "quiet (leader_state r) r'" using assms(1) by (rule quiet_becomeLeader)
  have "el_inv (leader_state r)" using assms by (simp add: el_inv_def leader_state_def countVotes_def quorum_def)
  moreover have "el_trans None r (leader_state r)" "r_out (leader_state r) = r_out r"
    using assms(4) by (simp_all add: el_trans_def leader_state_def)
  ultimately show ?thesis using quiet_el_inv [OF q] el_trans_after quiet_el_trans [OF q] by blast
qed

lemma becomeCandidate_el:
  assumes "becomeCandidate r = Some r'" and "el_inv r"
  shows "el_inv r' \<and> el_trans mo r r'"
proof -
  define r2 where "r2 = resetTimeout ((persistState (r\<lparr>r_term := r_term r + 1, r_vote := r_id r\<rparr>))
      \<lparr>r_state := Candidate, r_lead := NoNode, r_votes := [(r_id r, True)]\<rparr>)"
  have i: "el_inv r2" using assms(2) by (simp add: r2_def el_inv_def)
  have t: "el_trans None r r2" "r_out r2 = r_out r" "r_state r2 = Candidate"
    by (simp_all add: r2_def el_trans_def)
  show ?thesis
  proof (cases "countVotes r2")
    case True
    then have "becomeLeader r2 = Some r'" using assms(1) by (simp add: becomeCandidate_def Let_def r2_def)
    then have "el_inv r' \<and> el_trans mo r2 r'" using i True t(3) by (intro becomeLeader_el)
    then show ?thesis using el_trans_after [OF t(1,2)] by blast
  next
    case False
    then obtain lt where "r' = foldl (send_vote (fst lt) (snd lt)) r2 (r_peers r2)"
      using assms(1) by (auto simp: becomeCandidate_def Let_def r2_def bind_eq_Some_conv)
    then have "quiet r2 r'" using quiet_send_votes by simp
    then show ?thesis using quiet_el_inv i el_trans_after [OF t(1,2) quiet_el_trans] by blast
  qed
qed

lemma handleVote_el:
  assumes "handleVote r m = Some r'" and i: "el_inv r" and "msg_term m = r_term r" and "msg_from m \<noteq> NoNode"
  shows "el_inv r' \<and> el_trans mo r r'"
proof -
  obtain lt where h: "(if \<not> (r_vote r = msg_from m \<or> r_vote r = NoNode \<and> r_lead r = NoNode)
        \<or> \<not> (msg_logTerm m > snd lt \<or> msg_logTerm m = snd lt \<and> msg_index m \<ge> fst lt)
      then Some (send r ((mkMsg MsgVoteResp (msg_from m))\<lparr>msg_reject := True\<rparr>))
      else Some (send ((persistState (r\<lparr>r_vote := msg_from m\<rparr>))\<lparr>r_elapsed := 0\<rparr>) (mkMsg MsgVoteResp (msg_from m)))) = Some r'"
    using assms(1) unfolding handleVote_def Let_def bind_eq_Some_conv by blast
  consider (no) "r' = send r ((mkMsg MsgVoteResp (msg_from m))\<lparr>msg_reject := True\<rparr>)"
    | (yes) "r_vote r = msg_from m \<or> r_vote r = NoNode"
        "r' = send ((persistState (r\<lparr>r_vote := msg_from m\<rparr>))\<lparr>r_elapsed := 0\<rparr>) (mkMsg MsgVoteResp (msg_from m))"
    using h by (metis option.inject)
  then show ?thesis
  proof cases
    case no
    have "quiet r r'" unfolding no by (rule quiet_send) simp
    then show ?thesis using quiet_el_inv i quiet_el_trans by blast
  next
    case yes
    have "r_state r \<noteq> Follower \<Longrightarrow> msg_from m = r_id r" using i yes(1) by (auto simp: el_inv_def)
    then have "el_inv r'" using i yes(2) by (simp add: el_inv_def send_def countVotes_def quorum_def)
    moreover have "el_trans mo r r'"
      using i yes assms(4) by (auto simp: el_trans_def send_def grants_def mkMsg_def el_inv_def)
    ultimately show ?thesis by simp
  qed
qed

lemma handleVoteResp_el:
  assumes "handleVoteResp r m = Some r'" and i: "el_inv r" and "msg_type m = MsgVoteResp" and "msg_term m = r_term r"
  shows "el_inv r' \<and> el_trans (Some m) r r'"
proof (cases "r_state r = Candidate")
  case False
  then show ?thesis using assms by (simp add: handleVoteResp_def)
next
  case True
  define s where "s = r\<lparr>r_votes := AList.update (msg_from m) (\<not> msg_reject m) (r_votes r)\<rparr>"
  have si: "el_inv s" using i True by (simp add: el_inv_def s_def distinct_update)
  have new: "(p, True) \<in> set (r_votes s) \<Longrightarrow> (p, True) \<in> set (r_votes r) \<or> \<not> msg_reject m \<and> p = msg_from m" for p
  proof -
    assume "(p, True) \<in> set (r_votes s)"
    then have "map_of (r_votes s) p = Some True" using si by (simp add: el_inv_def)
    then show ?thesis by (auto simp: s_def update_conv' split: if_splits dest: map_of_SomeD)
  qed
  have st: "el_trans (Some m) r s" using new assms(3,4) True by (auto simp: el_trans_def s_def grants_def)
  have cs: "r_state s = Candidate" "r_out s = r_out r" using True by (simp_all add: s_def)
  have h: "(if countVotes s then becomeLeader s
      else if length (filter (\<lambda>v. \<not> snd v) (r_votes s)) \<ge> quorum s then Some (becomeFollower s (r_term s) NoNode)
      else Some s) = Some r'"
  proof -
    have "\<not> r_state r \<noteq> Candidate" using True by simp
    then show ?thesis using assms(1) unfolding handleVoteResp_def Let_def s_def [symmetric] by (simp only: if_False)
  qed
  have comp: "el_trans (Some m) r t" if q: "quiet s' t" and e: "r_votes s' = r_votes s" "r_id s' = r_id s" "r_peers s' = r_peers s"
      "r_term s' = r_term s" "r_vote s' = r_vote s" "r_out s' = r_out s" for s' t
  proof -
    obtain ms where "r_out t = r_out r @ ms" "\<forall>m \<in> set ms. msg_from m = r_id r \<and> msg_term m = r_term t \<and> \<not> grants m"
      using q e cs(2) unfolding quiet_def grants_def by (auto simp: s_def)
    then show ?thesis using st q e cs(1) True unfolding el_trans_def quiet_def by auto
  qed
  show ?thesis
  proof (cases "countVotes s")
    case c: True
    have bl: "becomeLeader s = Some r'" using h c by simp
    have "el_inv r'" using becomeLeader_el [OF bl si c cs(1)] by simp
    moreover have "el_trans (Some m) r r'"
      by (rule comp [OF quiet_becomeLeader [OF bl]]) (simp_all add: leader_state_def)
    ultimately show ?thesis by simp
  next
    case c: False
    show ?thesis
    proof (cases "length (filter (\<lambda>v. \<not> snd v) (r_votes s)) \<ge> quorum s")
      case True
      then have r': "r' = becomeFollower s (r_term s) NoNode" using h c by simp
      have "el_trans (Some m) r r'" unfolding r' by (simp add: el_trans_def s_def)
      then show ?thesis using becomeFollower_el [OF si] r' by simp
    next
      case False
      then show ?thesis using h c si st by simp
    qed
  qed
qed

lemma follow_leader_el:
  assumes "el_inv r"
  shows "el_inv (follow_leader r m) \<and> el_trans None r (follow_leader r m) \<and> r_out (follow_leader r m) = r_out r"
proof (cases "r_state r = Follower")
  case True
  then show ?thesis using assms by (simp add: follow_leader_def Let_def el_inv_def el_trans_def countVotes_def)
next
  case False
  from becomeFollower_el [OF assms, of "msg_term m" "msg_from m" None] False show ?thesis
    by (simp add: follow_leader_def Let_def el_inv_def el_trans_def countVotes_def)
qed

lemma adopt_term_el:
  assumes "el_inv r" and "r_term r \<le> msg_term m"
  shows "el_inv (adopt_term r m) \<and> el_trans None r (adopt_term r m) \<and> r_out (adopt_term r m) = r_out r
    \<and> r_term (adopt_term r m) = msg_term m"
  using assms becomeFollower_el [OF assms(1), of "msg_term m" "if msg_type m = MsgApp \<or> msg_type m = MsgSnap then msg_from m else NoNode" None]
  by (auto simp: adopt_term_def)

lemma quiet_el:
  assumes "quiet s r'" and "el_inv s" and "el_trans None r s" and "r_out s = r_out r"
  shows "el_inv r' \<and> el_trans mo r r'"
  using quiet_el_inv [OF assms(1,2)] el_trans_after [OF assms(3,4) quiet_el_trans [OF assms(1)]] by simp

lemma raft_Step_el:
  assumes st: "raft_Step r m = Some r'" and i: "el_inv r" and from0: "msg_from m \<noteq> NoNode"
  shows "el_inv r' \<and> el_trans (Some m) r r'"
proof (cases "msg_term m < r_term r")
  case True
  then have "quiet r r'" using st quiet_rejectStale [of r m] by (simp add: raft_Step_def)
  then show ?thesis using quiet_el_inv i quiet_el_trans by blast
next
  case False
  define s where "s = adopt_term r m"
  have s: "el_inv s" "el_trans None r s" "r_out s = r_out r" "msg_term m = r_term s"
    using adopt_term_el [OF i, of m] False by (simp_all add: s_def)
  have h: "(case msg_type m of
             MsgVote \<Rightarrow> handleVote s m
           | MsgVoteResp \<Rightarrow> handleVoteResp s m
           | MsgApp \<Rightarrow> handleAppend s m
           | MsgAppResp \<Rightarrow> if r_state s = Leader then handleAppendResp s m else Some s
           | MsgSnap \<Rightarrow> Some (handleSnapshot s m)
           | MsgSnapResp \<Rightarrow> if r_state s = Leader then handleSnapshotResp s m else Some s) = Some r'"
    using st False unfolding raft_Step_def Let_def s_def [symmetric] by (simp only: if_False)
  have fl: "el_inv (follow_leader s m)" "el_trans None r (follow_leader s m)" "r_out (follow_leader s m) = r_out r"
    using follow_leader_el [OF s(1), of m] el_trans_after [OF s(2,3)] s(3) by simp_all
  show ?thesis
  proof (cases "msg_type m")
    case MsgVote
    then have "handleVote s m = Some r'" using h by simp
    then show ?thesis using handleVote_el [OF _ s(1,4) from0] el_trans_after [OF s(2,3)] by blast
  next
    case MsgVoteResp
    then have "handleVoteResp s m = Some r'" using h by simp
    then show ?thesis using handleVoteResp_el [OF _ s(1) MsgVoteResp s(4)] el_trans_after [OF s(2,3)] by blast
  next
    case MsgApp
    then have "quiet (follow_leader s m) r'" using h quiet_handleAppend by simp
    then show ?thesis using fl by (rule quiet_el)
  next
    case MsgAppResp
    then have "quiet s r'" using h quiet_handleAppendResp by (auto split: if_splits)
    then show ?thesis using s(1-3) by (rule quiet_el)
  next
    case MsgSnap
    then have "quiet (follow_leader s m) r'" using h quiet_handleSnapshot [of s m] by simp
    then show ?thesis using fl by (rule quiet_el)
  next
    case MsgSnapResp
    then have "quiet s r'" using h quiet_handleSnapshotResp by (auto split: if_splits)
    then show ?thesis using s(1-3) by (rule quiet_el)
  qed
qed

lemma quiet_id_trans: "quiet r (r\<lparr>r_elapsed := e\<rparr>)"
  by (simp add: quiet_def)

lemma raft_Tick_el:
  assumes "raft_Tick r = Some r'" and "el_inv r"
  shows "el_inv r' \<and> el_trans mo r r'"
proof -
  define s where "s = r\<lparr>r_elapsed := r_elapsed r + 1\<rparr>"
  have s: "el_inv s" "el_trans None r s" "r_out s = r_out r"
    using quiet_el_inv [OF quiet_id_trans assms(2)] quiet_el_trans [OF quiet_id_trans] by (simp_all add: s_def)
  note h = assms(1) [unfolded raft_Tick_def Let_def, folded s_def]
  show ?thesis
  proof (cases "r_state s = Leader")
    case True
    have "quiet s r'"
    proof (cases "r_elapsed s \<ge> r_heartbeatTick s")
      case e: True
      then have "broadcastAppend (s\<lparr>r_elapsed := 0\<rparr>) = Some r'" using h True by simp
      from quiet_trans [OF quiet_id_trans quiet_broadcastAppend [OF this]] show ?thesis .
    qed (use h True in simp)
    then show ?thesis using s by (rule quiet_el)
  next
    case False
    show ?thesis
    proof (cases "r_elapsed s \<ge> r_timeout s")
      case True
      then have "becomeCandidate s = Some r'" using h False by simp
      from becomeCandidate_el [OF this s(1), of mo] show ?thesis using el_trans_after [OF s(2,3)] by blast
    next
      case nt: False
      then have "r' = s" using h False by simp
      then show ?thesis using s el_trans_after [OF s(2,3), of mo] by simp
    qed
  qed
qed

lemma raft_Propose_quiet: "raft_Propose r ps = Some (Inr (n, r')) \<Longrightarrow> quiet r r'"
  by (auto simp: raft_Propose_def bind_eq_Some_conv dest: quiet_appendEntries split: if_splits)

lemma raft_ReadIndex_quiet:
  assumes "raft_ReadIndex r = Some (Inr (n, r'))"
  shows "quiet r r'"
proof -
  define r1 where "r1 = r\<lparr>r_nextReadID := r_nextReadID r + 1, r_reads := AList.update (r_nextReadID r + 1)
      \<lparr>rr_index = r_commit r, rr_acks = [(r_id r, True)]\<rparr> (r_reads r)\<rparr>"
  have q1: "quiet r r1" by (simp add: quiet_def r1_def)
  obtain t where h: "(if t \<noteq> r_term r then Some (Inl ErrLeaderNotReady)
      else if quorum r1 = 1
        then Some (Inr (r_nextReadID r + 1, completeRead r1 (r_nextReadID r + 1) \<lparr>rr_index = r_commit r, rr_acks = [(r_id r, True)]\<rparr>))
        else for_peers (\<lambda>q p. if p \<noteq> r_id q then sendAppend q p (r_nextReadID r + 1) else Some q) (r_peers r1) r1
          \<bind> (\<lambda>r2. Some (Inr (r_nextReadID r + 1, r2)))) = Some (Inr (n, r'))"
    using assms unfolding raft_ReadIndex_def Let_def r1_def [symmetric]
    by (cases "r_state r = Leader"; cases "termAt r (r_commit r)") auto
  show ?thesis
  proof (cases "quorum r1 = 1")
    case True
    then have "r' = completeRead r1 (r_nextReadID r + 1) \<lparr>rr_index = r_commit r, rr_acks = [(r_id r, True)]\<rparr>"
      using h by (auto split: if_splits)
    then have "quiet r1 r'" by (simp add: completeRead_def quiet_def)
    then show ?thesis by (rule quiet_trans [OF q1])
  next
    case False
    then have "for_peers (\<lambda>q p. if p \<noteq> r_id q then sendAppend q p (r_nextReadID r + 1) else Some q) (r_peers r1) r1 = Some r'"
      using h by (auto simp: bind_eq_Some_conv split: if_splits)
    then have "quiet r1 r'" by (rule quiet_for_peers [rotated]) (auto split: if_splits intro: quiet_sendAppend)
    then show ?thesis by (rule quiet_trans [OF q1])
  qed
qed

end
