(* ===== verification/Raft_Cluster.thy ===== *)
theory Raft_Cluster
  imports Raft_Election
begin

text \<open>
  A cluster of raft instances (src/raft/raft.go) over an unreliable network.  The network keeps every
  message ever sent: a step delivers one of them to its addressee, so loss, delay, reordering and
  duplication are all covered.  Nodes tick, propose, serve reads, compact their log, and crash: a
  restart builds a new instance with raft.New from the store, also from the store as it is between the
  two writes of a vote handler.

  Two history variables record what the code does not keep: which node granted its vote to whom in
  which term, and who was leader of which term.
\<close>

section \<open>Quorums\<close>

text \<open>The contract of a quorum system: any two quorums of the same members share a member.\<close>

locale quorum_system =
  fixes is_quorum :: "NodeID set \<Rightarrow> NodeID set \<Rightarrow> bool"
  assumes quorum_intersect: "is_quorum P A \<Longrightarrow> is_quorum P B \<Longrightarrow> A \<inter> B \<noteq> {}"
begin

lemma functional_votes_agree:
  assumes "is_quorum P A" "is_quorum P B"
    and "\<forall>p \<in> A. (p, x) \<in> V" "\<forall>p \<in> B. (p, y) \<in> V"
    and fun_V: "\<And>p a b. (p, a) \<in> V \<Longrightarrow> (p, b) \<in> V \<Longrightarrow> a = b"
  shows "x = y"
proof -
  obtain p where "p \<in> A" "p \<in> B" using quorum_intersect [OF assms(1,2)] by blast
  then show ?thesis using assms(3,4) fun_V by blast
qed

end

definition majority :: "NodeID set \<Rightarrow> NodeID set \<Rightarrow> bool" where
  "majority P A \<longleftrightarrow> finite P \<and> A \<subseteq> P \<and> card A \<ge> card P div 2 + 1"

interpretation maj: quorum_system majority
proof (unfold_locales, rule notI)
  fix P A B assume a: "majority P A" "majority P B" and e: "A \<inter> B = {}"
  have f: "finite A" "finite B" using a by (auto simp: majority_def intro: finite_subset)
  have "card (A \<union> B) \<le> card P" using a by (auto simp: majority_def intro: card_mono)
  moreover have "card (A \<union> B) = card A + card B" using f e by (rule card_Un_disjoint)
  moreover have "card P div 2 + 1 \<le> card A" "card P div 2 + 1 \<le> card B" using a by (simp_all add: majority_def)
  ultimately show False by linarith
qed

section \<open>The cluster\<close>

record cluster =
  c_node :: "NodeID \<Rightarrow> Raft"
  c_net :: "Message set"
  c_votes :: "(NodeID \<times> nat \<times> NodeID) set"
  c_leaders :: "(nat \<times> NodeID) set"

text \<open>A node's new state; its outbox goes onto the network.\<close>

definition c_update :: "cluster \<Rightarrow> NodeID \<Rightarrow> Raft \<Rightarrow> cluster" where
  "c_update c n r' =
     \<lparr>c_node = (c_node c)(n := r'\<lparr>r_out := []\<rparr>),
      c_net = c_net c \<union> set (r_out r'),
      c_votes = (if r_vote r' = NoNode then c_votes c else insert (n, r_term r', r_vote r') (c_votes c)),
      c_leaders = (if r_state r' = Leader then insert (r_term r', n) (c_leaders c) else c_leaders c)\<rparr>"

definition c_init :: "(NodeID \<Rightarrow> Config) \<Rightarrow> (NodeID \<Rightarrow> nat list) \<Rightarrow> cluster" where
  "c_init cfg rng =
     \<lparr>c_node = (\<lambda>n. projr (raft_New (cfg n) NewMemStore (rng n))), c_net = {}, c_votes = {}, c_leaders = {}\<rparr>"

text \<open>Every member is configured under its own identifier with the same list of peers.\<close>

definition cfg_ok :: "(NodeID \<Rightarrow> Config) \<Rightarrow> NodeID list \<Rightarrow> bool" where
  "cfg_ok cfg ps \<longleftrightarrow>
     distinct ps \<and> NoNode \<notin> set ps
     \<and> (\<forall>n \<in> set ps. cfg_id (cfg n) = n \<and> cfg_peers (cfg n) = ps \<and> cfg_electionTick (cfg n) > 0 \<and> cfg_heartbeatTick (cfg n) > 0)"

inductive cstep :: "(NodeID \<Rightarrow> Config) \<Rightarrow> NodeID list \<Rightarrow> cluster \<Rightarrow> cluster \<Rightarrow> bool"
  for cfg ps where
  deliver: "n \<in> set ps \<Longrightarrow> m \<in> c_net c \<Longrightarrow> msg_to m = n \<Longrightarrow> raft_Step (c_node c n) m = Some r'
    \<Longrightarrow> cstep cfg ps c (c_update c n r')"
| tick: "n \<in> set ps \<Longrightarrow> raft_Tick (c_node c n) = Some r' \<Longrightarrow> cstep cfg ps c (c_update c n r')"
| propose: "n \<in> set ps \<Longrightarrow> raft_Propose (c_node c n) payloads = Some (Inr (i, r')) \<Longrightarrow> cstep cfg ps c (c_update c n r')"
| read: "n \<in> set ps \<Longrightarrow> raft_ReadIndex (c_node c n) = Some (Inr (i, r')) \<Longrightarrow> cstep cfg ps c (c_update c n r')"
| ready: "n \<in> set ps \<Longrightarrow> TakeReady (c_node c n) = (rs, r') \<Longrightarrow> cstep cfg ps c (c_update c n r')"
| restored: "n \<in> set ps \<Longrightarrow> TakeRestored (c_node c n) = (x, r') \<Longrightarrow> cstep cfg ps c (c_update c n r')"
| compact: "n \<in> set ps \<Longrightarrow> i \<le> r_commit (c_node c n) \<Longrightarrow> termAt (c_node c n) i = Some t
    \<Longrightarrow> cstep cfg ps c (c_update c n ((c_node c n)\<lparr>r_store := MemStore_Compact (r_store (c_node c n)) i t snap\<rparr>))"
| restart: "n \<in> set ps \<Longrightarrow> raft_New (cfg n) (r_store (c_node c n)) rng = Inr r' \<Longrightarrow> cstep cfg ps c (c_update c n r')"
| crash_in_step: "n \<in> set ps \<Longrightarrow> m \<in> c_net c \<Longrightarrow> msg_to m = n \<Longrightarrow> r_term (c_node c n) < msg_term m
    \<Longrightarrow> raft_New (cfg n) (r_store (adopt_term (c_node c n) m)) rng = Inr r' \<Longrightarrow> cstep cfg ps c (c_update c n r')"

inductive reachable :: "(NodeID \<Rightarrow> Config) \<Rightarrow> NodeID list \<Rightarrow> cluster \<Rightarrow> bool"
  for cfg ps where
  init: "reachable cfg ps (c_init cfg rng)"
| step: "reachable cfg ps c \<Longrightarrow> cstep cfg ps c c' \<Longrightarrow> reachable cfg ps c'"

section \<open>The invariant\<close>

definition node_inv :: "NodeID list \<Rightarrow> cluster \<Rightarrow> NodeID \<Rightarrow> bool" where
  "node_inv ps c n \<longleftrightarrow>
     el_inv (c_node c n) \<and> r_id (c_node c n) = n \<and> r_peers (c_node c n) = ps \<and> r_out (c_node c n) = []
     \<and> (r_vote (c_node c n) \<noteq> NoNode \<longrightarrow> (n, r_term (c_node c n), r_vote (c_node c n)) \<in> c_votes c)
     \<and> (\<forall>p. r_state (c_node c n) \<noteq> Follower \<longrightarrow> (p, True) \<in> set (r_votes (c_node c n))
          \<longrightarrow> p \<in> set ps \<and> (p, r_term (c_node c n), n) \<in> c_votes c)"

definition votes_inv :: "NodeID list \<Rightarrow> cluster \<Rightarrow> bool" where
  "votes_inv ps c \<longleftrightarrow>
     (\<forall>p t a. (p, t, a) \<in> c_votes c \<longrightarrow> p \<in> set ps \<and> a \<noteq> NoNode
        \<and> (t < r_term (c_node c p) \<or> t = r_term (c_node c p) \<and> a = r_vote (c_node c p)))
     \<and> (\<forall>p t a b. (p, t, a) \<in> c_votes c \<longrightarrow> (p, t, b) \<in> c_votes c \<longrightarrow> a = b)"

definition net_inv :: "NodeID list \<Rightarrow> cluster \<Rightarrow> bool" where
  "net_inv ps c \<longleftrightarrow>
     (\<forall>m \<in> c_net c. msg_from m \<in> set ps \<and> (grants m \<longrightarrow> (msg_from m, msg_term m, msg_to m) \<in> c_votes c))"

definition elected :: "NodeID list \<Rightarrow> cluster \<Rightarrow> nat \<Rightarrow> NodeID \<Rightarrow> bool" where
  "elected ps c t n \<longleftrightarrow> (\<exists>S. majority (set ps) S \<and> (\<forall>p \<in> S. (p, t, n) \<in> c_votes c))"

definition c_inv :: "NodeID list \<Rightarrow> cluster \<Rightarrow> bool" where
  "c_inv ps c \<longleftrightarrow>
     (\<forall>n \<in> set ps. node_inv ps c n) \<and> votes_inv ps c \<and> net_inv ps c
     \<and> (\<forall>t n. (t, n) \<in> c_leaders c \<longrightarrow> elected ps c t n)
     \<and> (\<forall>n \<in> set ps. r_state (c_node c n) = Leader \<longrightarrow> (r_term (c_node c n), n) \<in> c_leaders c)"

text \<open>One node moves: the invariant survives every transition that the election contract allows.\<close>

definition move_ok :: "NodeID list \<Rightarrow> cluster \<Rightarrow> NodeID \<Rightarrow> Raft \<Rightarrow> Message option \<Rightarrow> bool" where
  "move_ok ps c n r' mo \<longleftrightarrow>
     c_inv ps c \<and> n \<in> set ps \<and> distinct ps \<and> NoNode \<notin> set ps \<and> el_inv r' \<and> el_trans mo (c_node c n) r'
     \<and> (\<forall>m. mo = Some m \<longrightarrow> m \<in> c_net c \<and> msg_to m = n)"

lemma move_okD:
  assumes "move_ok ps c n r' mo"
  shows "c_inv ps c" "n \<in> set ps" "NoNode \<notin> set ps" "distinct ps" "el_inv r'" "el_trans mo (c_node c n) r'" "node_inv ps c n"
    "votes_inv ps c" "net_inv ps c" "r_id r' = n" "r_peers r' = ps" "r_term (c_node c n) \<le> r_term r'"
    "\<And>m. mo = Some m \<Longrightarrow> m \<in> c_net c" "\<And>m. mo = Some m \<Longrightarrow> msg_to m = n"
  using assms by (auto simp: move_ok_def c_inv_def el_trans_def node_inv_def)

lemma c_votes_mono: "c_votes c \<subseteq> c_votes (c_update c n r')"
  by (auto simp: c_update_def)

lemma c_votes_monoD [simp]: "x \<in> c_votes c \<Longrightarrow> x \<in> c_votes (c_update c n r')"
  by (rule subsetD [OF c_votes_mono])

lemma vote_keeps:
  assumes mv: "move_ok ps c n r' mo" and v: "(n, r_term r', a) \<in> c_votes c"
  shows "r_vote r' = a"
proof -
  have "r_term r' < r_term (c_node c n) \<or> r_term r' = r_term (c_node c n) \<and> a = r_vote (c_node c n)" "a \<noteq> NoNode"
    using move_okD(8) [OF mv] v unfolding votes_inv_def by blast+
  then have "r_term r' = r_term (c_node c n)" "a = r_vote (c_node c n)" "a \<noteq> NoNode"
    using move_okD(12) [OF mv] by auto
  then show ?thesis using move_okD(6) [OF mv] by (simp add: el_trans_def)
qed

lemma votes_inv_update:
  assumes mv: "move_ok ps c n r' mo"
  shows "votes_inv ps (c_update c n r')"
proof -
  let ?c = "c_update c n r'"
  have old: "p \<in> set ps \<and> a \<noteq> NoNode \<and> (t < r_term (c_node ?c p) \<or> t = r_term (c_node ?c p) \<and> a = r_vote (c_node ?c p))"
    if v: "(p, t, a) \<in> c_votes c" for p t a
  proof -
    have o: "p \<in> set ps" "a \<noteq> NoNode" "t < r_term (c_node c p) \<or> t = r_term (c_node c p) \<and> a = r_vote (c_node c p)"
      using move_okD(8) [OF mv] v unfolding votes_inv_def by blast+
    have "t < r_term r' \<or> t = r_term r' \<and> a = r_vote r'" if "p = n"
    proof (cases "t = r_term r'")
      case True
      then show ?thesis using vote_keeps [OF mv] v that by auto
    next
      case False
      have "t \<le> r_term (c_node c n)" using o(3) that by auto
      then show ?thesis using move_okD(12) [OF mv] False by simp
    qed
    then show ?thesis using o by (simp add: c_update_def)
  qed
  have fn: "a = b" if "(p, t, a) \<in> c_votes ?c" "(p, t, b) \<in> c_votes ?c" for p t a b
  proof -
    have "a = b" if "(p, t, a) \<in> c_votes c" "(p, t, b) \<in> c_votes c" for a b
      using move_okD(8) [OF mv] that unfolding votes_inv_def by blast
    moreover have "r_vote r' = a" if "(n, r_term r', a) \<in> c_votes c" for a
      using vote_keeps [OF mv that] .
    ultimately show ?thesis using that by (auto simp: c_update_def split: if_splits)
  qed
  have new: "p \<in> set ps \<and> a \<noteq> NoNode \<and> (t < r_term (c_node ?c p) \<or> t = r_term (c_node ?c p) \<and> a = r_vote (c_node ?c p))"
    if "(p, t, a) \<in> c_votes ?c" for p t a
  proof (cases "(p, t, a) \<in> c_votes c")
    case False
    then have "p = n" "t = r_term r'" "a = r_vote r'" "a \<noteq> NoNode"
      using that by (auto simp: c_update_def split: if_splits)
    then show ?thesis using move_okD(2) [OF mv] by (simp add: c_update_def)
  qed (rule old)
  show ?thesis unfolding votes_inv_def using new fn by blast
qed

lemma vote_recorded: "r_vote r' \<noteq> NoNode \<Longrightarrow> (n, r_term r', r_vote r') \<in> c_votes (c_update c n r')"
  by (simp add: c_update_def)

lemma net_inv_update:
  assumes mv: "move_ok ps c n r' mo"
  shows "net_inv ps (c_update c n r')"
proof -
  let ?c = "c_update c n r'"
  have n: "r_id (c_node c n) = n" "r_out (c_node c n) = []" using move_okD(7) [OF mv] by (simp_all add: node_inv_def)
  obtain ms where ms: "r_out r' = ms" "\<forall>m \<in> set ms. msg_from m = n \<and> msg_term m = r_term r'
      \<and> (grants m \<longrightarrow> msg_to m = r_vote r' \<and> r_vote r' \<noteq> NoNode)"
    using move_okD(6) [OF mv] unfolding el_trans_def n append_Nil by (elim conjE exE) (rule that)
  have "msg_from m \<in> set ps \<and> (grants m \<longrightarrow> (msg_from m, msg_term m, msg_to m) \<in> c_votes ?c)" if m: "m \<in> c_net ?c" for m
  proof (cases "m \<in> c_net c")
    case True
    then have "msg_from m \<in> set ps \<and> (grants m \<longrightarrow> (msg_from m, msg_term m, msg_to m) \<in> c_votes c)"
      using move_okD(9) [OF mv] by (simp add: net_inv_def)
    then show ?thesis by simp
  next
    case False
    then have "m \<in> set ms" using m ms(1) by (simp add: c_update_def)
    then have "msg_from m = n" "msg_term m = r_term r'" "grants m \<longrightarrow> msg_to m = r_vote r' \<and> r_vote r' \<noteq> NoNode"
      using ms(2) by simp_all
    then show ?thesis using move_okD(2) [OF mv] vote_recorded [of r' n c] by simp
  qed
  then show ?thesis by (simp add: net_inv_def)
qed

lemma node_inv_other:
  assumes mv: "move_ok ps c n r' mo" and "p \<in> set ps" "p \<noteq> n"
  shows "node_inv ps (c_update c n r') p"
proof -
  have "node_inv ps c p" using move_okD(1) [OF mv] assms(2) by (simp add: c_inv_def)
  moreover have "c_node (c_update c n r') p = c_node c p" using assms(3) by (simp add: c_update_def)
  ultimately show ?thesis by (simp add: node_inv_def)
qed

lemma el_trans_votes:
  assumes "el_trans mo r r'" and "r_state r' \<noteq> Follower" and "(p, True) \<in> set (r_votes r')"
  shows "p = r_id r \<or> (r_state r \<noteq> Follower \<and> r_term r = r_term r' \<and> (p, True) \<in> set (r_votes r))
    \<or> (\<exists>m. mo = Some m \<and> grants m \<and> msg_from m = p \<and> msg_term m = r_term r')"
proof -
  from assms(1) have "r_state r' \<noteq> Follower \<longrightarrow> (\<forall>p. (p, True) \<in> set (r_votes r') \<longrightarrow>
      p = r_id r \<or> (r_state r \<noteq> Follower \<and> r_term r = r_term r' \<and> (p, True) \<in> set (r_votes r))
      \<or> (\<exists>m. mo = Some m \<and> grants m \<and> msg_from m = p \<and> msg_term m = r_term r'))"
    unfolding el_trans_def by (elim conjE)
  from mp [OF spec [OF mp [OF this assms(2)]] assms(3)] show ?thesis .
qed

lemma node_votes_update:
  assumes mv: "move_ok ps c n r' mo" and "r_state r' \<noteq> Follower" and "(p, True) \<in> set (r_votes r')"
  shows "p \<in> set ps \<and> (p, r_term r', n) \<in> c_votes (c_update c n r')"
proof -
  have nid: "r_id (c_node c n) = n" using move_okD(7) [OF mv] by (simp add: node_inv_def)
  have vs: "p \<in> set ps \<and> (p, r_term (c_node c n), n) \<in> c_votes c"
    if "r_state (c_node c n) \<noteq> Follower" "(p, True) \<in> set (r_votes (c_node c n))" for p
    using move_okD(7) [OF mv] that by (simp add: node_inv_def)
  have net: "msg_from m \<in> set ps \<and> (grants m \<longrightarrow> (msg_from m, msg_term m, msg_to m) \<in> c_votes c)" if "m \<in> c_net c" for m
    using move_okD(9) [OF mv] that by (simp add: net_inv_def)
  show ?thesis
    using el_trans_votes [OF move_okD(6) [OF mv] assms(2,3)] unfolding nid
  proof (elim disjE conjE exE)
    assume "p = n"
    moreover have "r_vote r' = n" "n \<noteq> NoNode"
      using move_okD(5,10) [OF mv] assms(2) unfolding el_inv_def by simp_all
    ultimately show ?thesis using vote_recorded [of r' n c] move_okD(2) [OF mv] by simp
  next
    assume a: "r_state (c_node c n) \<noteq> Follower" "r_term (c_node c n) = r_term r'" "(p, True) \<in> set (r_votes (c_node c n))"
    show ?thesis using vs [OF a(1,3)] unfolding a(2) by simp
  next
    fix m assume a: "mo = Some m" "grants m" "msg_from m = p" "msg_term m = r_term r'"
    show ?thesis
      using net [OF move_okD(13) [OF mv a(1)]] a(2-4) move_okD(14) [OF mv a(1)] by simp
  qed
qed

lemma node_inv_self:
  assumes mv: "move_ok ps c n r' mo"
  shows "node_inv ps (c_update c n r') n"
proof -
  have "c_node (c_update c n r') n = r'\<lparr>r_out := []\<rparr>" by (simp add: c_update_def)
  moreover have "el_inv (r'\<lparr>r_out := []\<rparr>)" using move_okD(5) [OF mv] by (simp add: el_inv_def countVotes_def quorum_def)
  ultimately show ?thesis
    using move_okD(10,11) [OF mv] vote_recorded [of r' n c] node_votes_update [OF mv] by (simp add: node_inv_def)
qed

text \<open>A leader counted its votes: their senders are a majority.\<close>

lemma leader_elected:
  assumes mv: "move_ok ps c n r' mo" and l: "r_state r' = Leader"
  shows "elected ps (c_update c n r') (r_term r') n"
proof -
  define S where "S = fst ` set (filter snd (r_votes r'))"
  have d: "distinct (map fst (r_votes r'))" "countVotes r'" using move_okD(5) [OF mv] l by (auto simp: el_inv_def)
  have inS: "p \<in> set ps \<and> (p, r_term r', n) \<in> c_votes (c_update c n r')" if "p \<in> S" for p
  proof -
    have "(p, True) \<in> set (r_votes r')" using that by (auto simp: S_def)
    then show ?thesis using node_votes_update [OF mv] l by simp
  qed
  have "distinct (map fst (filter snd (r_votes r')))" using d(1) by (rule distinct_map_filter)
  then have "card S = length (filter snd (r_votes r'))"
    using distinct_card [of "map fst (filter snd (r_votes r'))"] by (simp add: S_def)
  moreover have "card (set ps) = length (r_peers r')" using move_okD(4,11) [OF mv] by (simp add: distinct_card)
  ultimately have "card S \<ge> card (set ps) div 2 + 1" using d(2) by (simp add: countVotes_def quorum_def)
  then have "majority (set ps) S" using inS by (auto simp: majority_def)
  then show ?thesis using inS unfolding elected_def by blast
qed

lemma c_inv_update:
  assumes mv: "move_ok ps c n r' mo"
  shows "c_inv ps (c_update c n r')"
proof -
  let ?c = "c_update c n r'"
  have "elected ps ?c t p" if "(t, p) \<in> c_leaders ?c" for t p
  proof (cases "(t, p) \<in> c_leaders c")
    case True
    then have "elected ps c t p" using move_okD(1) [OF mv] by (simp add: c_inv_def)
    then show ?thesis unfolding elected_def using c_votes_mono by blast
  next
    case False
    then have "r_state r' = Leader" "t = r_term r'" "p = n" using that by (auto simp: c_update_def split: if_splits)
    then show ?thesis using leader_elected [OF mv] by simp
  qed
  moreover have "(r_term (c_node ?c p), p) \<in> c_leaders ?c" if "p \<in> set ps" "r_state (c_node ?c p) = Leader" for p
    using that move_okD(1) [OF mv] by (auto simp: c_inv_def c_update_def split: if_splits)
  ultimately show ?thesis
    unfolding c_inv_def using node_inv_self [OF mv] node_inv_other [OF mv] votes_inv_update [OF mv] net_inv_update [OF mv]
    by blast
qed

section \<open>Every reachable cluster\<close>

lemma raft_New_inv:
  assumes "raft_New cfg store rng = Inr r'"
  shows "el_inv r' \<and> r_id r' = cfg_id cfg \<and> r_peers r' = cfg_peers cfg \<and> r_out r' = [] \<and> r_votes r' = []
    \<and> r_state r' = Follower \<and> r_term r' = ms_term store \<and> r_vote r' = ms_vote store"
  using assms by (auto simp: raft_New_def el_inv_def MemStore_State_def Let_def split: if_splits)

lemma cfg_okD:
  assumes "cfg_ok cfg ps"
  shows "distinct ps" "NoNode \<notin> set ps" "\<And>n. n \<in> set ps \<Longrightarrow> cfg_id (cfg n) = n" "\<And>n. n \<in> set ps \<Longrightarrow> cfg_peers (cfg n) = ps"
    "\<And>n store rng. n \<in> set ps \<Longrightarrow> \<exists>r. raft_New (cfg n) store rng = Inr r"
  using assms by (auto simp: cfg_ok_def raft_New_def Let_def MemStore_State_def)

lemma restart_el:
  assumes "raft_New cfg store rng = Inr r'" and "ms_term store = r_term s" "ms_vote store = r_vote s"
    and "r_id s = cfg_id cfg" "r_peers s = cfg_peers cfg" "r_out s = []"
  shows "el_inv r' \<and> el_trans mo s r'"
  using raft_New_inv [OF assms(1)] assms(2-) by (simp add: el_trans_def)

lemma c_init_inv:
  assumes ok: "cfg_ok cfg ps"
  shows "c_inv ps (c_init cfg rng)"
proof -
  have "node_inv ps (c_init cfg rng) n \<and> r_state (c_node (c_init cfg rng) n) = Follower" if n: "n \<in> set ps" for n
  proof -
    obtain r where r: "raft_New (cfg n) NewMemStore (rng n) = Inr r" using cfg_okD(5) [OF ok n] by blast
    then have "c_node (c_init cfg rng) n = r" by (simp add: c_init_def)
    then show ?thesis using raft_New_inv [OF r] cfg_okD(3,4) [OF ok n]
      by (simp add: node_inv_def NewMemStore_def NoNode_def)
  qed
  then show ?thesis by (simp add: c_inv_def votes_inv_def net_inv_def c_init_def)
qed

lemma c_inv_step:
  assumes ok: "cfg_ok cfg ps" and inv: "c_inv ps c" and st: "cstep cfg ps c c'"
  shows "c_inv ps c'"
proof -
  have nd: "el_inv (c_node c n)" "r_id (c_node c n) = n" "r_peers (c_node c n) = ps" "r_out (c_node c n) = []" if "n \<in> set ps" for n
    using inv that by (simp_all add: c_inv_def node_inv_def)
  have mv: "c_inv ps (c_update c n r')"
    if "n \<in> set ps" "el_inv r' \<and> el_trans mo (c_node c n) r'" "\<And>m. mo = Some m \<Longrightarrow> m \<in> c_net c \<and> msg_to m = n" for n r' mo
    by (rule c_inv_update [of _ _ _ _ mo]) (use that inv cfg_okD(1,2) [OF ok] in \<open>simp add: move_ok_def\<close>)
  have qt: "c_inv ps (c_update c n r')" if "n \<in> set ps" "quiet (c_node c n) r'" for n r'
    by (rule mv [of n r' None]) (use that nd quiet_el_inv quiet_el_trans in auto)
  have new: "c_inv ps (c_update c n r')"
    if n: "n \<in> set ps" and r: "raft_New (cfg n) (r_store s) rng = Inr r'" and s: "el_inv s" "el_trans None (c_node c n) s" "r_out s = []"
    for n s rng r'
  proof (rule mv [OF n, of r' None])
    have "r_id s = n" "r_peers s = ps" "ms_term (r_store s) = r_term s" "ms_vote (r_store s) = r_vote s"
      using s nd [OF n] by (simp_all add: el_trans_def el_inv_def)
    then have "el_inv r' \<and> el_trans None s r'" using restart_el [OF r] s(3) cfg_okD(3,4) [OF ok n] by simp
    then show "el_inv r' \<and> el_trans None (c_node c n) r'"
      using el_trans_after [OF s(2)] s(3) nd(4) [OF n] by simp
  qed simp
  from st show ?thesis
  proof cases
    case (deliver n m r')
    have "msg_from m \<noteq> NoNode" using inv deliver(3) cfg_okD(2) [OF ok] by (auto simp: c_inv_def net_inv_def)
    from raft_Step_el [OF deliver(5) nd(1) [OF deliver(2)] this] show ?thesis
      unfolding deliver(1) using deliver(3,4) by (intro mv [OF deliver(2), of r' "Some m"]) simp_all
  next
    case (tick n r')
    from raft_Tick_el [OF tick(3) nd(1) [OF tick(2)], of None] show ?thesis
      unfolding tick(1) by (intro mv [OF tick(2), of r' None]) simp_all
  next
    case (propose n payloads i r')
    from qt [OF propose(2) raft_Propose_quiet [OF propose(3)]] show ?thesis unfolding propose(1) .
  next
    case (read n i r')
    from qt [OF read(2) raft_ReadIndex_quiet [OF read(3)]] show ?thesis unfolding read(1) .
  next
    case (ready n rs r')
    then have "quiet (c_node c n) r'" by (auto simp: TakeReady_def quiet_def)
    from qt [OF ready(2) this] show ?thesis unfolding ready(1) .
  next
    case (restored n x r')
    then have "quiet (c_node c n) r'" by (auto simp: TakeRestored_def quiet_def split: option.splits)
    from qt [OF restored(2) this] show ?thesis unfolding restored(1) .
  next
    case (compact n i t snap)
    have "quiet (c_node c n) ((c_node c n)\<lparr>r_store := MemStore_Compact (r_store (c_node c n)) i t snap\<rparr>)"
      by (simp add: quiet_def MemStore_Compact_def)
    from qt [OF compact(2) this] show ?thesis unfolding compact(1) .
  next
    case (restart n rng r')
    from new [OF restart(2,3) nd(1) [OF restart(2)] el_trans_refl nd(4) [OF restart(2)]] show ?thesis unfolding restart(1) .
  next
    case (crash_in_step n m rng r')
    have a: "el_inv (adopt_term (c_node c n) m) \<and> el_trans None (c_node c n) (adopt_term (c_node c n) m)
        \<and> r_out (adopt_term (c_node c n) m) = []"
      using adopt_term_el [OF nd(1) [OF crash_in_step(2)], of m] crash_in_step(5) nd(4) [OF crash_in_step(2)] by simp
    show ?thesis unfolding crash_in_step(1) by (rule new [OF crash_in_step(2,6)]) (use a in simp_all)
  qed
qed

lemma reachable_inv:
  assumes ok: "cfg_ok cfg ps" and r: "reachable cfg ps c"
  shows "c_inv ps c"
  using r by (induction rule: reachable.induct) (auto intro: c_init_inv [OF ok] c_inv_step [OF ok])

text \<open>
  C1: Election safety.  In every execution of the cluster - whatever the network loses, delays, repeats or
  reorders, whoever crashes and restarts, even in the middle of answering a vote request - at most one node
  is ever the leader of a term, now or at any earlier moment of the execution.
\<close>

theorem raft_election_safety:
  assumes "cfg_ok cfg ps" and "reachable cfg ps c"
  shows "(\<forall>t a b. (t, a) \<in> c_leaders c \<longrightarrow> (t, b) \<in> c_leaders c \<longrightarrow> a = b)
    \<and> (\<forall>n \<in> set ps. r_state (c_node c n) = Leader \<longrightarrow> (r_term (c_node c n), n) \<in> c_leaders c)"
proof (intro conjI allI impI)
  have inv: "c_inv ps c" using assms by (rule reachable_inv)
  then show "\<forall>n \<in> set ps. r_state (c_node c n) = Leader \<longrightarrow> (r_term (c_node c n), n) \<in> c_leaders c"
    by (simp add: c_inv_def)
  fix t a b assume ab: "(t, a) \<in> c_leaders c" "(t, b) \<in> c_leaders c"
  have "elected ps c t a" "elected ps c t b" using inv ab by (simp_all add: c_inv_def)
  then obtain A B where AB: "majority (set ps) A" "\<forall>p \<in> A. (p, t, a) \<in> c_votes c"
      "majority (set ps) B" "\<forall>p \<in> B. (p, t, b) \<in> c_votes c"
    unfolding elected_def by blast
  let ?V = "{(p, x). (p, t, x) \<in> c_votes c}"
  have fn: "x = y" if "(p, x) \<in> ?V" "(p, y) \<in> ?V" for p x y
    using inv that unfolding c_inv_def votes_inv_def by blast
  show "a = b"
    by (rule maj.functional_votes_agree [OF AB(1,3), of a ?V b]) (use AB(2,4) fn in auto)
qed

text \<open>An election in a cluster of three: node 1 times out, node 2 grants its vote, node 1 leads term 1.\<close>

definition w_cfg :: "NodeID \<Rightarrow> Config" where
  "w_cfg n = \<lparr>cfg_id = n, cfg_peers = [1, 2, 3], cfg_electionTick = 1, cfg_heartbeatTick = 1,
     cfg_maxBatch = 4, cfg_maxBatchBytes = 64, cfg_snapshotChunk = 8\<rparr>"

definition w_cand :: Raft where
  "w_cand = the (raft_Tick (projr (raft_New (w_cfg 1) NewMemStore [0, 0, 0])))"

definition w_voter :: Raft where
  "w_voter = the (raft_Step (projr (raft_New (w_cfg 2) NewMemStore [0, 0, 0])) (hd (r_out w_cand)))"

definition w_leader :: Raft where
  "w_leader = the (raft_Step (w_cand\<lparr>r_out := []\<rparr>) (hd (r_out w_voter)))"

lemmas w_defs = raft_New_def w_cfg_def NewMemStore_def MemStore_State_def resetTimeout_def NoNode_def Let_def
  raft_Tick_def becomeCandidate_def persistState_def MemStore_SetState_def lastIndexAndTerm_def MemStore_Snapshot_def
  MemStore_LastIndex_def lastLocked_def termAt_def MemStore_Term_def send_vote_def send_def mkMsg_def countVotes_def quorum_def

lemmas w_step_defs = raft_Step_def adopt_term_def becomeFollower_def handleVote_def handleVoteResp_def

lemmas w_lead_defs = becomeLeader_def appendEntries_def number_entries_def fitBatch_def send_early_def early_peer_def append_msg_def
  append_local_def maybeCommit_def sendAppend_def mget_def MemStore_Append_def next_batch_def

lemma w_cand_eval: "raft_Tick (projr (raft_New (w_cfg 1) NewMemStore [0, 0, 0])) = Some w_cand"
  by (simp add: w_cand_def w_defs)
lemma w_voter_eval:
  "raft_Step (projr (raft_New (w_cfg 2) NewMemStore [0, 0, 0])) (hd (r_out w_cand)) = Some w_voter"
  by (simp add: w_voter_def w_cand_def w_defs w_step_defs)
lemma w_leader_eval: "raft_Step (w_cand\<lparr>r_out := []\<rparr>) (hd (r_out w_voter)) = Some w_leader"
  by (simp add: w_leader_def w_voter_def w_cand_def w_defs w_step_defs w_lead_defs)

lemma w_msgs: "hd (r_out w_cand) \<in> set (r_out w_cand)" "msg_to (hd (r_out w_cand)) = 2"
    "hd (r_out w_voter) \<in> set (r_out w_voter)" "msg_to (hd (r_out w_voter)) = 1"
    "r_state w_leader = Leader" "r_term w_leader = 1"
  by (simp_all add: w_leader_def w_voter_def w_cand_def w_defs w_step_defs w_lead_defs)

definition w_cluster :: cluster where
  "w_cluster = c_update (c_update (c_update (c_init w_cfg (\<lambda>_. [0, 0, 0])) 1 w_cand) 2 w_voter) 1 w_leader"

lemma w_reachable: "reachable w_cfg [1, 2, 3] w_cluster"
proof -
  let ?c0 = "c_init w_cfg (\<lambda>_. [0, 0, 0])"
  let ?c1 = "c_update ?c0 1 w_cand"
  let ?c2 = "c_update ?c1 2 w_voter"
  have "cstep w_cfg [1, 2, 3] ?c0 ?c1"
    by (rule cstep.tick) (simp_all add: c_init_def w_cand_eval [unfolded One_nat_def])
  moreover have "cstep w_cfg [1, 2, 3] ?c1 ?c2"
    by (rule cstep.deliver [where m = "hd (r_out w_cand)"])
      (use w_msgs w_voter_eval in \<open>simp_all add: c_init_def c_update_def\<close>)
  moreover have "cstep w_cfg [1, 2, 3] ?c2 (c_update ?c2 1 w_leader)"
    by (rule cstep.deliver [where m = "hd (r_out w_voter)"])
      (use w_msgs w_leader_eval in \<open>simp_all add: c_init_def c_update_def\<close>)
  ultimately show ?thesis unfolding w_cluster_def using reachable.init reachable.step by metis
qed

theorem raft_election_safety_witness:
  "cfg_ok w_cfg [1, 2, 3] \<and> reachable w_cfg [1, 2, 3] w_cluster
   \<and> r_state (c_node w_cluster 1) = Leader \<and> (1, 1) \<in> c_leaders w_cluster \<and> (1, 2) \<notin> c_leaders w_cluster"
proof -
  have ok: "cfg_ok w_cfg [1, 2, 3]" by (simp add: cfg_ok_def w_cfg_def NoNode_def)
  have l: "r_state (c_node w_cluster 1) = Leader" "(1, 1) \<in> c_leaders w_cluster"
    using w_msgs(5,6) by (simp_all add: w_cluster_def c_update_def)
  then have "(1, 2) \<notin> c_leaders w_cluster" using raft_election_safety [OF ok w_reachable] by (metis one_eq_numeral_iff semiring_norm(85))
  then show ?thesis using ok w_reachable l by blast
qed

end
