(* ===== verification/Raft_Props.thy ===== *)
theory Raft_Props
  imports Raft_Election
begin

text \<open>
  What single steps of the Raft core promise: the commit rule of the leader, the batches it sends, the
  transfer of a snapshot in chunks, and that neither the term nor the commit index of a node ever goes back.
\<close>

section \<open>The commit rule\<close>

definition acked :: "Raft \<Rightarrow> nat \<Rightarrow> nat" where
  "acked r n = length (filter (\<lambda>p. n \<le> mget (r_match r) p) (r_peers r))"

lemma desc_nth:
  fixes xs :: "nat list"
  assumes "sorted_wrt (\<ge>) xs" and "q < length xs"
  shows "m \<le> xs ! q \<longleftrightarrow> q < length (filter (\<lambda>x. m \<le> x) xs)"
  using assms
proof (induction xs arbitrary: q)
  case (Cons x xs)
  show ?case
  proof (cases "m \<le> x")
    case True
    then show ?thesis using Cons by (cases q) auto
  next
    case False
    then have "filter (\<lambda>y. m \<le> y) (x # xs) = []" using Cons.prems(1) by (auto simp: filter_empty_conv)
    moreover have "(x # xs) ! q \<le> x" using Cons.prems by (cases q) auto
    ultimately show ?thesis using False by (metis le_trans length_greater_0_conv list.size(3) not_less_zero)
  qed
qed simp

lemma commit_candidate:
  assumes "r_peers r \<noteq> []"
  shows "m \<le> rev (sort (map (mget (r_match r)) (r_peers r))) ! (quorum r - 1) \<longleftrightarrow> quorum r \<le> acked r m"
proof -
  let ?ms = "rev (sort (map (mget (r_match r)) (r_peers r)))"
  have s: "sorted_wrt (\<ge>) ?ms" by (simp add: sorted_wrt_rev)
  have q: "quorum r - 1 < length ?ms" using assms by (cases "r_peers r") (simp_all add: quorum_def)
  have "length (filter (\<lambda>x. m \<le> x) ?ms) = acked r m"
    by (simp add: acked_def rev_filter [symmetric] filter_sort filter_map o_def)
  then show ?thesis using desc_nth [OF s q, of m] by (simp add: quorum_def Suc_le_eq)
qed

text \<open>
  C7: the commit rule. \<open>maybeCommit\<close> moves the commit index only forward, only to an index that a majority of the
  peers has acknowledged, and only to an entry of the leader's own term; and it moves to the highest such
  index: whatever lies above is not on a majority. When it reports no progress the node is unchanged.
\<close>

theorem commit_needs_majority:
  assumes "maybeCommit r = Some (moved, r')" and "r_peers r \<noteq> []"
  shows "if moved
    then r_commit r < r_commit r' \<and> quorum r \<le> acked r (r_commit r') \<and> termAt r (r_commit r') = Some (r_term r)
      \<and> (\<forall>m > r_commit r'. acked r m < quorum r) \<and> r' = r\<lparr>r_commit := r_commit r'\<rparr>
    else r' = r"
proof -
  let ?n = "rev (sort (map (mget (r_match r)) (r_peers r))) ! (quorum r - 1)"
  note c = commit_candidate [OF assms(2)]
  have "moved \<Longrightarrow> r_commit r < ?n \<and> termAt r ?n = Some (r_term r) \<and> r' = r\<lparr>r_commit := ?n\<rparr>" "\<not> moved \<Longrightarrow> r' = r"
    using assms(1) by (auto simp: maybeCommit_def Let_def bind_eq_Some_conv split: if_splits)
  moreover have "quorum r \<le> acked r ?n" using c [of ?n] by simp
  moreover have "acked r m < quorum r" if "?n < m" for m using c [of m] that by simp
  ultimately show ?thesis by auto
qed

section \<open>Batches\<close>

definition batch_bytes :: "Entry list \<Rightarrow> nat" where
  "batch_bytes es = sum_list (map (\<lambda>e. length (en_data e)) es)"

lemma fit_loop_spec:
  "i \<le> fit_loop limit sz i es \<and> fit_loop limit sz i es \<le> i + length es
   \<and> (0 < i \<longrightarrow> sz \<le> limit \<longrightarrow> sz + batch_bytes (take (fit_loop limit sz i es - i) es) \<le> limit)
   \<and> (fit_loop limit sz i es < i + length es \<longrightarrow> limit < sz + batch_bytes (take (Suc (fit_loop limit sz i es - i)) es))"
proof (induction es arbitrary: sz i)
  case (Cons e es)
  let ?sz = "sz + length (en_data e)"
  show ?case
  proof (cases "?sz > limit \<and> i > 0")
    case True
    then show ?thesis by (simp add: batch_bytes_def)
  next
    case False
    note IH = Cons.IH [of "Suc i" ?sz]
    have eq: "fit_loop limit sz i (e # es) = fit_loop limit ?sz (Suc i) es" using False by (auto simp: Let_def)
    define j where "j = fit_loop limit ?sz (Suc i) es"
    have j: "Suc i \<le> j" "j \<le> Suc i + length es" using IH by (simp_all add: j_def)
    then obtain k where k: "j = Suc i + k" using le_Suc_ex by blast
    have t: "batch_bytes (take (j - i) (e # es)) = length (en_data e) + batch_bytes (take (j - Suc i) es)"
        "batch_bytes (take (Suc (j - i)) (e # es)) = length (en_data e) + batch_bytes (take (Suc (j - Suc i)) es)"
      by (simp_all add: k batch_bytes_def)
    show ?thesis unfolding eq j_def [symmetric] t using IH False j unfolding j_def [symmetric] by auto
  qed
qed (simp add: batch_bytes_def)

lemma fit_loop_over: "limit < sz \<Longrightarrow> 0 < i \<Longrightarrow> fit_loop limit sz i es = i"
  by (cases es) (simp_all add: Let_def)

text \<open>
  C35: batches keep their limits and are as large as these allow. What \<open>fitBatch\<close> keeps is the longest prefix of the
  entries with at most \<open>maxBatch\<close> entries and at most \<open>maxBatchBytes\<close> bytes of data, except that an entry that is larger than
  the limit on its own is sent alone; so a batch is never empty when there is something to send.
\<close>

theorem fit_batch_bounds:
  assumes "0 < r_maxBatch r"
  shows "\<exists>n. fitBatch r es = take n es \<and> n \<le> length es \<and> n \<le> r_maxBatch r \<and> (n = 0 \<longleftrightarrow> es = [])
    \<and> (batch_bytes (take n es) \<le> r_maxBatchBytes r \<or> n = 1 \<and> r_maxBatchBytes r < length (en_data (hd es)))
    \<and> (n = length es \<or> n = r_maxBatch r \<or> r_maxBatchBytes r < batch_bytes (take (n + 1) es))"
proof (cases es)
  case Nil
  then show ?thesis by (intro exI [of _ 0]) (simp add: fitBatch_def batch_bytes_def)
next
  case (Cons e rest)
  define k where "k = min (length es) (r_maxBatch r)"
  define n where "n = fit_loop (r_maxBatchBytes r) 0 0 (take k es)"
  have k: "0 < k" "k \<le> length es" "k \<le> r_maxBatch r" using assms Cons by (simp_all add: k_def)
  have es': "(if length es > r_maxBatch r then take (r_maxBatch r) es else es) = take k es" by (auto simp: k_def)
  let ?l = "length (en_data e)" and ?rest = "take (k - 1) rest"
  have tk: "take k es = e # ?rest" using k(1) by (cases k) (simp_all add: Cons)
  have n: "n = fit_loop (r_maxBatchBytes r) ?l 1 ?rest" by (simp add: n_def tk Let_def)
  note sp = fit_loop_spec [of 1 "r_maxBatchBytes r" ?l ?rest, folded n]
  have len: "1 + length ?rest = k" using arg_cong [OF tk, of length] k(2) by simp
  have b: "1 \<le> n" "n \<le> k" using sp len by simp_all
  have f: "fitBatch r es = take n es"
    using b(2) k(2) unfolding fitBatch_def Let_def es' by (simp add: n_def min_def)
  have bytes: "batch_bytes (take (Suc m) es) = ?l + batch_bytes (take m ?rest)" if "m < k" for m
  proof -
    have "take (Suc m) es = take (Suc m) (take k es)" using that by (simp add: min_def)
    then show ?thesis by (simp add: tk batch_bytes_def)
  qed
  have "batch_bytes (take n es) \<le> r_maxBatchBytes r \<or> n = 1 \<and> r_maxBatchBytes r < ?l"
  proof (cases "?l \<le> r_maxBatchBytes r")
    case True
    then show ?thesis using sp bytes [of "n - 1"] b by simp
  next
    case False
    then have "n = 1" using n fit_loop_over [of "r_maxBatchBytes r" ?l 1 ?rest] by simp
    then show ?thesis using False by simp
  qed
  moreover have "r_maxBatchBytes r < batch_bytes (take (n + 1) es)" if "n < k"
    using sp bytes [of n] b(1) that len by simp
  moreover have "k = length es \<or> k = r_maxBatch r" by (auto simp: k_def)
  then have "n < k \<or> n = length es \<or> n = r_maxBatch r" using b(2) by auto
  moreover have "n \<noteq> 0" "es \<noteq> []" "hd es = e" "n \<le> length es" "n \<le> r_maxBatch r" using b k Cons by simp_all
  ultimately show ?thesis using f by (intro exI [of _ n]) blast
qed

section \<open>Terms and commit indexes only rise\<close>

lemma step_target:
  "r_term (adopt_term r m) = max (r_term r) (msg_term m)" "r_commit (adopt_term r m) = r_commit r"
  "r_term (follow_leader s m) = (if r_state s = Follower then r_term s else max (msg_term m) (r_term s))"
  "r_commit (follow_leader s m) = r_commit s"
  by (simp_all add: adopt_term_def follow_leader_def Let_def)

definition no_lower :: "Raft \<Rightarrow> Raft \<Rightarrow> bool" where
  "no_lower r r' \<longleftrightarrow> r_term r' = r_term r \<and> r_commit r \<le> r_commit r'"

lemma quiet_no_lower: "quiet r r' \<Longrightarrow> no_lower r r'"
  by (simp add: no_lower_def quiet_def)

lemma handleVote_no_lower: "handleVote r m = Some r' \<Longrightarrow> no_lower r r'"
  by (auto simp: handleVote_def no_lower_def bind_eq_Some_conv send_def Let_def split: if_splits)

lemma handleVoteResp_no_lower:
  assumes "handleVoteResp r m = Some r'"
  shows "no_lower r r'"
proof -
  define s where "s = r\<lparr>r_votes := AList.update (msg_from m) (\<not> msg_reject m) (r_votes r)\<rparr>"
  have e: "r_term s = r_term r" "r_commit s = r_commit r" by (simp_all add: s_def)
  consider "r' = r" | "becomeLeader s = Some r'" | "r' = becomeFollower s (r_term s) NoNode" | "r' = s"
    using assms unfolding handleVoteResp_def Let_def s_def [symmetric] by (metis option.inject)
  then show ?thesis
  proof cases
    case 2
    from quiet_no_lower [OF quiet_becomeLeader [OF this]] show ?thesis using e by (simp add: no_lower_def leader_state_def)
  qed (simp_all add: no_lower_def e)
qed

text \<open>
  C10: time does not run backwards. Whatever message arrives, in whatever state, the node's term afterwards is the higher of its
  own and the message's, and its commit index is no lower than before.
\<close>

theorem step_never_goes_back:
  assumes "raft_Step r m = Some r'"
  shows "r_term r' = max (r_term r) (msg_term m) \<and> r_commit r \<le> r_commit r'"
proof (cases "msg_term m < r_term r")
  case True
  then have "quiet r r'" using assms quiet_rejectStale [of r m] by (simp add: raft_Step_def)
  from quiet_no_lower [OF this] show ?thesis using True by (simp add: no_lower_def)
next
  case False
  define s where "s = adopt_term r m"
  have s: "r_term s = max (r_term r) (msg_term m)" "r_commit s = r_commit r" by (simp_all add: s_def step_target)
  have f: "no_lower s (follow_leader s m)" using s False by (simp add: no_lower_def step_target)
  have h: "(case msg_type m of
             MsgVote \<Rightarrow> handleVote s m
           | MsgVoteResp \<Rightarrow> handleVoteResp s m
           | MsgApp \<Rightarrow> handleAppend s m
           | MsgAppResp \<Rightarrow> if r_state s = Leader then handleAppendResp s m else Some s
           | MsgSnap \<Rightarrow> Some (handleSnapshot s m)
           | MsgSnapResp \<Rightarrow> if r_state s = Leader then handleSnapshotResp s m else Some s) = Some r'"
    using assms False unfolding raft_Step_def Let_def s_def [symmetric] by (simp only: if_False)
  have "no_lower s r'"
  proof (cases "msg_type m")
    case MsgVote
    then show ?thesis using h handleVote_no_lower by simp
  next
    case MsgVoteResp
    then show ?thesis using h handleVoteResp_no_lower by simp
  next
    case MsgApp
    then have "no_lower (follow_leader s m) r'" using h quiet_no_lower [OF quiet_handleAppend] by simp
    then show ?thesis using f by (simp add: no_lower_def)
  next
    case MsgAppResp
    then show ?thesis using h quiet_no_lower [OF quiet_handleAppendResp] quiet_no_lower [OF quiet_refl] by (auto split: if_splits)
  next
    case MsgSnap
    then have "no_lower (follow_leader s m) r'" using h quiet_no_lower [OF quiet_handleSnapshot] by auto
    then show ?thesis using f by (simp add: no_lower_def)
  next
    case MsgSnapResp
    then show ?thesis using h quiet_no_lower [OF quiet_handleSnapshotResp] quiet_no_lower [OF quiet_refl] by (auto split: if_splits)
  qed
  then show ?thesis using s by (simp add: no_lower_def)
qed

section \<open>Snapshots in chunks\<close>

text \<open>
  A snapshot of the cluster is known by its index: \<open>snap i\<close> is its term and its data. A chunk is
  genuine when it carries a piece of the data of the snapshot it names, marked as the last one
  exactly when it reaches the end of the data.
\<close>

definition genuine :: "(nat \<Rightarrow> nat \<times> bytes) \<Rightarrow> Message \<Rightarrow> bool" where
  "genuine snap m \<longleftrightarrow>
     (let (t, data) = snap (msg_index m)
      in msg_logTerm m = t \<and> msg_offset m \<le> length data
         \<and> msg_data m = take (length (msg_data m)) (drop (msg_offset m) data)
         \<and> msg_done m = (msg_offset m + length (msg_data m) = length data))"

definition partial_copy :: "(nat \<Rightarrow> nat \<times> bytes) \<Rightarrow> snapTransfer \<Rightarrow> bool" where
  "partial_copy snap x \<longleftrightarrow>
     st_term x = fst (snap (st_index x)) \<and> st_data x = take (length (st_data x)) (snd (snap (st_index x)))"

definition full_copy :: "(nat \<Rightarrow> nat \<times> bytes) \<Rightarrow> snapTransfer \<Rightarrow> bool" where
  "full_copy snap x \<longleftrightarrow> snap (st_index x) = (st_term x, st_data x)"

definition receiving :: "(nat \<Rightarrow> nat \<times> bytes) \<Rightarrow> Raft \<Rightarrow> bool" where
  "receiving snap r \<longleftrightarrow> pred_option (partial_copy snap) (r_snapIn r) \<and> pred_option (full_copy snap) (r_restored r)"

lemma sent_chunk_genuine:
  assumes "sendChunk r p x = Some r'" and "snap (st_index x) = (st_term x, st_data x)"
  shows "\<exists>m. r_out r' = r_out r @ [m] \<and> msg_type m = MsgSnap \<and> msg_to m = p \<and> genuine snap m"
  using assms by (auto simp: sendChunk_def genuine_def send_def mkMsg_def Let_def min_def split: if_splits)

lemma append_chunk:
  assumes "genuine snap m" and "partial_copy snap x" and "st_index x = msg_index m" and "msg_offset m = length (st_data x)"
  shows "partial_copy snap (x\<lparr>st_data := st_data x @ msg_data m\<rparr>)"
    and "msg_done m \<Longrightarrow> full_copy snap (x\<lparr>st_data := st_data x @ msg_data m\<rparr>)"
proof -
  obtain t data where sn: "snap (msg_index m) = (t, data)" by (rule prod.exhaust)
  let ?n = "length (st_data x)" and ?k = "length (msg_data m)"
  have x: "st_term x = t" "st_data x = take ?n data" using assms(2,3) sn by (simp_all add: partial_copy_def)
  have m: "msg_data m = take ?k (drop ?n data)" "msg_done m = (?n + ?k = length data)"
    using assms(1,4) sn by (simp_all add: genuine_def)
  have ap: "st_data x @ msg_data m = take (?n + ?k) data" using x(2) m(1) by (metis take_add)
  then show "partial_copy snap (x\<lparr>st_data := st_data x @ msg_data m\<rparr>)"
    using x(1) assms(3) sn by (simp add: partial_copy_def min_def)
  show "full_copy snap (x\<lparr>st_data := st_data x @ msg_data m\<rparr>)" if "msg_done m"
    using x(1) assms(3) sn that m(2) by (simp add: full_copy_def ap)
qed

lemma follow_leader_snap [simp]:
  "r_snapIn (follow_leader r m) = r_snapIn r" "r_restored (follow_leader r m) = r_restored r"
  "r_id (follow_leader r m) = r_id r" "r_store (send r m') = r_store r"
  "r_snapIn (send r m') = r_snapIn r" "r_restored (send r m') = r_restored r" "r_id (send r m') = r_id r"
  "r_commit (send r m') = r_commit r"
  by (simp_all add: follow_leader_def becomeFollower_def persistState_def resetTimeout_def Let_def send_def)

lemma handleSnapshot_receiving:
  assumes "genuine snap m" and "receiving snap r0"
  shows "receiving snap (handleSnapshot r0 m)"
proof -
  define r where "r = begin_transfer (follow_leader r0 m) m"
  have r: "receiving snap r"
    using assms by (auto simp: r_def begin_transfer_def receiving_def partial_copy_def genuine_def split: prod.splits)
  have "receiving snap (receive_chunk r m)"
  proof (cases "r_snapIn r")
    case None
    then show ?thesis using r by (simp add: receive_chunk_def receiving_def)
  next
    case (Some x)
    then have x: "partial_copy snap x" using r by (simp add: receiving_def)
    show ?thesis
    proof (cases "st_index x \<noteq> msg_index m \<or> msg_offset m \<noteq> length (st_data x)")
      case True
      then show ?thesis using r Some by (simp add: receive_chunk_def refuse_chunk_def Let_def receiving_def)
    next
      case False
      then show ?thesis using r Some append_chunk [OF assms(1) x]
        by (auto simp: receive_chunk_def place_chunk_def Let_def receiving_def)
    qed
  qed
  then show ?thesis using assms(2) by (auto simp: handleSnapshot_def Let_def r_def [symmetric] receiving_def)
qed

lemma foldl_receiving:
  "\<forall>m \<in> set ms. genuine snap m \<Longrightarrow> receiving snap r \<Longrightarrow> receiving snap (foldl handleSnapshot r ms)"
  by (induction ms arbitrary: r) (simp_all add: handleSnapshot_receiving)

text \<open>
  C8: no damaged snapshot is installed. A follower receives chunks that leaders sent with \<open>sendChunk\<close>, of any number of snapshots, with any chunk
  sizes and offsets, in any order, repeated and with gaps. Whatever it restores in the end is complete: the
  term and all the data of the snapshot with that index.
\<close>

theorem restored_snapshot_complete:
  assumes "\<forall>m \<in> set ms. \<exists>l p x l'. sendChunk l p x = Some l' \<and> r_out l' = r_out l @ [m] \<and> snap (st_index x) = (st_term x, st_data x)"
    and "r_snapIn r = None" and "r_restored r = None"
    and "r_restored (foldl handleSnapshot r ms) = Some x"
  shows "snap (st_index x) = (st_term x, st_data x)"
proof -
  have "\<forall>m \<in> set ms. genuine snap m" using assms(1) sent_chunk_genuine by fastforce
  moreover have "receiving snap r" using assms(2,3) by (simp add: receiving_def)
  ultimately have "receiving snap (foldl handleSnapshot r ms)" by (rule foldl_receiving)
  then show ?thesis using assms(4) by (simp add: receiving_def full_copy_def)
qed

text \<open>
  The exchange of a transfer: the follower handles the leader's last message, the leader handles the
  follower's last reply, until the follower has restored a snapshot. The first argument bounds the
  number of chunks.
\<close>

fun transfer :: "nat \<Rightarrow> Raft \<Rightarrow> Raft \<Rightarrow> Raft option" where
  "transfer 0 l f = None"
| "transfer (Suc n) l f =
     (let f' = handleSnapshot f (last (r_out l))
      in if r_restored f' \<noteq> None then Some f'
         else do { l' \<leftarrow> handleSnapshotResp l (last (r_out f')); transfer n l' f' })"

definition sent_at :: "Raft \<Rightarrow> NodeID \<Rightarrow> snapTransfer \<Rightarrow> bool" where
  "sent_at l p x \<longleftrightarrow> map_of (r_snapOut l) p = Some x \<and> st_offset x \<le> length (st_data x)
     \<and> (\<exists>m. last (r_out l) = m \<and> msg_index m = st_index x \<and> msg_logTerm m = st_term x \<and> msg_offset m = st_offset x
          \<and> msg_data m = take (r_snapChunk l) (drop (st_offset x) (st_data x))
          \<and> msg_done m = (length (st_data x) \<le> st_offset x + r_snapChunk l))"

definition got :: "Raft \<Rightarrow> NodeID \<Rightarrow> snapTransfer \<Rightarrow> bool" where
  "got f p x \<longleftrightarrow> r_id f = p \<and> r_commit f < st_index x \<and> r_restored f = None \<and> ms_snapIdx (r_store f) < st_index x
     \<and> (st_offset x = 0 \<or> r_snapIn f = Some (x\<lparr>st_offset := 0, st_data := take (st_offset x) (st_data x)\<rparr>))"

lemma sendChunk_sent_at:
  assumes "sendChunk l p x = Some l'" and "map_of (r_snapOut l) p = Some x"
  shows "sent_at l' p x \<and> r_snapChunk l' = r_snapChunk l"
proof -
  let ?stop = "min (st_offset x + r_snapChunk l) (length (st_data x))"
  have ok: "st_offset x \<le> length (st_data x)"
    and l': "l' = send l ((mkMsg MsgSnap p)\<lparr>msg_index := st_index x, msg_logTerm := st_term x,
        msg_data := take (?stop - st_offset x) (drop (st_offset x) (st_data x)),
        msg_offset := st_offset x, msg_done := (?stop = length (st_data x))\<rparr>)"
    using assms(1) by (simp_all add: sendChunk_def Let_def split: if_splits)
  have "take (?stop - st_offset x) (drop (st_offset x) (st_data x)) = take (r_snapChunk l) (drop (st_offset x) (st_data x))"
    by (simp add: min_def)
  then show ?thesis using assms(2) ok unfolding l' by (simp add: sent_at_def send_def min_def) arith
qed

lemma handleSnapshot_places:
  assumes "sent_at l p x" and "got f p x"
  shows "\<exists>g. r_id g = p \<and> r_commit g = r_commit f \<and> r_restored g = None \<and> ms_snapIdx (r_store g) = ms_snapIdx (r_store f)
    \<and> handleSnapshot f (last (r_out l))
        = place_chunk g (last (r_out l)) (x\<lparr>st_offset := 0, st_data := take (st_offset x) (st_data x)\<rparr>)"
proof -
  define m where "m = last (r_out l)"
  define g where "g = begin_transfer (follow_leader f m) m"
  have m: "msg_index m = st_index x" "msg_logTerm m = st_term x" "msg_offset m = st_offset x" and off: "st_offset x \<le> length (st_data x)"
    using assms(1) by (simp_all add: sent_at_def m_def)
  have store: "ms_snapIdx (r_store g) = ms_snapIdx (r_store f)"
    by (simp add: g_def begin_transfer_def follow_leader_def becomeFollower_def Let_def persistState_def MemStore_SetState_def)
  have g: "r_id g = p" "r_commit g = r_commit f" "r_restored g = None"
    using assms(2) by (simp_all add: g_def begin_transfer_def got_def step_target)
  have inn: "r_snapIn g = Some (x\<lparr>st_offset := 0, st_data := take (st_offset x) (st_data x)\<rparr>)"
    using assms(2) m by (auto simp: g_def begin_transfer_def got_def)
  have "handleSnapshot f m = receive_chunk g m"
    using assms(2) m by (simp add: handleSnapshot_def Let_def g_def got_def step_target)
  also have "\<dots> = place_chunk g m (x\<lparr>st_offset := 0, st_data := take (st_offset x) (st_data x)\<rparr>)"
    using inn m off by (simp add: receive_chunk_def)
  finally show ?thesis using g store unfolding m_def by (intro exI [of _ g]) simp
qed

lemma last_chunk_restores:
  assumes "sent_at l p x" and "got f p x" and "length (st_data x) \<le> st_offset x + r_snapChunk l"
  shows "r_restored (handleSnapshot f (last (r_out l))) = Some (x\<lparr>st_offset := 0\<rparr>)
    \<and> r_commit (handleSnapshot f (last (r_out l))) = st_index x
    \<and> MemStore_Snapshot (r_store (handleSnapshot f (last (r_out l)))) = (st_index x, st_term x, st_data x)"
proof -
  define m where "m = last (r_out l)"
  obtain g where g: "ms_snapIdx (r_store g) = ms_snapIdx (r_store f)"
      "handleSnapshot f m = place_chunk g m (x\<lparr>st_offset := 0, st_data := take (st_offset x) (st_data x)\<rparr>)"
    using handleSnapshot_places [OF assms(1,2)] unfolding m_def by blast
  have m: "msg_data m = take (r_snapChunk l) (drop (st_offset x) (st_data x))" "msg_done m"
    using assms(1,3) by (simp_all add: sent_at_def m_def)
  have all: "take (st_offset x) (st_data x) @ msg_data m = st_data x" using m(1) assms(3) by simp
  have "\<not> st_index x \<le> ms_snapIdx (r_store g)" using assms(2) g(1) by (simp add: got_def)
  then show ?thesis unfolding m_def [symmetric] g(2)
    using m(2) all by (simp add: place_chunk_def Let_def MemStore_Compact_def MemStore_Snapshot_def)
qed

lemma middle_chunk_advances:
  assumes "sent_at l p x" and "got f p x" and "st_offset x + r_snapChunk l < length (st_data x)" and "0 < r_snapChunk l"
  defines "f' \<equiv> handleSnapshot f (last (r_out l))" and "x' \<equiv> x\<lparr>st_offset := st_offset x + r_snapChunk l\<rparr>"
  shows "got f' p x' \<and> (\<exists>l'. handleSnapshotResp l (last (r_out f')) = Some l' \<and> sent_at l' p x' \<and> r_snapChunk l' = r_snapChunk l)"
proof -
  define m where "m = last (r_out l)"
  obtain g where g: "r_id g = p" "r_commit g = r_commit f" "r_restored g = None" "ms_snapIdx (r_store g) = ms_snapIdx (r_store f)"
      "f' = place_chunk g m (x\<lparr>st_offset := 0, st_data := take (st_offset x) (st_data x)\<rparr>)"
    using handleSnapshot_places [OF assms(1,2)] unfolding m_def f'_def by blast
  have m: "msg_data m = take (r_snapChunk l) (drop (st_offset x) (st_data x))" "\<not> msg_done m" "msg_index m = st_index x"
    using assms(1,3) by (simp_all add: sent_at_def m_def)
  have all: "take (st_offset x) (st_data x) @ msg_data m = take (st_offset x + r_snapChunk l) (st_data x)" using m(1) by (simp add: take_add)
  have f': "f' = send (g\<lparr>r_snapIn := Some (x\<lparr>st_offset := 0, st_data := take (st_offset x + r_snapChunk l) (st_data x)\<rparr>)\<rparr>)
      ((mkMsg MsgSnapResp (msg_from m))\<lparr>msg_index := st_index x, msg_offset := st_offset x + r_snapChunk l\<rparr>)"
    using g(5) m assms(3) all by (auto simp: place_chunk_def Let_def min_def)
  have got': "got f' p x'" using assms(2) g(1-4) by (simp add: f' got_def x'_def)
  let ?l = "l\<lparr>r_snapOut := AList.update p x' (r_snapOut l)\<rparr>"
  have "handleSnapshotResp l (last (r_out f')) = sendChunk ?l p x'"
    using assms(1,4) g(1) by (simp add: f' send_def mkMsg_def handleSnapshotResp_def Let_def sent_at_def x'_def)
  moreover have "\<not> min (st_offset x' + r_snapChunk ?l) (length (st_data x')) < st_offset x'" using assms(3) by (simp add: x'_def)
  then obtain l' where "sendChunk ?l p x' = Some l'" by (simp add: sendChunk_def Let_def)
  ultimately show ?thesis using got' sendChunk_sent_at [of ?l p x' l'] by (simp add: update_conv')
qed

lemma transfer_completes:
  assumes "sent_at l p x" and "got f p x" and "0 < r_snapChunk l" and "length (st_data x) \<le> st_offset x + Suc n * r_snapChunk l"
  shows "\<exists>f'. transfer (Suc n) l f = Some f' \<and> r_restored f' = Some (x\<lparr>st_offset := 0\<rparr>) \<and> r_commit f' = st_index x
    \<and> MemStore_Snapshot (r_store f') = (st_index x, st_term x, st_data x)"
  using assms
proof (induction n arbitrary: l f x)
  case 0
  then show ?case using last_chunk_restores [of l p x f] by (simp add: Let_def)
next
  case (Suc n)
  let ?f = "handleSnapshot f (last (r_out l))" and ?x = "x\<lparr>st_offset := st_offset x + r_snapChunk l\<rparr>"
  show ?case
  proof (cases "length (st_data x) \<le> st_offset x + r_snapChunk l")
    case True
    then show ?thesis using last_chunk_restores [of l p x f] Suc.prems by (simp add: Let_def)
  next
    case False
    then obtain l' where l': "got ?f p ?x" "handleSnapshotResp l (last (r_out ?f)) = Some l'" "sent_at l' p ?x" "r_snapChunk l' = r_snapChunk l"
      using middle_chunk_advances [of l p x f] Suc.prems by auto
    have "transfer (Suc (Suc n)) l f = transfer (Suc n) l' ?f" using l'(1,2) by (simp add: Let_def got_def del: transfer.simps(2) add: transfer.simps(2) [of "Suc n"])
    moreover have "length (st_data ?x) \<le> st_offset ?x + Suc n * r_snapChunk l'" using Suc.prems(4) l'(4) by simp
    ultimately show ?thesis using Suc.IH [OF l'(3,1)] Suc.prems(3) l'(4) by simp
  qed
qed

text \<open>
  C9: transfers complete. When a leader starts to send its snapshot to a follower that lacks it, and their messages
  arrive, then one chunk for every \<open>snapChunk\<close> bytes is enough: no handler panics, and the follower ends with the leader's
  snapshot restored and stored, and committed up to its index.
\<close>

theorem snapshot_transfer_completes:
  assumes "MemStore_Snapshot (r_store l) = (i, t, data)" and "map_of (r_snapOut l) (r_id f) = None" and "0 < r_snapChunk l"
    and "r_restored f = None" and "r_commit f < i" and "ms_snapIdx (r_store f) \<le> r_commit f"
  shows "\<exists>l' f'. sendSnapshot l (r_id f) = Some l' \<and> transfer (length data div r_snapChunk l + 1) l' f = Some f'
    \<and> r_restored f' = Some \<lparr>st_index = i, st_term = t, st_data = data, st_offset = 0\<rparr> \<and> r_commit f' = i
    \<and> MemStore_Snapshot (r_store f') = (i, t, data)"
proof -
  define x where "x = \<lparr>st_index = i, st_term = t, st_data = data, st_offset = 0\<rparr>"
  let ?l = "l\<lparr>r_snapOut := AList.update (r_id f) x (r_snapOut l)\<rparr>"
  have s: "sendSnapshot l (r_id f) = sendChunk ?l (r_id f) x" using assms(1,2) by (simp add: sendSnapshot_def x_def Let_def)
  moreover obtain l' where l': "sendChunk ?l (r_id f) x = Some l'" by (simp add: sendChunk_def Let_def x_def)
  ultimately have sa: "sent_at l' (r_id f) x" "r_snapChunk l' = r_snapChunk l"
    using sendChunk_sent_at [OF l'] by (simp_all add: update_conv')
  have gt: "got f (r_id f) x" using assms(4-6) by (simp add: got_def x_def)
  have "length data \<le> Suc (length data div r_snapChunk l) * r_snapChunk l"
    using dividend_less_div_times [OF assms(3), of "length data"] by simp
  then show ?thesis using transfer_completes [OF sa(1) gt, of "length data div r_snapChunk l"] sa(2) assms(3) s l'
    by (simp add: x_def del: transfer.simps)
qed

section \<open>Examples\<close>

definition w_node :: "NodeID \<Rightarrow> MemStore \<Rightarrow> Raft" where
  "w_node n store = projr (raft_New \<lparr>cfg_id = n, cfg_peers = [1, 2, 3], cfg_electionTick = 10, cfg_heartbeatTick = 1,
     cfg_maxBatch = 2, cfg_maxBatchBytes = 3, cfg_snapshotChunk = 2\<rparr> store [])"

definition w_snap :: MemStore where
  "w_snap = MemStore_Compact NewMemStore 4 2 [1, 2, 3, 4, 5]"

definition w_leader3 :: Raft where
  "w_leader3 = (w_node 1 (NewMemStore\<lparr>ms_term := 1, ms_entries := [\<lparr>en_index = 1, en_term = 1, en_type = EntryNormal, en_data = []\<rparr>, \<lparr>en_index = 2, en_term = 1, en_type = EntryNormal, en_data = []\<rparr>]\<rparr>))
     \<lparr>r_match := [(1, 2), (2, 1)]\<rparr>"

lemmas node_defs = NoNode_def w_node_def w_snap_def w_leader3_def raft_New_def NewMemStore_def MemStore_State_def resetTimeout_def Let_def
  MemStore_Snapshot_def MemStore_Compact_def lastLocked_def

theorem commit_needs_majority_witness:
  "r_peers w_leader3 \<noteq> [] \<and> maybeCommit w_leader3 = Some (True, w_leader3\<lparr>r_commit := 1\<rparr>)
   \<and> quorum w_leader3 \<le> acked w_leader3 1"
proof -
  have m: "maybeCommit w_leader3 = Some (True, w_leader3\<lparr>r_commit := 1\<rparr>)" by code_simp
  have p: "r_peers w_leader3 \<noteq> []" by code_simp
  show ?thesis using commit_needs_majority [OF m p] m p by simp
qed

theorem fit_batch_bounds_witness:
  "let es = [\<lparr>en_index = 1, en_term = 1, en_type = EntryNormal, en_data = [0, 0, 0, 0, 0]\<rparr>, \<lparr>en_index = 2, en_term = 1, en_type = EntryNormal, en_data = []\<rparr>]
   in 0 < r_maxBatch (w_node 1 NewMemStore) \<and> fitBatch (w_node 1 NewMemStore) es = take 1 es
      \<and> (\<exists>n. fitBatch (w_node 1 NewMemStore) es = take n es \<and> n \<le> r_maxBatch (w_node 1 NewMemStore) \<and> n \<noteq> 0)"
proof -
  let ?es = "[\<lparr>en_index = 1, en_term = 1, en_type = EntryNormal, en_data = [0, 0, 0, 0, 0]\<rparr>, \<lparr>en_index = 2, en_term = 1, en_type = EntryNormal, en_data = []\<rparr>]"
  have m: "0 < r_maxBatch (w_node 1 NewMemStore)" by code_simp
  have "fitBatch (w_node 1 NewMemStore) ?es = take 1 ?es" by code_simp
  then show ?thesis using m fit_batch_bounds [OF m, of ?es] by (auto simp: Let_def)
qed

definition w_step :: "Raft option" where
  "w_step = raft_Step (w_node 2 NewMemStore) ((mkMsg MsgVote 2)\<lparr>msg_from := 1, msg_term := 5\<rparr>)"

theorem step_never_goes_back_witness: "w_step = Some (the w_step) \<and> r_term (the w_step) = 5"
proof -
  have s: "w_step = Some (the w_step)" by code_simp
  have "r_term (the w_step) = max (r_term (w_node 2 NewMemStore)) 5"
    using step_never_goes_back [OF s [unfolded w_step_def]] by (simp add: w_step_def)
  moreover have "r_term (w_node 2 NewMemStore) = 0" by code_simp
  ultimately show ?thesis using s by simp
qed

definition w_xfer :: "nat \<Rightarrow> snapTransfer" where
  "w_xfer off = \<lparr>st_index = 4, st_term = 2, st_data = [1, 2, 3], st_offset = off\<rparr>"

definition w_chunk :: "nat \<Rightarrow> Message" where
  "w_chunk off = last (r_out (the (sendChunk (w_node 1 NewMemStore) 2 (w_xfer off))))"

lemma w_chunk_sent:
  "\<exists>l p x l'. sendChunk l p x = Some l' \<and> r_out l' = r_out l @ [w_chunk off] \<and> (2, [1, 2, 3]) = (st_term x, st_data x)" if "off \<le> 3" for off
proof -
  have "\<exists>l'. sendChunk (w_node 1 NewMemStore) 2 (w_xfer off) = Some l' \<and> r_out l' = r_out (w_node 1 NewMemStore) @ [w_chunk off]"
    using that by (simp add: w_chunk_def sendChunk_def w_xfer_def Let_def send_def)
  then show ?thesis by (metis snapTransfer.select_convs(2,3) w_xfer_def)
qed

theorem restored_snapshot_complete_witness:
  "r_restored (foldl handleSnapshot (w_node 2 NewMemStore) [w_chunk 2, w_chunk 0, w_chunk 0, w_chunk 2]) = Some (w_xfer 0)
   \<and> (2, [1, 2, 3]) = (st_term (w_xfer 0), st_data (w_xfer 0))"
proof -
  have r: "r_restored (foldl handleSnapshot (w_node 2 NewMemStore) [w_chunk 2, w_chunk 0, w_chunk 0, w_chunk 2]) = Some (w_xfer 0)" by code_simp
  have n: "r_snapIn (w_node 2 NewMemStore) = None" "r_restored (w_node 2 NewMemStore) = None" by code_simp+
  have "\<forall>m \<in> set [w_chunk 2, w_chunk 0, w_chunk 0, w_chunk 2].
      \<exists>l p x l'. sendChunk l p x = Some l' \<and> r_out l' = r_out l @ [m] \<and> (2, [1, 2, 3]) = (st_term x, st_data x)"
    using w_chunk_sent [of 0] w_chunk_sent [of 2] by auto
  from restored_snapshot_complete [where snap = "\<lambda>_. (2, [1, 2, 3])", OF this n r] show ?thesis using r by blast
qed

theorem snapshot_transfer_completes_witness:
  "\<exists>l' f'. sendSnapshot (w_node 1 w_snap) (r_id (w_node 2 NewMemStore)) = Some l'
    \<and> transfer (length [1, 2, 3, 4, 5 :: 8 word] div r_snapChunk (w_node 1 w_snap) + 1) l' (w_node 2 NewMemStore) = Some f'
    \<and> r_restored f' = Some \<lparr>st_index = 4, st_term = 2, st_data = [1, 2, 3, 4, 5], st_offset = 0\<rparr> \<and> r_commit f' = 4
    \<and> MemStore_Snapshot (r_store f') = (4, 2, [1, 2, 3, 4, 5])"
  by (rule snapshot_transfer_completes) (simp_all add: node_defs)

end
