(* ===== verification/Diskstore.thy ===== *)
theory Diskstore
  imports Wal Raft_Log "HOL-Library.AList"
begin

text \<open>
  The Raft log on disk (\<open>src/raft/diskstore.go\<close>): records in the segments of a write-ahead log, a snapshot in a
  file of its own, and the live tail of the log in memory. The record of the state is in two parts, what
  \<open>replay\<close> rebuilds and the open files. A write takes the answers of the operating system as an argument and
  returns the store as it is left, together with the error or the value. The names of snapshot files are \<open>snap-<index>\<close>
  with or without \<open>.tmp\<close>; the directory is taken to hold no other file of that prefix.
\<close>

section \<open>Records\<close>

definition recEntry :: u8 where "recEntry = 1"

definition recState :: u8 where "recState = 2"

definition recSnapshot :: u8 where "recSnapshot = 3"

definition type_byte :: "EntryType \<Rightarrow> u8" where
  "type_byte t = (case t of EntryNormal \<Rightarrow> 0 | EntryNoop \<Rightarrow> 1 | EntryOther b \<Rightarrow> b)"

definition byte_type :: "u8 \<Rightarrow> EntryType" where
  "byte_type b = (if b = 0 then EntryNormal else if b = 1 then EntryNoop else EntryOther b)"

definition le64 :: "nat \<Rightarrow> bytes" where
  "le64 n = put_le64 (word_of_nat n)"

definition entry_record :: "Entry \<Rightarrow> bytes" where
  "entry_record e = recEntry # le64 (en_index e) @ le64 (en_term e) @ type_byte (en_type e) # en_data e"

definition state_record :: "nat \<Rightarrow> NodeID \<Rightarrow> bytes" where
  "state_record term vote = recState # le64 term @ le64 vote"

definition snapshot_record :: "nat \<Rightarrow> nat \<Rightarrow> bytes" where
  "snapshot_record i term = recSnapshot # le64 i @ le64 term"

section \<open>State\<close>

record diskLog =
  ds_term :: nat
  ds_vote :: NodeID
  ds_base :: nat
  ds_entries :: "Entry list"
  ds_snapIdx :: nat
  ds_snapTerm :: nat
  ds_segMax :: "(nat \<times> nat) list"

datatype snap_name = SnapFile nat | SnapTmp nat

record DiskStore = diskLog +
  ds_wal :: WAL
  ds_files :: "(snap_name \<times> bytes) list"

datatype replay_error = ErrEmpty | ErrShort | ErrFollows nat nat | ErrBelowStart nat nat | ErrUnknownRecord | ReplayPanic

definition ds_lastLocked :: "'a diskLog_scheme \<Rightarrow> nat" where
  "ds_lastLocked s = ds_base s + length (ds_entries s)"

definition dropThrough :: "nat \<Rightarrow> 'a diskLog_scheme \<Rightarrow> 'a diskLog_scheme" where
  "dropThrough i s =
     s\<lparr>ds_entries := (if i \<ge> ds_lastLocked s then [] else drop (i - ds_base s) (ds_entries s)), ds_base := i\<rparr>"

text \<open>
  One entry record. Where the index lies at or below the start of the log in memory the source
  slices with a negative bound.
\<close>

definition replay_entry :: "nat \<Rightarrow> Entry \<Rightarrow> 'a diskLog_scheme \<Rightarrow> replay_error + 'a diskLog_scheme" where
  "replay_entry seg e s =
     (if en_index e \<le> ds_snapIdx s then Inr s
      else let lst = ds_lastLocked s;
               add = (\<lambda>s. Inr (s\<lparr>ds_entries := ds_entries s @ [e], ds_segMax := AList.update seg (en_index e) (ds_segMax s)\<rparr>))
        in if ds_entries s = [] \<and> en_index e > lst + 1 then add (s\<lparr>ds_base := en_index e - 1\<rparr>)
           else if en_index e \<le> lst then
             if en_index e \<le> ds_base s then Inl ReplayPanic
             else add (s\<lparr>ds_entries := take (en_index e - ds_base s - 1) (ds_entries s)\<rparr>)
           else if en_index e > lst + 1 then Inl (ErrFollows (en_index e) lst)
           else add s)"

definition ds_replay :: "nat \<Rightarrow> bytes \<Rightarrow> 'a diskLog_scheme \<Rightarrow> replay_error + 'a diskLog_scheme" where
  "ds_replay seg p s =
     (case p of
        [] \<Rightarrow> Inl ErrEmpty
      | k # r \<Rightarrow>
          if k = recEntry then
            if length p < 18 then Inl ErrShort
            else replay_entry seg \<lparr>en_index = unat (get_le64 r), en_term = unat (get_le64 (drop 8 r)),
                   en_type = byte_type (r ! 16), en_data = drop 17 r\<rparr> s
          else if k = recState then
            if length p < 17 then Inl ErrShort
            else Inr (s\<lparr>ds_term := unat (get_le64 r), ds_vote := unat (get_le64 (drop 8 r))\<rparr>)
          else if k = recSnapshot then
            if length p < 17 then Inl ErrShort
            else let i = unat (get_le64 r); term = unat (get_le64 (drop 8 r))
              in if i < ds_base s then Inl (ErrBelowStart i (ds_base s + 1))
                 else Inr ((dropThrough i s)\<lparr>ds_snapIdx := i, ds_snapTerm := term\<rparr>)
          else Inl ErrUnknownRecord)"

definition emptyLog :: diskLog where
  "emptyLog = \<lparr>ds_term = 0, ds_vote = 0, ds_base = 0, ds_entries = [], ds_snapIdx = 0, ds_snapTerm = 0, ds_segMax = []\<rparr>"

section \<open>Opening\<close>

text \<open>Everything but the file of the current snapshot goes; that one has to be there. Reading the directory or removing a file may fail.\<close>

definition removeStaleSnapshots :: "nat \<Rightarrow> (snap_name \<times> bytes) list \<Rightarrow> bool \<Rightarrow> store_error + (snap_name \<times> bytes) list" where
  "removeStaleSnapshots snapIdx files remove =
     (let files' = filter (\<lambda>(n, d). n = SnapFile snapIdx) files
      in if \<not> remove then Inl ErrStoreIO
         else if snapIdx > 0 \<and> map_of files' (SnapFile snapIdx) = None then Inl ErrStoreIO else Inr files')"

datatype disk_error = ErrMkdir | ErrOpenLog "replay_error open_error" | ErrLogStarts nat nat | ErrSnapshots

definition OpenDiskStore :: "wal_dir \<Rightarrow> (snap_name \<times> bytes) list \<Rightarrow> bool \<Rightarrow> os_answer \<Rightarrow> bool \<Rightarrow> disk_error + DiskStore" where
  "OpenDiskStore dir files mkdir os remove =
     (if \<not> mkdir then Inl ErrMkdir else case OpenWAL dir 16777216 True ds_replay emptyLog os of
        Inl e \<Rightarrow> Inl (ErrOpenLog e)
      | Inr (s, w) \<Rightarrow>
          if ds_base s \<noteq> ds_snapIdx s then Inl (ErrLogStarts (ds_base s + 1) (ds_snapIdx s))
          else case removeStaleSnapshots (ds_snapIdx s) files remove of
                 Inl _ \<Rightarrow> Inl ErrSnapshots
               | Inr files' \<Rightarrow> Inr (diskLog.extend s \<lparr>ds_wal = w, ds_files = files'\<rparr>))"

section \<open>Reading\<close>

text \<open>Terms and entries of the live tail; \<open>Entries\<close> with \<open>hi < lo\<close> panics in \<open>make\<close>, as in \<open>MemStore\<close>.\<close>

definition DiskStore_Entries :: "DiskStore \<Rightarrow> nat \<Rightarrow> nat \<Rightarrow> store_error + Entry list" where
  "DiskStore_Entries s lo hi =
     (if lo \<le> ds_snapIdx s then Inl ErrCompacted
      else if hi > ds_lastLocked s + 1 then Inl (ErrBeyondLast hi)
      else if hi < lo then Inl StorePanic
      else Inr (take (hi - lo) (drop (lo - ds_base s - 1) (ds_entries s))))"

definition DiskStore_Term :: "DiskStore \<Rightarrow> nat \<Rightarrow> store_error + nat" where
  "DiskStore_Term s i =
     (if i = ds_snapIdx s then Inr (ds_snapTerm s)
      else if i < ds_snapIdx s then Inl ErrCompacted
      else if i > ds_lastLocked s then Inl (ErrBeyondLast i)
      else Inr (en_term (ds_entries s ! (i - ds_base s - 1))))"

definition DiskStore_FirstIndex :: "DiskStore \<Rightarrow> nat" where
  "DiskStore_FirstIndex s = ds_snapIdx s + 1"

definition DiskStore_LastIndex :: "DiskStore \<Rightarrow> nat" where
  "DiskStore_LastIndex s = ds_lastLocked s"

definition DiskStore_State :: "DiskStore \<Rightarrow> nat \<times> NodeID" where
  "DiskStore_State s = (ds_term s, ds_vote s)"

definition DiskStore_Snapshot :: "DiskStore \<Rightarrow> store_error + (nat \<times> nat \<times> bytes)" where
  "DiskStore_Snapshot s =
     (if ds_snapIdx s = 0 then Inr (0, 0, [])
      else case map_of (ds_files s) (SnapFile (ds_snapIdx s)) of
             None \<Rightarrow> Inl ErrStoreIO
           | Some d \<Rightarrow> Inr (ds_snapIdx s, ds_snapTerm s, d))"

section \<open>Writing\<close>

definition DiskStore_Append :: "DiskStore \<Rightarrow> Entry list \<Rightarrow> os_answer \<Rightarrow> (store_error + unit) \<times> DiskStore" where
  "DiskStore_Append s es os =
     (case es of
        [] \<Rightarrow> (Inr (), s)
      | e # _ \<Rightarrow>
          let first = en_index e; lst = ds_lastLocked s
          in if first > lst + 1 \<or> first \<le> ds_snapIdx s then (Inl (ErrAppendAt first), s)
             else case WAL_Append (ds_wal s) (map entry_record es) os of
                    (Inl _, w) \<Rightarrow> (Inl ErrStoreIO, s\<lparr>ds_wal := w\<rparr>)
                  | (Inr seg, w) \<Rightarrow>
                      (Inr (), s\<lparr>ds_wal := w, ds_entries := take (first - ds_base s - 1) (ds_entries s) @ es,
                                 ds_segMax := AList.update seg (en_index (last es)) (ds_segMax s)\<rparr>))"

definition writeState :: "DiskStore \<Rightarrow> nat \<Rightarrow> NodeID \<Rightarrow> os_answer \<Rightarrow> (store_error + unit) \<times> DiskStore" where
  "writeState s term vote os =
     (case WAL_Append (ds_wal s) [state_record term vote] os of
        (Inl _, w) \<Rightarrow> (Inl ErrStoreIO, s\<lparr>ds_wal := w\<rparr>)
      | (Inr _, w) \<Rightarrow> (Inr (), s\<lparr>ds_wal := w\<rparr>))"

definition DiskStore_SetState :: "DiskStore \<Rightarrow> nat \<Rightarrow> NodeID \<Rightarrow> os_answer \<Rightarrow> (store_error + unit) \<times> DiskStore" where
  "DiskStore_SetState s term vote os =
     (case writeState s term vote os of
        (Inl e, s') \<Rightarrow> (Inl e, s')
      | (Inr _, s') \<Rightarrow> (Inr (), s'\<lparr>ds_term := term, ds_vote := vote\<rparr>))"

text \<open>Where \<open>writeFileAtomic\<close> can fail, and what each failure leaves behind.\<close>

datatype file_step = FsOpen | FsWrite nat | FsSync | FsClose | FsRename | FsDir

definition writeFileAtomic ::
  "(snap_name \<times> bytes) list \<Rightarrow> nat \<Rightarrow> bytes \<Rightarrow> file_step option \<Rightarrow> bool \<times> (snap_name \<times> bytes) list" where
  "writeFileAtomic files i data fail =
     (let tmp = AList.update (SnapTmp i) data files;
          renamed = AList.update (SnapFile i) data (AList.delete (SnapTmp i) files)
      in case fail of
           None \<Rightarrow> (True, renamed)
         | Some FsOpen \<Rightarrow> (False, files)
         | Some (FsWrite n) \<Rightarrow> (False, AList.update (SnapTmp i) (take n data) files)
         | Some FsDir \<Rightarrow> (False, renamed)
         | Some _ \<Rightarrow> (False, tmp))"

text \<open>The oldest segment before the current one that still holds an entry above the snapshot.\<close>

definition keep_segment :: "nat \<Rightarrow> (nat \<times> nat) list \<Rightarrow> nat \<Rightarrow> nat" where
  "keep_segment cur segMax snapIdx =
     (let keep = fold (\<lambda>(seg, m) keep. if seg \<ge> cur then keep
                 else if m > snapIdx then if keep = 0 \<or> seg < keep then seg else keep
                 else keep) segMax 0
      in if keep = 0 then cur else keep)"

definition deleteObsoleteSegments :: "DiskStore \<Rightarrow> os_answer \<Rightarrow> (store_error + unit) \<times> DiskStore" where
  "deleteObsoleteSegments s os =
     (let keep = keep_segment (w_seg (ds_wal s)) (ds_segMax s) (ds_snapIdx s)
      in case WAL_DeleteBefore (ds_wal s) keep os of
           (e, w) \<Rightarrow> (case e of None \<Rightarrow> Inr () | Some _ \<Rightarrow> Inl ErrStoreIO,
             s\<lparr>ds_segMax := filter (\<lambda>(seg, m). \<not> seg < keep) (ds_segMax s), ds_wal := w\<rparr>))"

text \<open>
  What the operating system answers to a \<open>Compact\<close>. The error of the last call, the removal of old segments, is
  returned when the snapshot is already in place.
\<close>

record compact_answer =
  ca_file :: "file_step option"
  ca_rotate :: os_answer
  ca_append :: os_answer
  ca_remove :: bool
  ca_delete :: os_answer

definition ca_ok :: compact_answer where
  "ca_ok = \<lparr>ca_file = None, ca_rotate = os_ok, ca_append = os_ok, ca_remove = True, ca_delete = os_ok\<rparr>"

definition DiskStore_Compact :: "DiskStore \<Rightarrow> nat \<Rightarrow> nat \<Rightarrow> bytes \<Rightarrow> compact_answer \<Rightarrow> (store_error + unit) \<times> DiskStore" where
  "DiskStore_Compact s i term snapshot os =
     (if i \<le> ds_snapIdx s then (Inr (), s)
      else case writeFileAtomic (ds_files s) i snapshot (ca_file os) of
             (False, fs) \<Rightarrow> (Inl ErrStoreIO, s\<lparr>ds_files := fs\<rparr>)
           | (True, fs) \<Rightarrow>
               (case WAL_Rotate (ds_wal s) (ca_rotate os) of
                  (Inl _, w) \<Rightarrow> (Inl ErrStoreIO, s\<lparr>ds_files := fs, ds_wal := w\<rparr>)
                | (Inr _, w) \<Rightarrow>
                    (case WAL_Append w [snapshot_record i term, state_record (ds_term s) (ds_vote s)] (ca_append os) of
                       (Inl _, w') \<Rightarrow> (Inl ErrStoreIO, s\<lparr>ds_files := fs, ds_wal := w'\<rparr>)
                     | (Inr _, w') \<Rightarrow>
                         let old = ds_snapIdx s;
                             s' = (dropThrough i (s\<lparr>ds_files := fs, ds_wal := w'\<rparr>))\<lparr>ds_snapIdx := i, ds_snapTerm := term\<rparr>;
                             fs' = (if old > 0 \<and> ca_remove os then AList.delete (SnapFile old) fs else fs)
                         in deleteObsoleteSegments (s'\<lparr>ds_files := fs'\<rparr>) (ca_delete os))))"

definition DiskStore_Close :: "DiskStore \<Rightarrow> os_answer \<Rightarrow> wal_error option \<times> DiskStore" where
  "DiskStore_Close s os = (case WAL_Close (ds_wal s) os of (e, w) \<Rightarrow> (e, s\<lparr>ds_wal := w\<rparr>))"

section \<open>The store interface\<close>

definition ds_abs :: "DiskStore \<Rightarrow> MemStore" where
  "ds_abs s = \<lparr>ms_term = ds_term s, ms_vote = ds_vote s, ms_entries = ds_entries s, ms_snapIdx = ds_snapIdx s,
     ms_snapTerm = ds_snapTerm s,
     ms_snap = (if ds_snapIdx s = 0 then [] else the (map_of (ds_files s) (SnapFile (ds_snapIdx s))))\<rparr>"

definition ds_ok :: "DiskStore \<Rightarrow> bool" where
  "ds_ok s \<longleftrightarrow> ds_base s = ds_snapIdx s
     \<and> (if ds_snapIdx s = 0 then ds_snapTerm s = 0 else map_of (ds_files s) (SnapFile (ds_snapIdx s)) \<noteq> None)"

text \<open>The result of a write as the interface has it.\<close>

fun written :: "(store_error + unit) \<times> 's \<Rightarrow> store_error + 's" where
  "written (Inl e, s) = Inl e"
| "written (Inr u, s) = Inr s"

lemma written_Inr: "written r = Inr s \<longleftrightarrow> r = (Inr (), s)"
  by (cases r rule: written.cases) auto

definition keeps :: "DiskStore \<Rightarrow> (store_error + unit) \<times> DiskStore \<Rightarrow> bool" where
  "keeps s r \<longleftrightarrow> ds_ok (snd r) \<and> (\<forall>e. fst r = Inl e \<longrightarrow> ds_abs (snd r) = ds_abs s)"

lemma ds_wal_irrelevant [simp]: "ds_ok (s\<lparr>ds_wal := w\<rparr>) = ds_ok s" "ds_abs (s\<lparr>ds_wal := w\<rparr>) = ds_abs s"
  by (simp_all add: ds_ok_def ds_abs_def)

lemma Append_refines:
  assumes "ds_ok s"
  shows "keeps s (DiskStore_Append s es os)"
    and "DiskStore_Append s es os = (Inr (), s') \<Longrightarrow> MemStore_Append (ds_abs s) es = Inr (ds_abs s')"
  using assms
  by (auto simp: keeps_def DiskStore_Append_def MemStore_Append_def Let_def ds_lastLocked_def lastLocked_def
      split: list.splits sum.splits prod.splits if_splits) (auto simp: ds_ok_def ds_abs_def)

lemma SetState_refines:
  assumes "ds_ok s"
  shows "keeps s (DiskStore_SetState s t v os)"
    and "DiskStore_SetState s t v os = (Inr (), s') \<Longrightarrow> ds_abs s' = MemStore_SetState (ds_abs s) t v"
  using assms
  by (auto simp: keeps_def DiskStore_SetState_def writeState_def MemStore_SetState_def ds_ok_def ds_abs_def
      split: sum.splits prod.splits)

lemma writeFileAtomic_other:
  assumes "writeFileAtomic files i d fail = (r, files')"
  shows "j \<noteq> i \<Longrightarrow> map_of files' (SnapFile j) = map_of files (SnapFile j)"
    and "r \<Longrightarrow> map_of files' (SnapFile i) = Some d"
  using assms by (auto simp: writeFileAtomic_def Let_def update_conv' delete_conv' split: option.splits file_step.splits)

lemma deleteObsolete_outcome:
  "\<exists>m w. snd (deleteObsoleteSegments s os) = s\<lparr>ds_segMax := m, ds_wal := w\<rparr>"
  "os_delete os = DelOk \<Longrightarrow> fst (deleteObsoleteSegments s os) = Inr ()"
  by (auto simp: deleteObsoleteSegments_def Let_def DeleteBefore_ok split: prod.splits)

lemma Compact_refines:
  assumes ok: "ds_ok s"
  shows "ds_ok (snd (DiskStore_Compact s i t d os))"
    and "DiskStore_Compact s i t d os = (Inr (), s') \<Longrightarrow> ds_abs s' = MemStore_Compact (ds_abs s) i t d"
    and "DiskStore_Compact s i t d os = (Inl e, s') \<Longrightarrow> ds_abs s' = ds_abs s
      \<or> os_delete (ca_delete os) \<noteq> DelOk \<and> ds_abs s' = MemStore_Compact (ds_abs s) i t d"
proof -
  have files: "ds_ok (s\<lparr>ds_files := fs\<rparr>)" "ds_abs (s\<lparr>ds_files := fs\<rparr>) = ds_abs s"
    if "map_of fs (SnapFile (ds_snapIdx s)) = map_of (ds_files s) (SnapFile (ds_snapIdx s))" for fs
    using ok that by (simp_all add: ds_ok_def ds_abs_def)
  obtain r fs where w: "writeFileAtomic (ds_files s) i d (ca_file os) = (r, fs)" by (rule prod.exhaust)
  note fs = writeFileAtomic_other [OF w]
  define fs' where "fs' = (if ds_snapIdx s > 0 \<and> ca_remove os then AList.delete (SnapFile (ds_snapIdx s)) fs else fs)"
  define fin where "fin w = deleteObsoleteSegments
      ((dropThrough i (s\<lparr>ds_files := fs, ds_wal := w\<rparr>))\<lparr>ds_snapIdx := i, ds_snapTerm := t, ds_files := fs'\<rparr>) (ca_delete os)" for w
  have new: "ds_ok (snd (fin w)) \<and> ds_abs (snd (fin w)) = MemStore_Compact (ds_abs s) i t d" if "ds_snapIdx s < i" "r" for w
  proof -
    have "map_of fs' (SnapFile i) = Some d" using fs(2) that by (simp add: fs'_def delete_conv')
    moreover obtain m w' where "snd (fin w) = (dropThrough i (s\<lparr>ds_files := fs, ds_wal := w\<rparr>))
        \<lparr>ds_snapIdx := i, ds_snapTerm := t, ds_files := fs', ds_segMax := m, ds_wal := w'\<rparr>"
      using deleteObsolete_outcome(1) unfolding fin_def by blast
    ultimately show ?thesis
      using ok that by (auto simp: dropThrough_def Let_def ds_ok_def ds_abs_def
        MemStore_Compact_def ds_lastLocked_def lastLocked_def)
  qed
  obtain a w1 where rot: "WAL_Rotate (ds_wal s) (ca_rotate os) = (a, w1)" by (rule prod.exhaust)
  obtain b w2 where app: "WAL_Append w1 [snapshot_record i t, state_record (ds_term s) (ds_vote s)] (ca_append os) = (b, w2)"
    by (rule prod.exhaust)
  have eq: "DiskStore_Compact s i t d os =
      (if i \<le> ds_snapIdx s then (Inr (), s) else if \<not> r then (Inl ErrStoreIO, s\<lparr>ds_files := fs\<rparr>)
       else if isl a then (Inl ErrStoreIO, s\<lparr>ds_files := fs, ds_wal := w1\<rparr>)
       else if isl b then (Inl ErrStoreIO, s\<lparr>ds_files := fs, ds_wal := w2\<rparr>) else fin w2)"
    by (cases r; cases a; cases b) (simp_all add: DiskStore_Compact_def w rot app Let_def fin_def fs'_def)
  have old: "ds_abs s = MemStore_Compact (ds_abs s) i t d" if "i \<le> ds_snapIdx s"
    using that by (simp add: MemStore_Compact_def ds_abs_def)
  have f: "ds_ok (s\<lparr>ds_files := fs\<rparr>)" "ds_abs (s\<lparr>ds_files := fs\<rparr>) = ds_abs s" if "ds_snapIdx s < i"
    using files [of fs] fs(1) [of "ds_snapIdx s"] that by simp_all
  have del: "os_delete (ca_delete os) \<noteq> DelOk" if "fst (fin w2) = Inl e"
    using that deleteObsolete_outcome(2) [of "ca_delete os"] by (auto simp: fin_def)
  show "ds_ok (snd (DiskStore_Compact s i t d os))" unfolding eq using ok new f by simp
  show "ds_abs s' = MemStore_Compact (ds_abs s) i t d" if c: "DiskStore_Compact s i t d os = (Inr (), s')"
    using c [unfolded eq] new [of w2] old by (auto split: if_splits)
  show "ds_abs s' = ds_abs s \<or> os_delete (ca_delete os) \<noteq> DelOk \<and> ds_abs s' = MemStore_Compact (ds_abs s) i t d"
    if c: "DiskStore_Compact s i t d os = (Inl e, s')"
    using c [unfolded eq] new [of w2] f(2) del by (auto split: if_splits)
qed

lemmas ds_refines = Append_refines SetState_refines Compact_refines

interpretation dsk: log_store
  "\<lambda>s es. written (DiskStore_Append s es os)" DiskStore_Entries DiskStore_Term DiskStore_FirstIndex DiskStore_LastIndex
  "\<lambda>s t v. written (DiskStore_SetState s t v os)" DiskStore_State "\<lambda>s i t d. written (DiskStore_Compact s i t d ca)"
  "\<lambda>s. projr (DiskStore_Snapshot s)" ds_abs ds_ok for os ca
proof
  fix s s' :: DiskStore and es :: "Entry list" and lo hi i t v :: nat and d :: bytes
  assume ok: "ds_ok s"
  show "ds_ok s' \<and> MemStore_Append (ds_abs s) es = Inr (ds_abs s')" if "written (DiskStore_Append s es os) = Inr s'"
    using that ds_refines(1,2) [OF ok, of es os] by (auto simp: written_Inr keeps_def)
  show "ds_ok s' \<and> ds_abs s' = MemStore_SetState (ds_abs s) t v" if "written (DiskStore_SetState s t v os) = Inr s'"
    using that ds_refines(3,4) [OF ok, of t v os] by (auto simp: written_Inr keeps_def)
  show "ds_ok s' \<and> ds_abs s' = MemStore_Compact (ds_abs s) i t d" if "written (DiskStore_Compact s i t d ca) = Inr s'"
    using that ds_refines(5,6) [OF ok, of i t d ca] by (auto simp: written_Inr)
qed (auto simp: ds_ok_def ds_abs_def store DiskStore_Entries_def DiskStore_Term_def DiskStore_FirstIndex_def
    DiskStore_LastIndex_def DiskStore_State_def DiskStore_Snapshot_def ds_lastLocked_def split: if_splits)

section \<open>Runs\<close>

datatype ds_op = OpAppend "Entry list" | OpState nat NodeID | OpCompact nat nat bytes

fun ds_do :: "DiskStore \<Rightarrow> ds_op \<Rightarrow> DiskStore" where
  "ds_do s (OpAppend es) = snd (DiskStore_Append s es os_ok)"
| "ds_do s (OpState t v) = snd (DiskStore_SetState s t v os_ok)"
| "ds_do s (OpCompact i t d) = snd (DiskStore_Compact s i t d ca_ok)"

definition ds_reopen :: "DiskStore \<Rightarrow> disk_error + DiskStore" where
  "ds_reopen s = OpenDiskStore (w_dir (ds_wal s)) (ds_files s) True os_ok True"

definition ds_fresh :: DiskStore where
  "ds_fresh = projr (OpenDiskStore [] [] True os_ok True)"

definition noop :: "nat \<Rightarrow> nat \<Rightarrow> Entry" where
  "noop i t = \<lparr>en_index = i, en_term = t, en_type = EntryNoop, en_data = []\<rparr>"

section \<open>Replaying records\<close>

definition storable :: "Entry \<Rightarrow> bool" where
  "storable e \<longleftrightarrow> en_index e < 2 ^ 64 \<and> en_term e < 2 ^ 64 \<and> length (en_data e) + 18 < 2 ^ 32
     \<and> en_type e \<noteq> EntryOther 0 \<and> en_type e \<noteq> EntryOther 1"

lemma length_le64 [simp]: "length (le64 n) = 8"
  by (simp add: le64_def)

lemma le64_back: "n < 2 ^ 64 \<Longrightarrow> unat (get_le64 (le64 n @ r)) = n" "n < 2 ^ 64 \<Longrightarrow> unat (get_le64 (le64 n)) = n"
  using get_le64_put [of "word_of_nat n" r] get_le64_put [of "word_of_nat n" "[]"] by (simp_all add: le64_def unat_of_nat)

lemma byte_type_byte [simp]: "t \<noteq> EntryOther 0 \<Longrightarrow> t \<noteq> EntryOther 1 \<Longrightarrow> byte_type (type_byte t) = t"
  by (cases t) (simp_all add: byte_type_def type_byte_def)

lemma record_lengths [simp]:
  "length (entry_record e) = 18 + length (en_data e)" "length (state_record t v) = 17" "length (snapshot_record i t) = 17"
  by (simp_all add: entry_record_def state_record_def snapshot_record_def)

lemma wf_records [simp]:
  "storable e \<Longrightarrow> wf_payload (entry_record e)" "wf_payload (state_record t v)" "wf_payload (snapshot_record i t)"
proof -
  show "wf_payload (entry_record e)" if "storable e"
    using that record_lengths(1) [of e] unfolding wf_payload_def storable_def by (auto simp: entry_record_def)
qed (auto simp: wf_payload_def state_record_def snapshot_record_def)

lemma replay_entry_record:
  assumes "storable e"
  shows "ds_replay seg (entry_record e) s = replay_entry seg e s"
proof -
  have l: "\<not> length (entry_record e) < 18" by simp
  have "(le64 (en_index e) @ le64 (en_term e) @ type_byte (en_type e) # en_data e) ! 16 = type_byte (en_type e)"
    by (simp add: nth_append)
  then show ?thesis
    using assms l unfolding ds_replay_def entry_record_def by (cases e) (simp add: storable_def le64_back del: length_Cons)
qed

lemma replay_state_record:
  assumes "t < 2 ^ 64" and "v < 2 ^ 64"
  shows "ds_replay seg (state_record t v) s = Inr (s\<lparr>ds_term := t, ds_vote := v\<rparr>)"
  using assms by (simp add: ds_replay_def state_record_def recState_def recEntry_def le64_back)

lemma replay_snapshot_record:
  assumes "i < 2 ^ 64" and "t < 2 ^ 64"
  shows "ds_replay seg (snapshot_record i t) s =
    (if i < ds_base s then Inl (ErrBelowStart i (ds_base s + 1)) else Inr ((dropThrough i s)\<lparr>ds_snapIdx := i, ds_snapTerm := t\<rparr>))"
  using assms by (simp add: ds_replay_def snapshot_record_def recSnapshot_def recState_def recEntry_def le64_back)

lemma replay_tail:
  assumes "contiguous (ds_lastLocked s + 1) es" and "list_all storable es" and "ds_snapIdx s \<le> ds_lastLocked s"
  shows "\<exists>m. replay_log ds_replay (map (Pair seg) (map entry_record es)) s = Inr (s\<lparr>ds_entries := ds_entries s @ es, ds_segMax := m\<rparr>)"
  using assms
proof (induction es arbitrary: s)
  case Nil
  then show ?case by (auto intro: exI [of _ "ds_segMax s"])
next
  case (Cons e es)
  let ?s = "s\<lparr>ds_entries := ds_entries s @ [e], ds_segMax := AList.update seg (en_index e) (ds_segMax s)\<rparr>"
  have i: "en_index e = ds_lastLocked s + 1" using contiguous_hd [OF Cons.prems(1)] by simp
  have "ds_replay seg (entry_record e) s = Inr ?s"
    using Cons.prems i by (simp add: replay_entry_record replay_entry_def Let_def)
  moreover have "contiguous (ds_lastLocked ?s + 1) es"
    using contiguous_drop [OF Cons.prems(1), of 1] by (simp add: ds_lastLocked_def)
  then obtain m where "replay_log ds_replay (map (Pair seg) (map entry_record es)) ?s = Inr (?s\<lparr>ds_entries := ds_entries ?s @ es, ds_segMax := m\<rparr>)"
    using Cons.IH [of ?s] Cons.prems by (auto simp: ds_lastLocked_def)
  ultimately show ?case by (auto intro: exI [of _ m])
qed

lemma replay_entries:
  assumes "contiguous (en_index e) (e # es)" and "list_all storable (e # es)"
    and "ds_base s = ds_snapIdx s" and "ds_snapIdx s < en_index e" and "en_index e \<le> ds_lastLocked s + 1"
  shows "\<exists>m. replay_log ds_replay (map (Pair seg) (map entry_record (e # es))) s
    = Inr (s\<lparr>ds_entries := take (en_index e - ds_base s - 1) (ds_entries s) @ e # es, ds_segMax := m\<rparr>)"
proof -
  let ?t = "take (en_index e - ds_base s - 1) (ds_entries s)"
  let ?s = "s\<lparr>ds_entries := ?t @ [e], ds_segMax := AList.update seg (en_index e) (ds_segMax s)\<rparr>"
  have "length ?t = en_index e - ds_base s - 1" using assms(5) by (simp add: ds_lastLocked_def)
  then have l: "ds_lastLocked ?s = en_index e" using assms(3,4) by (simp add: ds_lastLocked_def)
  have "?t = ds_entries s" if "\<not> en_index e \<le> ds_lastLocked s" using that by (simp add: ds_lastLocked_def)
  then have "ds_replay seg (entry_record e) s = Inr ?s"
    using assms by (cases "en_index e \<le> ds_lastLocked s") (simp_all add: replay_entry_record replay_entry_def Let_def)
  moreover obtain m where "replay_log ds_replay (map (Pair seg) (map entry_record es)) ?s = Inr (?s\<lparr>ds_entries := ds_entries ?s @ es, ds_segMax := m\<rparr>)"
    using replay_tail [of ?s es seg] contiguous_drop [OF assms(1), of 1] assms(2,4) l by auto
  ultimately show ?thesis by (auto intro: exI [of _ m])
qed

section \<open>Restarts\<close>

text \<open>
  Compactions that a restart survives: the store drops none of the older segments, or it drops all of
  them and no entry is left. What happens otherwise is shown below.
\<close>

definition all_or_none :: "DiskStore \<Rightarrow> DiskStore \<Rightarrow> bool" where
  "all_or_none s s' \<longleftrightarrow>
     (let before = map fst (w_dir (ds_wal s)); after = map fst (w_dir (ds_wal s'))
      in list_all (\<lambda>seg. seg \<in> set after) before \<or> list_all (\<lambda>seg. seg \<notin> set after) before \<and> ds_entries s' = [])"

fun legal :: "DiskStore \<Rightarrow> ds_op \<Rightarrow> bool" where
  "legal s (OpAppend es) \<longleftrightarrow> list_all storable es \<and> (es = [] \<or> contiguous (en_index (hd es)) es)"
| "legal s (OpState t v) \<longleftrightarrow> t < 2 ^ 64 \<and> v < 2 ^ 64"
| "legal s (OpCompact i t d) \<longleftrightarrow> i < 2 ^ 64 \<and> t < 2 ^ 64 \<and> all_or_none s (ds_do s (OpCompact i t d))"

fun legal_run :: "DiskStore \<Rightarrow> ds_op list \<Rightarrow> bool" where
  "legal_run s [] \<longleftrightarrow> True"
| "legal_run s (op # ops) \<longleftrightarrow> legal s op \<and> legal_run (ds_do s op) ops"

definition recovers :: "WAL \<Rightarrow> 'a diskLog_scheme \<Rightarrow> bool" where
  "recovers w s \<longleftrightarrow> (\<exists>m. replay_log ds_replay (wal_content w) emptyLog = Inr ((diskLog.truncate s)\<lparr>ds_segMax := m\<rparr>))"

definition restartable :: "DiskStore \<Rightarrow> bool" where
  "restartable s \<longleftrightarrow> ds_ok s \<and> wal_inv (ds_wal s) \<and> ds_term s < 2 ^ 64 \<and> ds_vote s < 2 ^ 64 \<and> recovers (ds_wal s) s"

lemma WAL_Append_conv:
  assumes "wal_inv w" and "list_all wf_payload ps"
  shows "WAL_Append w ps os_ok = (Inr (w_seg (wal_append w ps)), wal_append w ps)"
proof -
  obtain L where "wal_holds w L" "wal_ok w" using assms(1) by (auto simp: wal_inv_def)
  from WAL_Append_ok [OF this assms(2)] show ?thesis by (auto simp: wal_append_def)
qed

lemma WAL_Rotate_conv:
  assumes "wal_inv w"
  shows "WAL_Rotate w os_ok = (Inr (w_seg (wal_rotate w)), wal_rotate w)"
proof -
  obtain L where "wal_holds w L" "wal_ok w" using assms by (auto simp: wal_inv_def)
  from rotateLocked_ok [OF this] show ?thesis by (auto simp: wal_rotate_def WAL_Rotate_def)
qed

lemma content_in_dir: "wal_inv w \<Longrightarrow> (seg, p) \<in> set (wal_content w) \<Longrightarrow> seg \<in> fst ` set (w_dir w)"
proof -
  assume "wal_inv w" and p: "(seg, p) \<in> set (wal_content w)"
  then obtain L where L: "wal_holds w L" by (auto simp: wal_inv_def)
  then have "(seg, p) \<in> set (wal_log L)" using p by (simp add: wal_content_holds)
  then have "seg \<in> fst ` set L" by (force simp: wal_log_def)
  then show ?thesis using L by (simp add: wal_holds_def)
qed

lemma recovers_append:
  assumes "wal_inv w" and "list_all wf_payload ps" and "recovers w s"
    and "\<And>m seg. \<exists>m'. replay_log ds_replay (map (Pair seg) ps) ((diskLog.truncate s)\<lparr>ds_segMax := m\<rparr>) = Inr ((diskLog.truncate s')\<lparr>ds_segMax := m'\<rparr>)"
  shows "recovers (wal_append w ps) s'"
  using assms by (auto simp: recovers_def wl.content_append replay_log_append)

lemma Append_restartable:
  assumes "restartable s" and "legal s (OpAppend es)"
  shows "restartable (ds_do s (OpAppend es))"
proof (cases "es = [] \<or> (\<exists>e fs. es = e # fs \<and> (en_index e > ds_lastLocked s + 1 \<or> en_index e \<le> ds_snapIdx s))")
  case True
  then show ?thesis using assms(1) by (auto simp: DiskStore_Append_def Let_def)
next
  case False
  then obtain e fs where es: "es = e # fs" and b: "en_index e \<le> ds_lastLocked s + 1" "ds_snapIdx s < en_index e"
    by (cases es) auto
  define w where "w = wal_append (ds_wal s) (map entry_record es)"
  have wf: "list_all storable es" "contiguous (en_index e) es" using assms(2) es by auto
  have ps: "list_all wf_payload (map entry_record es)" using wf(1) by (simp add: list_all_iff)
  have inv: "wal_inv (ds_wal s)" "recovers (ds_wal s) s" "ds_base s = ds_snapIdx s" using assms(1) by (simp_all add: restartable_def ds_ok_def)
  have a: "ds_do s (OpAppend es) = s\<lparr>ds_wal := w, ds_entries := take (en_index e - ds_base s - 1) (ds_entries s) @ es,
      ds_segMax := AList.update (w_seg w) (en_index (last es)) (ds_segMax s)\<rparr>" (is "_ = ?s")
    using WAL_Append_conv [OF inv(1) ps] b by (simp add: DiskStore_Append_def es w_def Let_def)
  have "recovers (wal_append (ds_wal s) (map entry_record es)) ?s"
  proof (rule recovers_append [OF inv(1) ps inv(2)])
    fix m seg
    let ?x = "(diskLog.truncate s)\<lparr>ds_segMax := m\<rparr>"
    have "ds_base ?x = ds_snapIdx ?x" "ds_snapIdx ?x < en_index e" "en_index e \<le> ds_lastLocked ?x + 1"
      using inv(3) b by (simp_all add: diskLog.defs ds_lastLocked_def)
    from replay_entries [OF wf(2,1) [unfolded es] this, of seg]
    show "\<exists>m'. replay_log ds_replay (map (Pair seg) (map entry_record es)) ?x = Inr ((diskLog.truncate ?s)\<lparr>ds_segMax := m'\<rparr>)"
      by (simp add: es diskLog.defs)
  qed
  moreover have "wal_inv w" unfolding w_def using inv(1) ps by (rule wl.inv_append)
  ultimately show ?thesis using assms(1) unfolding a by (simp add: restartable_def ds_ok_def w_def [symmetric])
qed

lemma SetState_restartable:
  assumes "restartable s" and "legal s (OpState t v)"
  shows "restartable (ds_do s (OpState t v))"
proof -
  define w where "w = wal_append (ds_wal s) [state_record t v]"
  have inv: "wal_inv (ds_wal s)" "recovers (ds_wal s) s" and ps: "list_all wf_payload [state_record t v]"
    using assms(1) by (simp_all add: restartable_def)
  have a: "ds_do s (OpState t v) = s\<lparr>ds_wal := w, ds_term := t, ds_vote := v\<rparr>" (is "_ = ?s")
    using WAL_Append_conv [OF inv(1) ps] by (simp add: DiskStore_SetState_def writeState_def w_def)
  have "recovers w ?s" unfolding w_def
    by (rule recovers_append [OF inv(1) ps inv(2)]) (use assms(2) in \<open>auto simp: replay_state_record diskLog.defs\<close>)
  moreover have "wal_inv w" unfolding w_def using inv(1) ps by (rule wl.inv_append)
  ultimately show ?thesis using assms unfolding a by (simp add: restartable_def ds_ok_def)
qed

lemma replay_compact_records:
  assumes "ds_base x \<le> i" and "i < 2 ^ 64" and "t < 2 ^ 64" and "u < 2 ^ 64" and "v < 2 ^ 64"
  shows "replay_log ds_replay (map (Pair seg) [snapshot_record i t, state_record u v]) x
    = Inr ((dropThrough i x)\<lparr>ds_snapIdx := i, ds_snapTerm := t, ds_term := u, ds_vote := v\<rparr>)"
  using assms by (simp add: replay_snapshot_record replay_state_record)

lemma keep_segment_le: "keep_segment cur m i \<le> cur"
proof -
  define f where "f = (\<lambda>(seg, m) keep. if seg \<ge> cur then keep else if m > i then if keep = 0 \<or> seg < keep then seg else keep else (keep :: nat))"
  have step: "k \<le> cur \<Longrightarrow> f x k \<le> cur" for x k by (cases x) (simp add: f_def)
  have "k \<le> cur \<Longrightarrow> fold f m k \<le> cur" for k
    by (induction m arbitrary: k) (simp_all only: fold_simps step)
  from this [of 0] show ?thesis by (simp add: keep_segment_def Let_def f_def [symmetric])
qed

text \<open>What a successful compaction leaves: the log state, the files of the log, and their contents.\<close>

lemma Compact_ok:
  assumes "wal_inv (ds_wal s)" and "ds_snapIdx s < i" and v: "v = wal_append (wal_rotate (ds_wal s)) [snapshot_record i t, state_record (ds_term s) (ds_vote s)]"
  shows "\<exists>k fs. k \<le> w_seg v \<and> ds_do s (OpCompact i t d) = (dropThrough i s)\<lparr>ds_snapIdx := i, ds_snapTerm := t,
    ds_segMax := filter (\<lambda>(seg, m). \<not> seg < k) (ds_segMax s), ds_wal := wal_discard v k, ds_files := fs\<rparr>"
proof -
  define k where "k = keep_segment (w_seg v) (ds_segMax s) i"
  have ps: "list_all wf_payload [snapshot_record i t, state_record (ds_term s) (ds_vote s)]" by simp
  have rot: "WAL_Rotate (ds_wal s) (ca_rotate ca_ok) = (Inr (w_seg (wal_rotate (ds_wal s))), wal_rotate (ds_wal s))"
    using WAL_Rotate_conv [OF assms(1)] by (simp add: ca_ok_def)
  have app: "WAL_Append (wal_rotate (ds_wal s)) [snapshot_record i t, state_record (ds_term s) (ds_vote s)] (ca_append ca_ok) = (Inr (w_seg v), v)"
    using WAL_Append_conv [OF wl.inv_rotate [OF assms(1)] ps] by (simp add: ca_ok_def v)
  obtain fs where fs: "writeFileAtomic (ds_files s) i d (ca_file ca_ok) = (True, fs)" by (simp add: ca_ok_def writeFileAtomic_def Let_def)
  have n: "\<not> i \<le> ds_snapIdx s" using assms(2) by simp
  define fs' where "fs' = (if 0 < ds_snapIdx s \<and> ca_remove ca_ok then AList.delete (SnapFile (ds_snapIdx s)) fs else fs)"
  have eq: "DiskStore_Compact s i t d ca_ok = deleteObsoleteSegments
      ((dropThrough i (s\<lparr>ds_files := fs, ds_wal := v\<rparr>))\<lparr>ds_snapIdx := i, ds_snapTerm := t, ds_files := fs'\<rparr>) (ca_delete ca_ok)"
    by (simp only: DiskStore_Compact_def if_not_P [OF n] fs rot app prod.case sum.case bool.case Let_def fs'_def)
  have dt: "dropThrough i (s\<lparr>ds_files := fs, ds_wal := v\<rparr>) = (dropThrough i s)\<lparr>ds_files := fs, ds_wal := v\<rparr>"
    "ds_segMax (dropThrough i s) = ds_segMax s"
    by (simp_all add: dropThrough_def ds_lastLocked_def)
  have "ds_do s (OpCompact i t d) = (dropThrough i s)\<lparr>ds_snapIdx := i, ds_snapTerm := t,
    ds_segMax := filter (\<lambda>(seg, m). \<not> seg < k) (ds_segMax s), ds_wal := wal_discard v k, ds_files := fs'\<rparr>"
    unfolding ds_do.simps eq dt(1) by (simp add: deleteObsoleteSegments_def Let_def k_def dt(2) DeleteBefore_ok ca_ok_def)
  moreover have "k \<le> w_seg v" by (simp add: k_def keep_segment_le)
  ultimately show ?thesis by blast
qed

lemma Compact_recovers:
  assumes inv: "wal_inv w0" "recovers w0 s" and b: "ds_base s < i" "i < 2 ^ 64" "t < 2 ^ 64" "ds_term s < 2 ^ 64" "ds_vote s < 2 ^ 64"
    and v: "v = wal_append (wal_rotate w0) [snapshot_record i t, state_record (ds_term s) (ds_vote s)]" and k: "k \<le> w_seg v"
    and aon: "(\<forall>(g, p) \<in> set (wal_content w0). k \<le> g) \<or> (\<forall>(g, p) \<in> set (wal_content w0). g < k) \<and> ds_entries (dropThrough i s) = []"
  shows "recovers (wal_discard v k) ((dropThrough i s)\<lparr>ds_snapIdx := i, ds_snapTerm := t\<rparr>)"
proof -
  let ?ps = "[snapshot_record i t, state_record (ds_term s) (ds_vote s)]"
  let ?x = "(dropThrough i s)\<lparr>ds_snapIdx := i, ds_snapTerm := t\<rparr>"
  have vi: "wal_inv v" "wal_content v = wal_content w0 @ map (Pair (w_seg v)) ?ps"
    using inv(1) by (simp_all add: v wl.inv_rotate wl.inv_append wl.content_append wl.content_rotate)
  have c: "wal_content (wal_discard v k) = filter (\<lambda>(g, p). k \<le> g) (wal_content w0) @ map (Pair (w_seg v)) ?ps"
    using wl.content_discard [OF vi(1) k] k by (simp add: vi(2))
  obtain m where m: "replay_log ds_replay (wal_content w0) emptyLog = Inr ((diskLog.truncate s)\<lparr>ds_segMax := m\<rparr>)"
    using inv(2) by (auto simp: recovers_def)
  from aon show ?thesis
  proof
    assume "\<forall>(g, p) \<in> set (wal_content w0). k \<le> g"
    then have f: "filter (\<lambda>(g, p). k \<le> g) (wal_content w0) = wal_content w0" by (auto simp: filter_id_conv)
    have "replay_log ds_replay (map (Pair (w_seg v)) ?ps) ((diskLog.truncate s)\<lparr>ds_segMax := m\<rparr>) = Inr ((diskLog.truncate ?x)\<lparr>ds_segMax := m\<rparr>)"
      using b by (subst replay_compact_records) (simp_all add: diskLog.defs dropThrough_def ds_lastLocked_def)
    then show ?thesis unfolding recovers_def c f replay_log_append m by auto
  next
    assume a: "(\<forall>(g, p) \<in> set (wal_content w0). g < k) \<and> ds_entries (dropThrough i s) = []"
    then have f: "filter (\<lambda>(g, p). k \<le> g) (wal_content w0) = []" by (fastforce simp: filter_empty_conv)
    have "replay_log ds_replay (map (Pair (w_seg v)) ?ps) emptyLog = Inr ((diskLog.truncate ?x)\<lparr>ds_segMax := []\<rparr>)"
      using b a by (subst replay_compact_records) (simp_all add: emptyLog_def diskLog.defs dropThrough_def ds_lastLocked_def)
    then show ?thesis unfolding recovers_def c f by auto
  qed
qed

lemma all_or_none_content:
  assumes aon: "all_or_none s s'" and inv: "wal_inv (ds_wal s)" "wal_inv v" and sub: "set (wal_content (ds_wal s)) \<subseteq> set (wal_content v)"
    and del: "ds_wal s' = wal_discard v k"
  shows "(\<forall>(g, p) \<in> set (wal_content (ds_wal s)). k \<le> g)
    \<or> (\<forall>(g, p) \<in> set (wal_content (ds_wal s)). g < k) \<and> ds_entries s' = []"
proof -
  have dir: "w_dir (ds_wal s') = filter (\<lambda>(g, f). \<not> g < k) (w_dir v)" by (simp add: del wal_discard_def)
  have old: "g \<in> set (map fst (w_dir (ds_wal s'))) \<longleftrightarrow> k \<le> g" if gp: "(g, p) \<in> set (wal_content (ds_wal s))" for g p
  proof -
    have "g \<in> fst ` set (w_dir v)" using content_in_dir [OF inv(2), of g p] sub gp by auto
    then show ?thesis unfolding dir by (auto simp: image_iff)
  qed
  have here: "g \<in> set (map fst (w_dir (ds_wal s)))" if "(g, p) \<in> set (wal_content (ds_wal s))" for g p
    using content_in_dir [OF inv(1) that] by simp
  show ?thesis using aon [unfolded all_or_none_def Let_def list_all_iff]
  proof
    assume "\<forall>g \<in> set (map fst (w_dir (ds_wal s))). g \<in> set (map fst (w_dir (ds_wal s')))"
    then have "\<forall>(g, p) \<in> set (wal_content (ds_wal s)). k \<le> g" using old here by blast
    then show ?thesis ..
  next
    assume n: "(\<forall>g \<in> set (map fst (w_dir (ds_wal s))). g \<notin> set (map fst (w_dir (ds_wal s')))) \<and> ds_entries s' = []"
    then have "\<forall>(g, p) \<in> set (wal_content (ds_wal s)). \<not> k \<le> g" using old here by blast
    then show ?thesis using n by (simp add: not_le)
  qed
qed

lemma Compact_restartable:
  assumes r: "restartable s" and l: "legal s (OpCompact i t d)"
  shows "restartable (ds_do s (OpCompact i t d))"
proof (cases "i \<le> ds_snapIdx s")
  case True
  then show ?thesis using r by (simp add: DiskStore_Compact_def)
next
  case False
  define v where "v = wal_append (wal_rotate (ds_wal s)) [snapshot_record i t, state_record (ds_term s) (ds_vote s)]"
  define s' where "s' = ds_do s (OpCompact i t d)"
  have inv: "wal_inv (ds_wal s)" "recovers (ds_wal s) s" "ds_base s = ds_snapIdx s" "ds_term s < 2 ^ 64" "ds_vote s < 2 ^ 64" "ds_ok s"
    using r by (simp_all add: restartable_def ds_ok_def)
  have lg: "i < 2 ^ 64" "t < 2 ^ 64" "all_or_none s s'" using l by (simp_all add: s'_def)
  obtain k fs where k: "k \<le> w_seg v" and s': "s' = (dropThrough i s)\<lparr>ds_snapIdx := i, ds_snapTerm := t,
      ds_segMax := filter (\<lambda>(seg, m). \<not> seg < k) (ds_segMax s), ds_wal := wal_discard v k, ds_files := fs\<rparr>"
    using Compact_ok [OF inv(1) _ v_def, of d] False unfolding s'_def not_le by blast
  have vi: "wal_inv v" "set (wal_content (ds_wal s)) \<subseteq> set (wal_content v)"
    using inv(1) by (auto simp: v_def wl.inv_rotate wl.inv_append wl.content_append wl.content_rotate)
  have "(\<forall>(g, p) \<in> set (wal_content (ds_wal s)). k \<le> g)
      \<or> (\<forall>(g, p) \<in> set (wal_content (ds_wal s)). g < k) \<and> ds_entries (dropThrough i s) = []"
    using all_or_none_content [OF lg(3) inv(1) vi, of k] by (simp add: s')
  from Compact_recovers [OF inv(1,2) _ lg(1,2) inv(4,5) v_def k this]
  have "recovers (wal_discard v k) s'" using False inv(3) by (simp add: recovers_def s' diskLog.defs)
  moreover have "wal_inv (wal_discard v k)" using wl.inv_discard [OF vi(1) k] .
  moreover have "ds_ok s'" using ds_refines(5) [OF inv(6), of i t d ca_ok] by (simp add: s'_def)
  moreover have "ds_term s' = ds_term s" "ds_vote s' = ds_vote s" "ds_wal s' = wal_discard v k" by (simp_all add: s' dropThrough_def)
  ultimately show ?thesis using inv(4,5) unfolding s'_def [symmetric] by (simp add: restartable_def)
qed

lemma ds_do_restartable: "restartable s \<Longrightarrow> legal s op \<Longrightarrow> restartable (ds_do s op)"
  by (cases op) (simp_all only: Append_restartable SetState_restartable Compact_restartable)

lemma run_restartable: "restartable s \<Longrightarrow> legal_run s ops \<Longrightarrow> restartable (foldl ds_do s ops)"
  by (induction ops arbitrary: s) (simp_all add: ds_do_restartable del: ds_do.simps legal.simps)

lemma OpenWAL_content:
  assumes "wal_inv w"
  shows "\<exists>w'. OpenWAL (w_dir w) sz sync replay s os_ok =
    (case replay_log replay (wal_content w) s of Inl e \<Rightarrow> Inl (ErrReplay e) | Inr s' \<Rightarrow> Inr (s', w'))"
proof -
  obtain L where L: "wal_holds w L" using assms by (auto simp: wal_inv_def)
  obtain M ps where M: "L = M @ [(w_seg w, ps)]" "w_dir w = enc_dir M @ [(w_seg w, wal_bytes ps)]" "wf_segments L"
    using L by (rule wal_holds_last)
  show ?thesis using OpenWAL_segments [of M "w_seg w" ps "[]" sz sync replay s] M wal_content_holds [OF L] by auto
qed

lemma map_of_filter_key: "map_of (filter (\<lambda>(n, d). n = k) xs) k = map_of xs k"
  by (induction xs) auto

lemma ds_fresh_eq: "ds_fresh = diskLog.extend emptyLog \<lparr>ds_wal = fresh_wal 16777216 True, ds_files = []\<rparr>"
  by (simp add: ds_fresh_def OpenDiskStore_def OpenWAL_def listSegments_def openSegment_def os_ok_def removeStaleSnapshots_def
      emptyLog_def fresh_wal_def)

lemma fresh_restartable: "restartable ds_fresh"
proof -
  have "wal_content (fresh_wal 16777216 True) = []"
    by (simp add: wal_content_def fresh_wal_def listSegments_def dir_file_def replaySegment_def replay_loop.simps)
  then show ?thesis
    unfolding ds_fresh_eq restartable_def using fresh_wal_inv [of 16777216 True]
    by (auto simp: ds_ok_def emptyLog_def diskLog.defs recovers_def)
qed

lemma write_outcome:
  assumes "keeps s r" and "\<And>s'. r = (Inr (), s') \<Longrightarrow> P s'"
  shows "case r of (Inl _, s') \<Rightarrow> ds_ok s' \<and> ds_abs s' = ds_abs s | (Inr _, s') \<Rightarrow> ds_ok s' \<and> P s'"
  using assms by (cases r rule: written.cases) (auto simp: keeps_def)

section \<open>Properties\<close>

text \<open>
  C12: the log on disk is the log in memory. Whatever the operating system answers, a write of the disk store that succeeds does
  what the same write does to \<open>MemStore\<close>, and the store stays usable. An append or a vote that fails leaves the contents
  as they were. A compaction that fails has either left the contents as they were, or it failed at its last step, the removal of old
  segments: then the compaction has taken effect although it reports an error.
\<close>

theorem disk_store_refines_memstore:
  assumes "ds_ok s"
  shows "(case DiskStore_Append s es os of
      (Inl _, s') \<Rightarrow> ds_ok s' \<and> ds_abs s' = ds_abs s | (Inr _, s') \<Rightarrow> ds_ok s' \<and> MemStore_Append (ds_abs s) es = Inr (ds_abs s'))
    \<and> (case DiskStore_SetState s t v os of
      (Inl _, s') \<Rightarrow> ds_ok s' \<and> ds_abs s' = ds_abs s | (Inr _, s') \<Rightarrow> ds_ok s' \<and> ds_abs s' = MemStore_SetState (ds_abs s) t v)
    \<and> (case DiskStore_Compact s i t d ca of
      (Inl _, s') \<Rightarrow> ds_ok s' \<and> (ds_abs s' = ds_abs s \<or> os_delete (ca_delete ca) \<noteq> DelOk \<and> ds_abs s' = MemStore_Compact (ds_abs s) i t d)
    | (Inr _, s') \<Rightarrow> ds_ok s' \<and> ds_abs s' = MemStore_Compact (ds_abs s) i t d)"
proof (intro conjI)
  show "case DiskStore_Compact s i t d ca of
      (Inl _, s') \<Rightarrow> ds_ok s' \<and> (ds_abs s' = ds_abs s \<or> os_delete (ca_delete ca) \<noteq> DelOk \<and> ds_abs s' = MemStore_Compact (ds_abs s) i t d)
    | (Inr _, s') \<Rightarrow> ds_ok s' \<and> ds_abs s' = MemStore_Compact (ds_abs s) i t d"
    using Compact_refines [OF assms, of i t d ca]
    by (cases "DiskStore_Compact s i t d ca" rule: written.cases) simp_all
qed (rule write_outcome [OF Append_refines [OF assms]] write_outcome [OF SetState_refines [OF assms]], assumption)+

text \<open>
  C11: a restart recovers the log. After any run of appends (which may overwrite a tail), votes and compactions whose
  clean-up drops all of the older segments or none of them, opening the directory again succeeds with the same
  term, vote, entries and snapshot.
\<close>

theorem disk_restart_recovers:
  assumes "legal_run ds_fresh ops"
  shows "\<exists>s'. ds_reopen (foldl ds_do ds_fresh ops) = Inr s' \<and> ds_ok s' \<and> ds_abs s' = ds_abs (foldl ds_do ds_fresh ops)"
proof -
  define s where "s = foldl ds_do ds_fresh ops"
  have "restartable s" unfolding s_def using fresh_restartable assms by (rule run_restartable)
  then have ok: "ds_ok s" "wal_inv (ds_wal s)" and rc: "recovers (ds_wal s) s" by (simp_all add: restartable_def)
  obtain m where m: "replay_log ds_replay (wal_content (ds_wal s)) emptyLog = Inr ((diskLog.truncate s)\<lparr>ds_segMax := m\<rparr>)"
    using rc by (auto simp: recovers_def)
  obtain w where w: "OpenWAL (w_dir (ds_wal s)) 16777216 True ds_replay emptyLog os_ok = Inr ((diskLog.truncate s)\<lparr>ds_segMax := m\<rparr>, w)"
    using OpenWAL_content [OF ok(2), of 16777216 True ds_replay emptyLog] m by auto
  let ?fs = "filter (\<lambda>(n, d). n = SnapFile (ds_snapIdx s)) (ds_files s)"
  have fs: "map_of ?fs (SnapFile (ds_snapIdx s)) = map_of (ds_files s) (SnapFile (ds_snapIdx s))"
    by (rule map_of_filter_key)
  have rm: "removeStaleSnapshots (ds_snapIdx s) (ds_files s) True = Inr ?fs"
    using ok(1) fs by (cases "ds_snapIdx s = 0") (simp_all add: removeStaleSnapshots_def Let_def ds_ok_def)
  have tr: "ds_base ((diskLog.truncate s)\<lparr>ds_segMax := m\<rparr>) = ds_snapIdx s" "ds_snapIdx ((diskLog.truncate s)\<lparr>ds_segMax := m\<rparr>) = ds_snapIdx s"
    using ok(1) by (simp_all add: diskLog.defs ds_ok_def)
  have "ds_reopen s = Inr (diskLog.extend ((diskLog.truncate s)\<lparr>ds_segMax := m\<rparr>) \<lparr>ds_wal = w, ds_files = ?fs\<rparr>)"
    by (simp add: ds_reopen_def OpenDiskStore_def w rm tr)
  then show ?thesis
    unfolding s_def [symmetric] using ok(1) fs by (simp add: ds_ok_def ds_abs_def diskLog.defs)
qed

section \<open>Examples\<close>

text \<open>The log with segments \<open>L\<close>, open and synced.\<close>

definition wal_at :: "wal_segments \<Rightarrow> nat \<Rightarrow> WAL" where
  "wal_at L sz = \<lparr>w_dir = enc_dir L, w_segmentSize = 16777216, w_syncAlways = True, w_seg = fst (last L), w_size = sz,
     w_dirty = False, w_closed = False, w_appendErr = False, w_syncErr = False, w_fileClosed = False\<rparr>"

lemma fresh_wal_at: "fresh_wal 16777216 True = wal_at [(1, [])] 0"
  by (simp add: fresh_wal_def wal_at_def wal_bytes_def)

lemma wal_at_Append:
  assumes "sorted_wrt (<) (map fst L)" and "L \<noteq> []" and "[] \<notin> set ps" and "sz < 16777216"
  shows "WAL_Append (wal_at L sz) ps os_ok
    = (Inr (fst (last L)), wal_at (butlast L @ [(fst (last L), snd (last L) @ ps)]) (sz + length (wal_bytes ps)))"
proof -
  obtain M seg qs where L: "L = M @ [(seg, qs)]" using assms(2) by (metis rev_exhaust surj_pair)
  have n: "seg \<notin> fst ` set (enc_dir M)" using assms(1) by (auto simp: L sorted_wrt_append)
  show ?thesis
    using assms(3,4) n dir_write_mid [OF n, of "[]"]
    by (simp add: L wal_at_def WAL_Append_def WAL_write_def syncLocked_def os_ok_def dir_file_mid wal_bytes_def Let_def)
qed

lemma wal_at_Rotate:
  assumes "sorted_wrt (<) (map fst L)" and "L \<noteq> []"
  shows "WAL_Rotate (wal_at L sz) os_ok = (Inr (fst (last L) + 1), wal_at (L @ [(fst (last L) + 1, [])]) 0)"
proof -
  obtain M seg qs where L: "L = M @ [(seg, qs)]" using assms(2) by (metis rev_exhaust surj_pair)
  have "Suc seg \<notin> fst ` set M" using assms(1) by (fastforce simp: L sorted_wrt_append)
  then show ?thesis
    by (simp add: L wal_at_def WAL_Rotate_def rotateLocked_def syncLocked_def openSegment_def os_ok_def wal_bytes_def)
qed

lemma wal_at_discard:
  assumes "L \<noteq> []" and "seg \<le> fst (last L)"
  shows "wal_discard (wal_at L sz) seg = wal_at (filter (\<lambda>(s, ps). seg \<le> s) L) sz"
proof -
  obtain M a qs where L: "L = M @ [(a, qs)]" using assms(1) by (metis rev_exhaust surj_pair)
  show ?thesis using assms(2)
    by (simp add: L wal_discard_def wal_at_def enc_dir_def filter_map comp_def not_less split_def)
qed

lemma wal_at_content:
  assumes "wf_segments L" and "L \<noteq> []"
  shows "wal_inv (wal_at L sz)" "wal_content (wal_at L sz) = wal_log L"
proof -
  have "wal_holds (wal_at L sz) L" using assms by (simp add: wal_holds_def wal_at_def)
  then show "wal_inv (wal_at L sz)" "wal_content (wal_at L sz) = wal_log L"
    by (auto simp: wal_inv_def wal_ok_def wal_content_holds) (simp_all add: wal_at_def)
qed

lemma records_nonempty [simp]: "[] \<noteq> entry_record e" "[] \<noteq> state_record t v" "[] \<noteq> snapshot_record i t"
  by (simp_all add: entry_record_def state_record_def snapshot_record_def)

lemma wal_at_seg [simp]: "w_seg (wal_at L sz) = fst (last L)"
  by (simp add: wal_at_def)

definition w_disk :: "nat \<Rightarrow> nat \<Rightarrow> Entry list \<Rightarrow> (nat \<times> nat) list \<Rightarrow> wal_segments \<Rightarrow> nat \<Rightarrow> DiskStore" where
  "w_disk i t es segMax L sz = \<lparr>ds_term = 0, ds_vote = 0, ds_base = i, ds_entries = es, ds_snapIdx = i, ds_snapTerm = t,
     ds_segMax = segMax, ds_wal = wal_at L sz, ds_files = (if i = 0 then [] else [(SnapFile i, [])])\<rparr>"

lemma w_fresh: "ds_fresh = w_disk 0 0 [] [] [(1, [])] 0"
  by (simp add: ds_fresh_eq fresh_wal_at w_disk_def emptyLog_def diskLog.defs)

definition w_snap_recs :: "nat \<Rightarrow> nat \<Rightarrow> bytes list" where
  "w_snap_recs i t = [snapshot_record i t, state_record 0 0]"

lemmas w_eval = w_disk_def DiskStore_Append_def DiskStore_Compact_def Let_def ds_lastLocked_def noop_def wal_at_Append wal_at_Rotate
  wal_at_discard wal_bytes_def recordHeader_def writeFileAtomic_def ca_ok_def dropThrough_def deleteObsoleteSegments_def DeleteBefore_ok
  keep_segment_def w_snap_recs_def

abbreviation "w_recs ixs t \<equiv> map entry_record (map (\<lambda>i. noop i t) ixs)"

lemma w_step1: "ds_do ds_fresh (OpAppend [noop 1 1, noop 2 1, noop 3 1])
    = w_disk 0 0 [noop 1 1, noop 2 1, noop 3 1] [(1, 3)] [(1, w_recs [1, 2, 3] 1)] 78"
  by (simp add: w_eval w_fresh)

lemma w_step2: "ds_do (w_disk 0 0 [noop 1 1, noop 2 1, noop 3 1] [(1, 3)] [(1, ps)] 78) (OpCompact 1 1 [])
    = w_disk 1 1 [noop 2 1, noop 3 1] [(1, 3)] [(1, ps), (2, w_snap_recs 1 1)] 50"
  by (simp add: w_eval numeral_2_eq_2)

lemma w_step3: "ds_do (w_disk 1 1 [noop 2 1, noop 3 1] [(1, 3)] [(1, ps), (2, qs)] 50) (OpAppend [noop 4 1, noop 5 1, noop 6 1])
    = w_disk 1 1 [noop 2 1, noop 3 1, noop 4 1, noop 5 1, noop 6 1] [(1, 3), (2, 6)] [(1, ps), (2, qs @ w_recs [4, 5, 6] 1)] 128"
  by (simp add: w_eval)

lemma w_step4: "ds_do (w_disk 1 1 [noop 2 1, noop 3 1, noop 4 1, noop 5 1, noop 6 1] [(1, 3), (2, 6)] [(1, ps), (2, qs)] 128) (OpCompact 2 1 [])
    = w_disk 2 1 [noop 3 1, noop 4 1, noop 5 1, noop 6 1] [(1, 3), (2, 6)] [(1, ps), (2, qs), (3, w_snap_recs 2 1)] 50"
  by (simp add: w_eval)

lemma w_step5: "ds_do (w_disk 2 1 [noop 3 1, noop 4 1, noop 5 1, noop 6 1] [(1, 3), (2, 6)] [(1, ps), (2, qs), (3, rs)] 50) (OpCompact 4 1 [])
    = w_disk 4 1 [noop 5 1, noop 6 1] [(2, 6)] [(2, qs), (3, rs), (4, w_snap_recs 4 1)] 50"
  by (simp add: w_eval)

lemma w_step4': "ds_do (w_disk 1 1 [noop 2 1, noop 3 1, noop 4 1, noop 5 1, noop 6 1] [(1, 3), (2, 6)] [(1, ps), (2, qs)] 128)
      (OpAppend [noop 3 2, noop 4 2])
    = w_disk 1 1 [noop 2 1, noop 3 2, noop 4 2] [(1, 3), (2, 4)] [(1, ps), (2, qs @ w_recs [3, 4] 2)] 180"
  by (simp add: w_eval)

lemma w_step5': "ds_do (w_disk 1 1 [noop 2 1, noop 3 2, noop 4 2] [(1, 3), (2, 4)] [(1, ps), (2, qs)] 180) (OpCompact 3 2 [])
    = w_disk 3 2 [noop 4 2] [(2, 4)] [(2, qs), (3, w_snap_recs 3 2)] 50"
  by (simp add: w_eval)

lemma wf_noop: "storable (noop i t) \<longleftrightarrow> i < 2 ^ 64 \<and> t < 2 ^ 64"
  by (simp add: storable_def noop_def)

lemma w_disk_reopen:
  assumes "wf_segments L" and "L \<noteq> []" and "replay_log ds_replay (wal_log L) emptyLog = Inl e"
  shows "ds_reopen (w_disk i t es m L sz) = Inl (ErrOpenLog (ErrReplay e))"
proof -
  obtain w' where "OpenWAL (w_dir (wal_at L sz)) 16777216 True ds_replay emptyLog os_ok
      = (case replay_log ds_replay (wal_log L) emptyLog of Inl e \<Rightarrow> Inl (ErrReplay e) | Inr s' \<Rightarrow> Inr (s', w'))"
    using OpenWAL_content [OF wal_at_content(1) [OF assms(1,2)], of sz 16777216 True ds_replay emptyLog] wal_at_content(2) [OF assms(1,2)] by auto
  then show ?thesis using assms(3) by (simp add: ds_reopen_def OpenDiskStore_def w_disk_def)
qed

lemmas w_replay = w_snap_recs_def replay_snapshot_record replay_state_record replay_entry_record storable_def emptyLog_def dropThrough_def
  ds_lastLocked_def replay_entry_def noop_def Let_def

lemma w_replay_fails:
  "replay_log ds_replay (wal_log [(2, w_snap_recs 1 1 @ w_recs [4, 5, 6] 1), (3, w_snap_recs 2 1), (4, w_snap_recs 4 1)]) emptyLog
     = Inl (ErrBelowStart 2 4)"
  "replay_log ds_replay (wal_log [(2, (w_snap_recs 1 1 @ w_recs [4, 5, 6] 1) @ w_recs [3, 4] 2), (3, w_snap_recs 3 2)]) emptyLog
     = Inl ReplayPanic"
  by (simp_all add: w_replay)

lemma w_wf:
  "wf_segments [(2, w_snap_recs 1 1 @ w_recs [4, 5, 6] 1), (3, w_snap_recs 2 1), (4, w_snap_recs 4 1)]"
  "wf_segments [(2, (w_snap_recs 1 1 @ w_recs [4, 5, 6] 1) @ w_recs [3, 4] 2), (3, w_snap_recs 3 2)]"
  by (simp_all add: wf_segments_def w_snap_recs_def wf_noop)

text \<open>
  C36: where clean-up drops some of the older segments, the log may not open again. Entries 1 to 3, a compaction at 1,
  entries 4 to 6, and compactions at 2 and at 4: every write succeeds, but the last one removes the segment with the entries 2 and 3
  and keeps the record of the snapshot at 2, which replay then finds below the start of the log and refuses.
\<close>

theorem disk_restart_refused_after_cleanup:
  "let s = foldl ds_do ds_fresh [OpAppend [noop 1 1, noop 2 1, noop 3 1], OpCompact 1 1 [], OpAppend [noop 4 1, noop 5 1, noop 6 1],
         OpCompact 2 1 [], OpCompact 4 1 []]
   in ds_ok s \<and> ds_entries s = [noop 5 1, noop 6 1] \<and> ds_snapIdx s = 4
      \<and> ds_reopen s = Inl (ErrOpenLog (ErrReplay (ErrBelowStart 2 4)))"
  by (simp only: foldl.simps w_step1 w_step2 w_step3 w_step4 w_step5 Let_def w_disk_reopen [OF w_wf(1) list.distinct(2) w_replay_fails(1)])
    (simp add: w_disk_def ds_ok_def)

text \<open>
  C37: the same clean-up after an overwritten tail. Entries 1 to 3, a compaction at 1, entries 4 to 6, the tail from 3 on overwritten by
  a new leader, and a compaction at 3: replay starts with entry 4 and slices the log with a negative bound when it meets the new entry 3.
\<close>

theorem disk_restart_panics_after_overwrite:
  "let s = foldl ds_do ds_fresh [OpAppend [noop 1 1, noop 2 1, noop 3 1], OpCompact 1 1 [], OpAppend [noop 4 1, noop 5 1, noop 6 1],
         OpAppend [noop 3 2, noop 4 2], OpCompact 3 2 []]
   in ds_ok s \<and> ds_entries s = [noop 4 2] \<and> ds_snapIdx s = 3
      \<and> ds_reopen s = Inl (ErrOpenLog (ErrReplay ReplayPanic))"
  by (simp only: foldl.simps w_step1 w_step2 w_step3 w_step4' w_step5' Let_def w_disk_reopen [OF w_wf(2) list.distinct(2) w_replay_fails(2)])
    (simp add: w_disk_def ds_ok_def)

theorem disk_store_refines_memstore_witness:
  "ds_ok ds_fresh \<and> (case DiskStore_Append ds_fresh [noop 1 1] os_ok of
      (Inl _, s') \<Rightarrow> ds_ok s' \<and> ds_abs s' = ds_abs ds_fresh
    | (Inr _, s') \<Rightarrow> ds_ok s' \<and> MemStore_Append (ds_abs ds_fresh) [noop 1 1] = Inr (ds_abs s'))"
proof -
  have ok: "ds_ok ds_fresh" by (simp add: w_fresh w_disk_def ds_ok_def)
  show ?thesis using ok disk_store_refines_memstore [OF ok, THEN conjunct1] by (rule conjI)
qed

theorem disk_restart_recovers_witness:
  "let s = foldl ds_do ds_fresh [OpAppend [noop 1 1, noop 2 1, noop 3 1], OpCompact 1 1 [], OpAppend [noop 4 1, noop 5 1, noop 6 1]]
   in \<exists>s'. ds_reopen s = Inr s' \<and> ds_ok s' \<and> ds_abs s' = ds_abs s \<and> ds_entries s = [noop 2 1, noop 3 1, noop 4 1, noop 5 1, noop 6 1]"
proof -
  let ?ops = "[OpAppend [noop 1 1, noop 2 1, noop 3 1], OpCompact 1 1 [], OpAppend [noop 4 1, noop 5 1, noop 6 1]]"
  have c: "contiguous 1 [noop 1 1, noop 2 1, noop 3 1]" "contiguous 4 [noop 4 1, noop 5 1, noop 6 1]"
    by (simp_all add: contiguous_def noop_def nth_Cons' less_Suc_eq)
  have "legal_run ds_fresh ?ops"
    unfolding legal_run.simps w_step1 w_step2 w_step3 legal.simps
    using c by (simp add: storable_def all_or_none_def w_disk_def wal_at_def noop_def)
  from disk_restart_recovers [OF this] show ?thesis
    unfolding foldl.simps w_step1 w_step2 w_step3 Let_def by (simp add: w_disk_def)
qed

end
