(* ===== verification/Spec2Isabelle.thy ===== *)
theory Spec2Isabelle
  imports Kv_Refine Raft_Cluster Raft_Props Diskstore
begin

text \<open>
  A verification library for Keystone, a replicated key-value store in Go. A node of the program is a
  log-structured storage engine (package \<open>storage\<close>) under a replicated log (package \<open>raft\<close>); clients reach it
  through the server of package \<open>kv\<close>, and package \<open>shard\<close> divides the keys over several groups of nodes.
  The library models the engine and the Raft core down to their bytes, messages and pointers.

  \<^bold>\<open>Conventions.\<close> A byte is an \<open>8 word\<close>, a \<open>uint64\<close> of the engine a \<open>64 word\<close> with its wrap-around; terms, indexes
  and node identifiers of Raft are natural numbers, because nothing in them ever counts down below zero
  or comes near \<open>2 ^ 64\<close>. A struct is a record, an enumeration a datatype. An error is the left side of a sum or an
  option; a Go panic is the outer \<open>None\<close>. What the operating system answers (a short write, a failed
  read, sync, open or removal) is an argument of the operation. A Go interface is a record of functions, and its
  contract is a locale that is interpreted for every implementation. A loop over an iterator runs on fuel,
  and the locale of iterators shows that the number of remaining entries is enough; all other loops are
  total functions.

  \<^bold>\<open>The storage engine.\<close>
  \<^item> Theory Prelude holds byte strings, their lexicographic order, little-endian integers, uvarints and the
    checksum, which the codecs share.
  \<^item> Theory Internal_Key (\<open>storage/key.go\<close>): a user key followed by a trailer of sequence number and kind; the
    comparator sorts versions of a key newest first.
  \<^item> Theories Batch and Manifest (\<open>storage/batch.go\<close>, \<open>storage/manifest.go\<close>): the two codecs and their round trips.
  \<^item> Theory Wal (\<open>storage/wal.go\<close>): segments, records, replay and its truncation of a torn tail, append, rotation,
    deletion. Reopening replays what was appended; a cut at any byte loses only records behind the cut; damage in
    an older segment is refused; a failed write poisons the log.
  \<^item> Theory Iter (\<open>storage/iter.go\<close>) holds the iterator interface as the locale \<open>internal_iter\<close>, with the lemma on loops.
  \<^item> Theories Skiplist and Memtable (\<open>storage/skiplist.go\<close>, \<open>storage/memtable.go\<close>): the skip list as a heap of
    linked nodes, its insertion as preparation and single stores, and the versioned table over it. Inserting
    refines insertion into a sorted list, and a reader between two stores sees the list before or after.
  \<^item> Theories Heap and Merge (\<open>storage/merge.go\<close>): \<open>container/heap\<close> of the Go library and the merging iterator, which
    is an \<open>internal_iter\<close> whose entries are the stable merge of its children.
  \<^item> Theories Bloom, Block and Sstable (\<open>storage/bloom.go\<close>, \<open>storage/block.go\<close>, \<open>storage/sstable.go\<close>): the filter with its
    hash, prefix-compressed blocks with restart points, and the table file with writer, reader and two-level
    iterator. A written table opens, iterates exactly its stream and finds the newest visible version of a key.
  \<^item> Theories Version, Db and Memdb (\<open>storage/version.go\<close>, \<open>storage/db.go\<close>, \<open>storage/compaction.go\<close>, \<open>storage/memdb.go\<close>):
    the tiers of an engine, opening with recovery, group commit, reads, scans, flush, compaction, export and
    restore, and the engine without files.
  \<^item> Theory Db_Refine: the engine as a map from keys to values. \<open>db_abs\<close> is the map its tiers define, \<open>db_inv\<close> the
    invariant; reads answer from the map and a committed group updates it.
  \<^item> Theories Db_Flush and Db_Compact: a flush and a compaction keep \<open>db_inv\<close> and \<open>db_abs\<close>; the compactor picks a run of
    adjacent tables.
  \<^item> Theory Engine: executions of the engine. Every read answers with the last acknowledged operation on the key.
  \<^item> Theories Db_Scan and Db_Snapshot: a scan lists the live keys in order; an export restores to the same contents.
  \<^item> Theory Memdb_Refine: the in-memory engine is the same map.

  \<^bold>\<open>Raft.\<close>
  \<^item> Theory Raft_Log (\<open>raft/types.go\<close>, \<open>raft/memstore.go\<close>): entries, messages and the log store, with the locale
    \<open>log_store\<close> as its contract.
  \<^item> Theory Diskstore (\<open>raft/diskstore.go\<close>): the log store on disk over the write-ahead log. It implements the same contract;
    a restart recovers the log when every clean-up drops all of the older segments or none, and two runs show that it
    may fail otherwise.
  \<^item> Theory Raft (\<open>raft/raft.go\<close>, \<open>raft/snapshot.go\<close>): every handler of the core and of the snapshot transfer.
  \<^item> Theories Raft_Election and Raft_Cluster: what each handler does to term, vote and role, and a cluster of
    nodes with a network that may lose, repeat and reorder messages and nodes that may restart. At most one node
    is ever leader of a term; the locale \<open>quorum_system\<close> carries the intersection of majorities.
  \<^item> Theory Raft_Props: single steps and the snapshot transfer. Only entries of the leader's term on a majority are
    committed; terms and commit indexes never fall; batches are as large as their limits allow; a snapshot that arrives in chunks is
    installed completely or not at all, and the transfer completes when the messages arrive.

  \<^bold>\<open>The replicated state machine.\<close>
  \<^item> Theory Keyhash (\<open>internal/keyhash/keyhash.go\<close>, \<open>shard/shard.go\<close>): the shard of a key and the initial shard map.
  \<^item> Theory Statemachine (\<open>kv/statemachine.go\<close>): commands, client sessions and shard states over the engine's interface.
    The encoding of protocol messages is third-party code and stays a parameter.
  \<^item> Theory Kv_Refine: the locale \<open>kv_store\<close> says what the state machine relies on, and is interpreted for the in-memory
    engine. Commands do what \<open>kv_spec\<close> says, retries execute nothing, and a restart finds the state that was there.

  \<^bold>\<open>Bounds.\<close> Sequence numbers stay below \<open>2 ^ 56\<close>, the bits the trailer keeps of them, and table files below
  \<open>2 ^ 32\<close> bytes; both are hypotheses where they are needed.

  \<^bold>\<open>Not modelled.\<close> The timers, condition variables and goroutines of the engine (a step is what runs under its
  locks), the reference counts that keep files open, and the wording of errors; the Raft node (goroutines and
  channels around the core), and failed writes of the store under the Raft core. Of the other packages: the gRPC
  server, client and transport and the router (I/O around generated stubs), the simulator, the
  commands and the benchmarks, and the generated protocol code.
\<close>

end
